(* ===== verification/Slater_Prelude.thy ===== *)
theory Slater_Prelude
  imports Main "HOL-Library.Word" "HOL-Library.Finite_Map" "HOL-Library.List_Lexorder"
begin

text \<open>
  Shared vocabulary of the development.

  \<^item> Machine types: \<open>byte\<close>, \<open>u32\<close>, \<open>u64\<close>, \<open>i64\<close> are words of their width; \<open>f32\<close> and \<open>f64\<close>
    are the IEEE bit patterns, which is all the storage layer ever looks at. \<open>usize\<close> is 64 bits
    wide, so the source's \<open>as usize\<close> on a \<open>u64\<close> is the identity.
  \<^item> A Rust \<open>String\<close> is its UTF-8 byte image (\<open>str\<close>); \<open>utf8_valid\<close> is the check
    \<open>String::from_utf8\<close> makes. \<open>BTreeMap\<close> and \<open>HashMap\<close> are finite maps (\<open>fmap\<close>), \<open>BTreeSet\<close>
    and \<open>HashSet\<close> are finite sets (\<open>fset\<close>); where the source iterates a sorted container the
    model iterates \<open>sorted_list_of_fmap\<close> or \<open>sorted_list_of_fset\<close>, whose order on byte lists is
    lexicographic, as Rust's is.
  \<^item> \<open>error\<close> has one constructor per \<open>bail!\<close> of the modelled sources, so that every refusal is a
    value.
  \<^item> A decoder that advances a slice (\<open>r: &mut &[u8]\<close>) is a \<open>reader\<close>: the bytes in, an error or
    the result with the bytes left. An encoder that appends to a buffer is the bytes it appends.
  \<^item> The locale \<open>codec\<close> is the contract between the two: what was written reads back and leaves
    the rest of the input untouched. Prefix freeness and injectivity follow once, here.
\<close>

unbundle bit_operations_syntax

section \<open>Machine types\<close>

type_synonym byte = "8 word"
type_synonym u32 = "32 word"
type_synonym u64 = "64 word"
type_synonym i64 = "64 word"
type_synonym f64 = "64 word"
type_synonym f32 = "32 word"
type_synonym str = "byte list"

definition ascii :: "string \<Rightarrow> str" where
  "ascii s = map of_char s"

text \<open>The collection of codec facts: each says that a decoder undoes its encoder.\<close>

named_theorems codec_simps

text \<open>The collection of definitions a component's proofs unfold.\<close>

named_theorems op_defs

section \<open>Errors and readers\<close>

datatype error =
    VarintTruncated | VarintTooLong
  | ValueNoTag | BoolTruncated | ValueTruncated | StringTruncated | NotUtf8
  | UnexpectedEof | UnknownValueTag byte | DepthExceeded nat | VectorTooLong
  | LengthOverflow u64 u64
  | WalStringTruncated | WalByteTruncated | UnknownWalOp byte | BadWalMagic
  | KeyRequired | Unsealed | UnknownFrameKind byte | AeadRejected | WalGap nat nat
  | L0StringTruncated | L0BytesTruncated | L0Truncated | L0BadOptionTag byte
  | L0BadVersion u64 | L0TrailingBytes nat
  | BlobTooShort nat | BlobBadMagic | BlobChecksum
  | AeadEncryptFailed | SealedTooShort
  | IoError

type_synonym 'a reader = "byte list \<Rightarrow> error + 'a \<times> byte list"

fun rbind :: "'a reader \<Rightarrow> ('a \<Rightarrow> 'b reader) \<Rightarrow> 'b reader" where
  "rbind p f r = (case p r of Inl e \<Rightarrow> Inl e | Inr (x, r') \<Rightarrow> f x r')"

fun rret :: "'a \<Rightarrow> 'a reader" where
  "rret x r = Inr (x, r)"

text \<open>\<open>for _ in 0..n { out.push(read(r)?) }\<close>: the first error ends the loop.\<close>

fun rrep :: "nat \<Rightarrow> 'a reader \<Rightarrow> 'a list reader" where
  "rrep 0 p r = Inr ([], r)"
| "rrep (Suc n) p r =
     (case p r of Inl e \<Rightarrow> Inl e
      | Inr (x, r') \<Rightarrow> (case rrep n p r' of Inl e \<Rightarrow> Inl e | Inr (xs, r'') \<Rightarrow> Inr (x # xs, r'')))"

text \<open>Taking \<open>n\<close> bytes off the slice, refused with \<open>e\<close> when fewer are left.\<close>

definition take_bytes :: "error \<Rightarrow> nat \<Rightarrow> byte list reader" where
  "take_bytes e n r = (if length r < n then Inl e else Inr (take n r, drop n r))"

lemma take_bytes_append [codec_simps]:
  "length bs = n \<Longrightarrow> take_bytes e n (bs @ rest) = Inr (bs, rest)"
  by (auto simp: take_bytes_def)

lemma take_bytes_InrD:
  "take_bytes e n r = Inr (bs, r') \<Longrightarrow> r = bs @ r' \<and> length bs = n"
  by (auto simp: take_bytes_def split: if_splits)

lemma rrep_length: "rrep n p r = Inr (xs, r') \<Longrightarrow> length xs = n"
  by (induction n arbitrary: r xs r') (auto split: sum.splits prod.splits)

lemma list_all_True [simp]: "list_all (\<lambda>_. True) xs"
  by (simp add: list_all_iff)

section \<open>The codec contract\<close>

locale codec =
  fixes enc :: "'a \<Rightarrow> byte list"
    and dec :: "'a reader"
    and ok :: "'a \<Rightarrow> bool"
  assumes dec_enc: "ok x \<Longrightarrow> dec (enc x @ rest) = Inr (x, rest)"
begin

lemma dec_enc_nil: "ok x \<Longrightarrow> dec (enc x) = Inr (x, [])"
  using dec_enc [of x "[]"] by simp

lemma prefix_free:
  assumes "ok x" "ok y" "enc x @ r = enc y @ s"
  shows "x = y \<and> r = s"
proof -
  have "dec (enc y @ s) = Inr (x, r)"
    using dec_enc [OF assms(1), of r] by (simp only: assms(3))
  then show ?thesis
    by (simp add: dec_enc [OF assms(2)])
qed

lemma enc_inj: "ok x \<Longrightarrow> ok y \<Longrightarrow> enc x = enc y \<Longrightarrow> x = y"
  using prefix_free [of x y "[]" "[]"] by simp

lemma dec_list:
  "list_all ok xs \<Longrightarrow> n = length xs \<Longrightarrow> rrep n dec (concat (map enc xs) @ rest) = Inr (xs, rest)"
  by (induction xs arbitrary: n) (auto simp: dec_enc)

end

text \<open>Two codecs in sequence are a codec: the pair is read back field by field.\<close>

lemma codec_pair:
  assumes "codec enc1 dec1 ok1" "codec enc2 dec2 ok2"
  shows "codec (\<lambda>(x, y). enc1 x @ enc2 y) (rbind dec1 (\<lambda>x. rbind dec2 (\<lambda>y. rret (x, y))))
    (\<lambda>(x, y). ok1 x \<and> ok2 y)"
proof -
  note d1 = codec.dec_enc [OF assms(1)] and d2 = codec.dec_enc [OF assms(2)]
  show ?thesis by (unfold_locales) (auto simp: d1 d2)
qed

section \<open>UTF-8\<close>

definition utf8_cont :: "byte \<Rightarrow> bool" where
  "utf8_cont b \<longleftrightarrow> 0x80 \<le> b \<and> b \<le> 0xBF"

text \<open>The well-formed byte sequences, as \<open>String::from_utf8\<close> accepts them.\<close>

fun utf8_valid :: "byte list \<Rightarrow> bool" where
  "utf8_valid [] = True"
| "utf8_valid (b # bs) =
     (if b < 0x80 then utf8_valid bs
      else if 0xC2 \<le> b \<and> b \<le> 0xDF then
        (case bs of c1 # r \<Rightarrow> utf8_cont c1 \<and> utf8_valid r | _ \<Rightarrow> False)
      else if 0xE0 \<le> b \<and> b \<le> 0xEF then
        (case bs of c1 # c2 # r \<Rightarrow>
           (if b = 0xE0 then 0xA0 \<le> c1 \<and> c1 \<le> 0xBF
            else if b = 0xED then 0x80 \<le> c1 \<and> c1 \<le> 0x9F
            else utf8_cont c1) \<and> utf8_cont c2 \<and> utf8_valid r
         | _ \<Rightarrow> False)
      else if 0xF0 \<le> b \<and> b \<le> 0xF4 then
        (case bs of c1 # c2 # c3 # r \<Rightarrow>
           (if b = 0xF0 then 0x90 \<le> c1 \<and> c1 \<le> 0xBF
            else if b = 0xF4 then 0x80 \<le> c1 \<and> c1 \<le> 0x8F
            else utf8_cont c1) \<and> utf8_cont c2 \<and> utf8_cont c3 \<and> utf8_valid r
         | _ \<Rightarrow> False)
      else False)"

lemma utf8_valid_ascii_bytes: "list_all (\<lambda>b. b < 0x80) bs \<Longrightarrow> utf8_valid bs"
  by (induction bs) auto

section \<open>Little-endian integers\<close>

definition le_bytes :: "nat \<Rightarrow> 'a::len word \<Rightarrow> byte list" where
  "le_bytes n w = map (\<lambda>i. ucast (drop_bit (8 * i) w)) [0..<n]"

fun from_le :: "byte list \<Rightarrow> 'a::len word" where
  "from_le [] = 0"
| "from_le (b # bs) = ucast b OR push_bit 8 (from_le bs)"

lemma length_le_bytes [simp]: "length (le_bytes n w) = n"
  by (simp add: le_bytes_def)

lemma bit_from_le:
  "bit (from_le bs :: 'a::len word) k \<longleftrightarrow> k < LENGTH('a) \<and> k div 8 < length bs \<and> bit (bs ! (k div 8)) (k mod 8)"
proof (induction bs arbitrary: k)
  case Nil
  then show ?case by simp
next
  case (Cons b bs)
  show ?case
  proof (cases "k < 8")
    case True
    then show ?thesis by (auto simp: bit_simps)
  next
    case False
    then obtain j where j: "k = j + 8" by (metis add.commute le_Suc_ex not_less)
    have "\<not> bit b k" using False bit_imp_le_length [of b k] by auto
    then show ?thesis
      using Cons.IH [of j] j by (auto simp: bit_simps)
  qed
qed

lemma from_le_le_bytes:
  assumes "LENGTH('a::len) = 8 * n"
  shows "from_le (le_bytes n w) = (w :: 'a word)"
proof (rule bit_word_eqI)
  fix k assume k: "k < LENGTH('a)"
  then have "k div 8 < n" using assms by auto
  then show "bit (from_le (le_bytes n w) :: 'a word) k \<longleftrightarrow> bit w k"
    using k by (simp add: bit_from_le le_bytes_def bit_simps mult_div_mod_eq)
qed

lemmas from_le_u32 [codec_simps] = from_le_le_bytes [where 'a = 32 and n = 4, simplified]
lemmas from_le_u64 [codec_simps] = from_le_le_bytes [where 'a = 64 and n = 8, simplified]

lemma unat_of_nat_u32: "n < 2 ^ 32 \<Longrightarrow> unat (of_nat n :: u32) = n"
  by (simp add: unat_of_nat take_bit_nat_eq_self)

lemma unat_u64_less: "unat (v :: u64) < 2 ^ 64"
  using unsigned_less [of v] by simp

lemma unat_of_nat_u64: "n < 2 ^ 64 \<Longrightarrow> unat (of_nat n :: u64) = n"
  by (simp add: unat_of_nat take_bit_nat_eq_self)

section \<open>Finite maps and sets\<close>

text \<open>Inserting a run of pairs in order, the later winning: \<open>for (k, v) in xs { m.insert(k, v) }\<close>.\<close>

fun fminsert_all :: "('k \<times> 'v) list \<Rightarrow> ('k, 'v) fmap \<Rightarrow> ('k, 'v) fmap" where
  "fminsert_all [] m = m"
| "fminsert_all ((k, v) # xs) m = fminsert_all xs (fmupd k v m)"

lemma fminsert_all_lookup:
  "fmlookup (fminsert_all xs m) k = (case map_of (rev xs) k of None \<Rightarrow> fmlookup m k | Some v \<Rightarrow> Some v)"
  by (induction xs m rule: fminsert_all.induct) (auto simp: map_add_def split: option.splits)

lemma fminsert_all_distinct:
  assumes "distinct (map fst xs)"
  shows "fminsert_all xs fmempty = fmap_of_list xs"
proof (rule fmap_ext)
  fix k
  have "map_of (rev xs) = map_of xs"
    using assms by (intro map_of_inject_set [THEN iffD2]) (auto simp: rev_map [symmetric])
  then show "fmlookup (fminsert_all xs fmempty) k = fmlookup (fmap_of_list xs) k"
    by (simp add: fminsert_all_lookup fmlookup_of_list split: option.splits)
qed

lemma set_map_filter: "y \<in> set (List.map_filter g xs) \<longleftrightarrow> (\<exists>x \<in> set xs. g x = Some y)"
  by (auto simp: List.map_filter_def image_iff)

end
