(* ===== verification/Wire.thy ===== *)
theory Wire
  imports Slater_Prelude
begin

text \<open>
  The wire encoding of \<^verbatim>\<open>graph-format/src/wire.rs\<close> and the property value type of
  \<^verbatim>\<open>graph-format/src/ids.rs\<close>: LEB128 varints, zig-zag integers, and the tagged encoding of
  values with its depth-bounded decoder and skipper.
\<close>

unbundle bit_operations_syntax

section \<open>Unsigned varints\<close>

function write_uvarint :: "u64 \<Rightarrow> byte list" where
  "write_uvarint v =
     (let b = (ucast (v AND 0x7f) :: byte); v' = drop_bit 7 v
      in if v' \<noteq> 0 then (b OR 0x80) # write_uvarint v' else [b])"
  by pat_completeness auto

lemma drop_bit7_less: "drop_bit 7 v \<noteq> 0 \<Longrightarrow> unat (drop_bit 7 (v :: u64)) < unat v"
proof -
  assume nz: "drop_bit 7 v \<noteq> 0"
  have e: "unat (drop_bit 7 v) = unat v div 128"
    by (subst unat_drop_bit_eq) (simp add: drop_bit_eq_div)
  have "unat (drop_bit 7 v) \<noteq> 0" using nz by (simp add: unat_eq_zero)
  then show ?thesis unfolding e by auto
qed

termination write_uvarint
  by (relation "measure unat") (auto simp: drop_bit7_less)

declare write_uvarint.simps [simp del]

text \<open>\<open>u64::leading_zeros\<close>.\<close>

definition leading_zeros :: "u64 \<Rightarrow> nat" where
  "leading_zeros v = length (takeWhile (\<lambda>i. \<not> bit v i) (rev [0..<64]))"

definition uvarint_len :: "u64 \<Rightarrow> nat" where
  "uvarint_len v = (let bits = max (64 - leading_zeros v) 1 in (bits + 6) div 7)"

fun read_uvarint_loop :: "u64 \<Rightarrow> nat \<Rightarrow> u64 reader" where
  "read_uvarint_loop result shift [] = Inl VarintTruncated"
| "read_uvarint_loop result shift (b # rest) =
     (let result = result OR push_bit shift (ucast (b AND 0x7f))
      in if b AND 0x80 = 0 then Inr (result, rest)
         else if 64 \<le> shift + 7 then Inl VarintTooLong
         else read_uvarint_loop result (shift + 7) rest)"

definition read_uvarint :: "u64 reader" where
  "read_uvarint r = read_uvarint_loop 0 0 r"

subsection \<open>The round trip\<close>

lemma mask7: "(0x7f :: 'a::len word) = mask 7"
  by (simp add: mask_eq_exp_minus_1)

lemma bit_128: "bit (0x80 :: int) n \<longleftrightarrow> n = 7"
proof -
  have e: "(0x80 :: int) = 2 ^ 7" by simp
  show ?thesis unfolding e by (subst bit_exp_iff) auto
qed

lemma group_bits:
  fixes v :: u64
  shows "ucast ((ucast (v AND 0x7f) :: byte) AND 0x7f) = v AND 0x7f"
    and "ucast (((ucast (v AND 0x7f) :: byte) OR 0x80) AND 0x7f) = v AND 0x7f"
    and "((ucast (v AND 0x7f) :: byte) OR 0x80) AND 0x80 \<noteq> 0"
    and "(ucast (v AND 0x7f) :: byte) AND 0x80 = 0"
proof -
  show "ucast ((ucast (v AND 0x7f) :: byte) AND 0x7f) = v AND 0x7f"
    unfolding mask7 by (rule bit_word_eqI) (auto simp: bit_simps)
  show "ucast (((ucast (v AND 0x7f) :: byte) OR 0x80) AND 0x7f) = v AND 0x7f"
    unfolding mask7 by (rule bit_word_eqI) (auto simp: bit_simps bit_128)
  have "((ucast (v AND 0x7f) :: byte) OR 0x80) AND 0x80 = 0x80"
    by (rule bit_word_eqI) (auto simp: bit_simps)
  then show "((ucast (v AND 0x7f) :: byte) OR 0x80) AND 0x80 \<noteq> 0" by simp
  show "(ucast (v AND 0x7f) :: byte) AND 0x80 = 0"
    unfolding mask7 by (rule bit_word_eqI) (auto simp: bit_simps bit_128)
qed

lemma push_bit_split7:
  "push_bit s (v AND 0x7f) OR push_bit (s + 7) (drop_bit 7 v) = push_bit s (v :: u64)"
proof (rule bit_word_eqI)
  fix n assume "n < LENGTH(64)"
  then show "bit (push_bit s (v AND 0x7f) OR push_bit (s + 7) (drop_bit 7 v)) n = bit (push_bit s v) n"
    unfolding mask7 by (cases "n - s < 7") (auto simp: bit_simps)
qed

lemma drop_bit7_zero: "drop_bit 7 v = 0 \<Longrightarrow> v AND 0x7f = (v :: u64)"
  using push_bit_split7 [of 0 v] by simp

lemma unat_drop_bit7: "unat (drop_bit 7 v) = unat (v :: u64) div 128"
  by (subst unat_drop_bit_eq) (simp add: drop_bit_eq_div)

lemma read_uvarint_loop_write:
  "shift < 64 \<Longrightarrow> unat v < 2 ^ (64 - shift) \<Longrightarrow>
   read_uvarint_loop acc shift (write_uvarint v @ rest) = Inr (acc OR push_bit shift v, rest)"
proof (induction v arbitrary: acc shift rule: write_uvarint.induct)
  case (1 v)
  show ?case
  proof (cases "drop_bit 7 v = 0")
    case True
    then have "push_bit shift (v AND 0x7f) = push_bit shift v"
      by (simp only: drop_bit7_zero)
    with True show ?thesis
      by (simp add: write_uvarint.simps [of v] group_bits Let_def)
  next
    case False
    have "1 \<le> unat v div 128"
      using False by (simp flip: unat_drop_bit7 add: unat_eq_zero Suc_le_eq unat_gt_0)
    then have big: "2 ^ 7 \<le> unat v" by simp
    then have "(2::nat) ^ 7 < 2 ^ (64 - shift)" using "1.prems"(2) by linarith
    then have "7 < 64 - shift" by (rule power_less_imp_less_exp [rotated]) simp
    then have s: "shift + 7 < 64" by linarith
    have "unat v < 128 * 2 ^ (64 - (shift + 7))"
    proof -
      have "(128::nat) * 2 ^ (64 - (shift + 7)) = 2 ^ (7 + (64 - (shift + 7)))"
        by (simp add: power_add)
      also have "7 + (64 - (shift + 7)) = 64 - shift" using s by simp
      finally show ?thesis using "1.prems"(2) by simp
    qed
    then have b: "unat (drop_bit 7 v) < 2 ^ (64 - (shift + 7))"
      by (simp add: unat_drop_bit7 less_mult_imp_div_less mult.commute)
    show ?thesis
      using "1.IH" [OF refl refl False s b, of "acc OR push_bit shift (v AND 0x7f)"] False s
      by (simp add: write_uvarint.simps [of v] group_bits Let_def or.assoc push_bit_split7 [simplified])
  qed
qed

lemma read_uvarint_write [codec_simps]: "read_uvarint (write_uvarint v @ rest) = Inr (v, rest)"
  using read_uvarint_loop_write [of 0 v 0 rest] unat_u64_less [of v] by (simp add: read_uvarint_def)

interpretation uvarint: codec write_uvarint read_uvarint "\<lambda>_. True"
  by unfold_locales (simp add: codec_simps)

lemma write_uvarint_nonempty [simp]: "write_uvarint v \<noteq> []"
  by (subst write_uvarint.simps) (simp add: Let_def)

subsection \<open>The announced length\<close>

text \<open>The number of significant bits: \<open>64 - leading_zeros v\<close> is the least width that holds \<open>v\<close>.\<close>

lemma takeWhile_rev_upt:
  assumes "\<And>i. m \<le> i \<Longrightarrow> i < n \<Longrightarrow> P i" "0 < m \<Longrightarrow> \<not> P (m - 1)" "m \<le> n"
  shows "length (takeWhile P (rev [0..<n])) = n - m"
proof -
  have "[0..<n] = [0..<m] @ [m..<n]"
    using assms(3) upt_add_eq_append [of 0 m "n - m"] by simp
  then have "rev [0..<n] = rev [m..<n] @ rev [0..<m]" by simp
  moreover have "takeWhile P (rev [0..<m]) = []"
    using assms(2) by (cases m) auto
  ultimately show ?thesis
    using assms(1) by (simp add: takeWhile_append)
qed

lemma significant_bits:
  assumes "unat v < 2 ^ m" "0 < m \<Longrightarrow> 2 ^ (m - 1) \<le> unat v" "m \<le> 64"
  shows "64 - leading_zeros v = m"
proof -
  have "\<not> bit v i" if "m \<le> i" for i
  proof -
    have "unat v < 2 ^ i"
      using assms(1) that by (meson order_less_le_trans one_le_numeral power_increasing)
    then have "\<not> bit (unat v) i" by (simp add: bit_iff_odd)
    then show ?thesis by (simp add: bit_unsigned_iff)
  qed
  moreover have "bit v (m - 1)" if "0 < m"
  proof -
    have "unat v div 2 ^ (m - 1) = 1"
      using assms that by (simp add: div_nat_eqI power_eq_if)
    then have "bit (unat v) (m - 1)" by (simp add: bit_iff_odd)
    then show ?thesis by (simp add: bit_unsigned_iff)
  qed
  ultimately have "leading_zeros v = 64 - m"
    unfolding leading_zeros_def using assms(3) by (intro takeWhile_rev_upt) auto
  then show ?thesis using assms(3) by simp
qed

lemma exists_width: "\<exists>m \<le> 64. unat (v::u64) < 2 ^ m \<and> (0 < m \<longrightarrow> 2 ^ (m - 1) \<le> unat v)"
proof -
  define m where "m = (LEAST m. unat v < 2 ^ m)"
  have "unat v < 2 ^ 64" by (rule unat_u64_less)
  then have "unat v < 2 ^ m" "m \<le> 64"
    unfolding m_def by (rule LeastI, rule Least_le)
  moreover have "2 ^ (m - 1) \<le> unat v" if "0 < m"
    using not_less_Least [of "m - 1" "\<lambda>m. unat v < 2 ^ m"] that by (fold m_def) simp
  ultimately show ?thesis by blast
qed

lemma length_write_uvarint_width:
  "unat v < 2 ^ m \<Longrightarrow> (0 < m \<Longrightarrow> 2 ^ (m - 1) \<le> unat v) \<Longrightarrow>
   length (write_uvarint v) = (max m 1 + 6) div 7"
proof (induction v arbitrary: m rule: write_uvarint.induct)
  case (1 v)
  show ?case
  proof (cases "m \<le> 7")
    case True
    then have "unat v < 2 ^ 7"
      using "1.prems"(1) by (meson order_less_le_trans one_le_numeral power_increasing)
    then have "drop_bit 7 v = 0" by (simp add: unat_drop_bit7 flip: unat_eq_zero)
    moreover have "(max m 1 + 6) div 7 = 1" using True by (cases m) auto
    ultimately show ?thesis by (simp add: write_uvarint.simps [of v])
  next
    case False
    then obtain j where m: "m = Suc j + 7" by (metis add.commute less_iff_Suc_add not_le add_Suc)
    have lo: "2 ^ j * 128 \<le> unat v" using "1.prems"(2) m by (simp add: power_add mult.commute)
    have hi: "unat v < 2 ^ Suc j * 128" using "1.prems"(1) m by (simp add: power_add mult.commute)
    have nz: "drop_bit 7 v \<noteq> 0"
    proof -
      have "128 \<le> unat v" using lo by (metis le_trans one_le_numeral one_le_power mult_le_mono1 mult_1)
      then have "unat v div 128 \<noteq> 0" by auto
      then show ?thesis by (simp flip: unat_drop_bit7 add: unat_eq_zero)
    qed
    have "length (write_uvarint (drop_bit 7 v)) = (max (Suc j) 1 + 6) div 7"
    proof (rule "1.IH" [OF refl refl nz])
      show "unat (drop_bit 7 v) < 2 ^ Suc j"
        using hi by (simp add: unat_drop_bit7 less_mult_imp_div_less)
      show "2 ^ (Suc j - 1) \<le> unat (drop_bit 7 v)"
        using lo by (simp add: unat_drop_bit7 less_eq_div_iff_mult_less_eq)
    qed
    then show ?thesis using nz m by (simp add: write_uvarint.simps [of v] Let_def)
  qed
qed

lemma length_write_uvarint: "length (write_uvarint v) = uvarint_len v"
proof -
  obtain m where "m \<le> 64" "unat v < 2 ^ m" "0 < m \<longrightarrow> 2 ^ (m - 1) \<le> unat v"
    using exists_width by blast
  then show ?thesis
    by (simp add: length_write_uvarint_width [of v m] significant_bits [of v m] uvarint_len_def)
qed

section \<open>Zig-zag\<close>

definition zigzag :: "i64 \<Rightarrow> u64" where
  "zigzag v = push_bit 1 v XOR signed_drop_bit 63 v"

definition unzigzag :: "u64 \<Rightarrow> i64" where
  "unzigzag v = drop_bit 1 v XOR - (v AND 1)"

lemma sign_fill: "signed_drop_bit 63 (v :: i64) = (if bit v 63 then -1 else 0)"
proof (rule bit_word_eqI)
  fix n assume "n < LENGTH(64)"
  then show "bit (signed_drop_bit 63 v) n = bit (if bit v 63 then - 1 else 0 :: i64) n"
    by (cases "n = 0") (auto simp: bit_simps)
qed

lemma bit_double: "bit (push_bit 1 v :: i64) n \<longleftrightarrow> 0 < n \<and> n < 64 \<and> bit v (n - 1)"
  by (simp only: bit_push_bit_iff) (auto simp: possible_bit_word)

lemma unzigzag_zigzag [simp]: "unzigzag (zigzag v) = v"
proof (cases "bit v 63")
  case True
  have a: "NOT (push_bit 1 v) AND 1 = (1 :: i64)"
    by (rule bit_word_eqI) (auto simp: bit_simps bit_double simp del: One_nat_def)
  have "drop_bit 1 (NOT (push_bit 1 v)) = NOT v"
  proof (rule bit_word_eqI)
    fix n assume "n < LENGTH(64)"
    then show "bit (drop_bit 1 (NOT (push_bit 1 v))) n = bit (NOT v) n"
      using True by (cases "n = 63")
        (auto simp: bit_drop_bit_eq bit_not_iff possible_bit_word bit_double simp del: One_nat_def)
  qed
  then show ?thesis using True a by (simp add: zigzag_def unzigzag_def sign_fill del: One_nat_def)
next
  case False
  have a: "push_bit 1 v AND 1 = (0 :: i64)"
    by (rule bit_word_eqI) (auto simp: bit_simps bit_double simp del: One_nat_def)
  have "drop_bit 1 (push_bit 1 v) = v"
  proof (rule bit_word_eqI)
    fix n assume "n < LENGTH(64)"
    then show "bit (drop_bit 1 (push_bit 1 v)) n = bit v n"
      using False by (cases "n = 63") (auto simp: bit_drop_bit_eq bit_double simp del: One_nat_def)
  qed
  then show ?thesis using False a by (simp add: zigzag_def unzigzag_def sign_fill del: One_nat_def)
qed

section \<open>Reservation and length guards\<close>

definition capacity_for :: "nat \<Rightarrow> nat \<Rightarrow> nat \<Rightarrow> nat" where
  "capacity_for count remaining min_elem_bytes = min count (remaining div max min_elem_bytes 1)"

definition MAX_UNBACKED_PREALLOC :: nat where
  "MAX_UNBACKED_PREALLOC = 2 ^ 20"

definition capacity_hint :: "nat \<Rightarrow> nat" where
  "capacity_hint count = min count MAX_UNBACKED_PREALLOC"

text \<open>\<open>n * elem\<close> as a \<open>usize\<close>, refused when the product does not fit.\<close>

definition checked_span :: "u64 \<Rightarrow> u64 \<Rightarrow> error + u64" where
  "checked_span n elem =
     (if unat n * unat elem < 2 ^ 64 then Inr (n * elem) else Inl (LengthOverflow n elem))"

section \<open>Property values\<close>

datatype Value =
    VNull
  | VBool bool
  | VInt i64
  | VFloat f64
  | VStr str
  | VList "Value list"
  | VVector "f32 list"

definition MAX_VALUE_DEPTH :: nat where
  "MAX_VALUE_DEPTH = 256"

definition TAG_NULL :: byte where "TAG_NULL = 0"
definition TAG_BOOL :: byte where "TAG_BOOL = 1"
definition TAG_INT :: byte where "TAG_INT = 2"
definition TAG_FLOAT :: byte where "TAG_FLOAT = 3"
definition TAG_STR :: byte where "TAG_STR = 4"
definition TAG_LIST :: byte where "TAG_LIST = 5"
definition TAG_VECTOR :: byte where "TAG_VECTOR = 6"

lemmas tag_defs = TAG_NULL_def TAG_BOOL_def TAG_INT_def TAG_FLOAT_def TAG_STR_def TAG_LIST_def
  TAG_VECTOR_def

fun write_value :: "Value \<Rightarrow> byte list" where
  "write_value VNull = [TAG_NULL]"
| "write_value (VBool b) = [TAG_BOOL, (if b then 1 else 0)]"
| "write_value (VInt i) = TAG_INT # write_uvarint (zigzag i)"
| "write_value (VFloat f) = TAG_FLOAT # le_bytes 8 f"
| "write_value (VStr s) = TAG_STR # write_uvarint (of_nat (length s)) @ s"
| "write_value (VList items) =
     TAG_LIST # write_uvarint (of_nat (length items)) @ concat (map write_value items)"
| "write_value (VVector xs) =
     TAG_VECTOR # write_uvarint (of_nat (length xs)) @ concat (map (le_bytes 4) xs)"

definition read_f64 :: "f64 reader" where
  "read_f64 = rbind (take_bytes UnexpectedEof 8) (\<lambda>bs. rret (from_le bs))"

definition read_f32 :: "f32 reader" where
  "read_f32 = rbind (take_bytes UnexpectedEof 4) (\<lambda>bs. rret (from_le bs))"

definition skip_bytes :: "nat \<Rightarrow> unit reader" where
  "skip_bytes n = rbind (take_bytes ValueTruncated n) (\<lambda>_. rret ())"

text \<open>Depth is checked on entry, so the recursion stops before the frame that would pass the cap.\<close>

function (sequential) skip_value_at :: "nat \<Rightarrow> unit reader"
  and skip_items :: "nat \<Rightarrow> nat \<Rightarrow> unit reader" where
  "skip_value_at depth r =
     (if MAX_VALUE_DEPTH < depth then Inl (DepthExceeded MAX_VALUE_DEPTH)
      else case r of [] \<Rightarrow> Inl ValueNoTag
      | tag # r \<Rightarrow>
        (if tag = TAG_NULL then Inr ((), r)
         else if tag = TAG_BOOL then (case r of [] \<Rightarrow> Inl BoolTruncated | _ # r' \<Rightarrow> Inr ((), r'))
         else if tag = TAG_INT then
           (case read_uvarint r of Inl e \<Rightarrow> Inl e | Inr (_, r') \<Rightarrow> Inr ((), r'))
         else if tag = TAG_FLOAT then skip_bytes 8 r
         else if tag = TAG_STR then
           (case read_uvarint r of Inl e \<Rightarrow> Inl e | Inr (len, r') \<Rightarrow> skip_bytes (unat len) r')
         else if tag = TAG_LIST then
           (case read_uvarint r of Inl e \<Rightarrow> Inl e | Inr (n, r') \<Rightarrow> skip_items (unat n) (depth + 1) r')
         else if tag = TAG_VECTOR then
           (case read_uvarint r of Inl e \<Rightarrow> Inl e
            | Inr (n, r') \<Rightarrow>
              (if unat n * 4 < 2 ^ 64 then skip_bytes (unat n * 4) r' else Inl VectorTooLong))
         else Inl (UnknownValueTag tag)))"
| "skip_items 0 depth r = Inr ((), r)"
| "skip_items (Suc n) depth r =
     (case skip_value_at depth r of Inl e \<Rightarrow> Inl e | Inr (_, r') \<Rightarrow> skip_items n depth r')"
  by pat_completeness auto

termination
  by (relation "measures [\<lambda>x. case x of Inl (d, _) \<Rightarrow> 257 - d | Inr (n, d, _) \<Rightarrow> 257 - d,
        \<lambda>x. case x of Inl _ \<Rightarrow> 0 | Inr (n, _, _) \<Rightarrow> n]")
    (auto simp: MAX_VALUE_DEPTH_def)

definition skip_value :: "unit reader" where
  "skip_value r = skip_value_at 1 r"

function (sequential) read_value_at :: "nat \<Rightarrow> Value reader"
  and read_items :: "nat \<Rightarrow> nat \<Rightarrow> Value list reader" where
  "read_value_at depth r =
     (if MAX_VALUE_DEPTH < depth then Inl (DepthExceeded MAX_VALUE_DEPTH)
      else case r of [] \<Rightarrow> Inl ValueNoTag
      | tag # r \<Rightarrow>
        (if tag = TAG_NULL then Inr (VNull, r)
         else if tag = TAG_BOOL then
           (case r of [] \<Rightarrow> Inl BoolTruncated | b # r' \<Rightarrow> Inr (VBool (b \<noteq> 0), r'))
         else if tag = TAG_INT then
           (case read_uvarint r of Inl e \<Rightarrow> Inl e | Inr (v, r') \<Rightarrow> Inr (VInt (unzigzag v), r'))
         else if tag = TAG_FLOAT then
           (case read_f64 r of Inl e \<Rightarrow> Inl e | Inr (f, r') \<Rightarrow> Inr (VFloat f, r'))
         else if tag = TAG_STR then
           (case read_uvarint r of Inl e \<Rightarrow> Inl e
            | Inr (len, r') \<Rightarrow>
              (case take_bytes StringTruncated (unat len) r' of Inl e \<Rightarrow> Inl e
               | Inr (s, r'') \<Rightarrow> if utf8_valid s then Inr (VStr s, r'') else Inl NotUtf8))
         else if tag = TAG_LIST then
           (case read_uvarint r of Inl e \<Rightarrow> Inl e
            | Inr (n, r') \<Rightarrow>
              (case read_items (unat n) (depth + 1) r' of Inl e \<Rightarrow> Inl e
               | Inr (items, r'') \<Rightarrow> Inr (VList items, r'')))
         else if tag = TAG_VECTOR then
           (case read_uvarint r of Inl e \<Rightarrow> Inl e
            | Inr (n, r') \<Rightarrow>
              (case rrep (unat n) read_f32 r' of Inl e \<Rightarrow> Inl e
               | Inr (xs, r'') \<Rightarrow> Inr (VVector xs, r'')))
         else Inl (UnknownValueTag tag)))"
| "read_items 0 depth r = Inr ([], r)"
| "read_items (Suc n) depth r =
     (case read_value_at depth r of Inl e \<Rightarrow> Inl e
      | Inr (v, r') \<Rightarrow>
        (case read_items n depth r' of Inl e \<Rightarrow> Inl e | Inr (vs, r'') \<Rightarrow> Inr (v # vs, r'')))"
  by pat_completeness auto

termination
  by (relation "measures [\<lambda>x. case x of Inl (d, _) \<Rightarrow> 257 - d | Inr (n, d, _) \<Rightarrow> 257 - d,
        \<lambda>x. case x of Inl _ \<Rightarrow> 0 | Inr (n, _, _) \<Rightarrow> n]")
    (auto simp: MAX_VALUE_DEPTH_def)

definition read_value :: "Value reader" where
  "read_value r = read_value_at 1 r"

declare read_value_at.simps [simp del] skip_value_at.simps [simp del]

subsection \<open>Depth and well-formedness\<close>

text \<open>
  \<open>vdepth\<close> counts nesting as the source's \<open>MAX_VALUE_DEPTH\<close> does: a scalar is depth 1, an item of
  a top-level list depth 2. \<open>value_ok\<close> holds of every Rust \<open>Value\<close>: strings are UTF-8 and no
  collection is longer than the address space.
\<close>

fun vdepth :: "Value \<Rightarrow> nat" where
  "vdepth (VList items) = Suc (foldr max (map vdepth items) 0)"
| "vdepth _ = 1"

fun value_ok :: "Value \<Rightarrow> bool" where
  "value_ok (VStr s) \<longleftrightarrow> utf8_valid s \<and> length s < 2 ^ 64"
| "value_ok (VList items) \<longleftrightarrow> length items < 2 ^ 64 \<and> list_all value_ok items"
| "value_ok (VVector xs) \<longleftrightarrow> length xs < 2 ^ 64"
| "value_ok _ \<longleftrightarrow> True"

lemma read_f64_le [codec_simps]: "read_f64 (le_bytes 8 f @ rest) = Inr (f, rest)"
  by (simp add: read_f64_def codec_simps)

lemma read_f32_le [codec_simps]: "read_f32 (le_bytes 4 f @ rest) = Inr (f, rest)"
  by (simp add: read_f32_def codec_simps)

interpretation f32c: codec "le_bytes 4" read_f32 "\<lambda>_. True"
  by unfold_locales (simp add: codec_simps)

lemma vdepth_pos: "1 \<le> vdepth v"
  by (cases v) auto

lemma foldr_max_le: "foldr max ns (0::nat) \<le> k \<longleftrightarrow> (\<forall>n \<in> set ns. n \<le> k)"
  by (induction ns) auto

text \<open>The decoder on an encoder's image, at any entry depth: the value comes back exactly when the
  deepest level stays within the cap, and otherwise the one error is the depth refusal.\<close>

lemma read_value_at_write:
  "value_ok v \<Longrightarrow>
   read_value_at depth (write_value v @ rest) =
     (if depth + vdepth v \<le> Suc MAX_VALUE_DEPTH then Inr (v, rest)
      else Inl (DepthExceeded MAX_VALUE_DEPTH))"
proof (induction v arbitrary: depth rest)
  case (VList items)
  have items: "read_items (length xs) d (concat (map write_value xs) @ rest) =
     (if \<forall>x \<in> set xs. d + vdepth x \<le> Suc MAX_VALUE_DEPTH then Inr (xs, rest)
      else Inl (DepthExceeded MAX_VALUE_DEPTH))"
    if "set xs \<subseteq> set items" for xs d
    using that
  proof (induction xs)
    case (Cons x xs)
    then have "value_ok x" using VList.prems by (auto simp: list_all_iff)
    with Cons VList.IH [of x d "concat (map write_value xs) @ rest"] show ?case by auto
  qed simp
  have "depth + vdepth (VList items) \<le> Suc MAX_VALUE_DEPTH \<longleftrightarrow>
      depth \<le> MAX_VALUE_DEPTH \<and> (\<forall>x \<in> set items. Suc depth + vdepth x \<le> Suc MAX_VALUE_DEPTH)"
    using foldr_max_le [of "map vdepth items" "MAX_VALUE_DEPTH - depth"] by auto
  then show ?case
    using VList.prems items [of items "Suc depth"]
    by (simp add: read_value_at.simps [of depth] tag_defs codec_simps unat_of_nat_u64)
next
  case (VVector xs)
  then show ?case
    using f32c.dec_list [of xs "length xs" rest]
    by (simp add: read_value_at.simps tag_defs codec_simps unat_of_nat_u64)
qed (auto simp: read_value_at.simps tag_defs codec_simps unat_of_nat_u64)

definition value_storable :: "Value \<Rightarrow> bool" where
  "value_storable v \<longleftrightarrow> value_ok v \<and> vdepth v \<le> MAX_VALUE_DEPTH"

lemma read_value_write [codec_simps]:
  "value_storable v \<Longrightarrow> read_value (write_value v @ rest) = Inr (v, rest)"
  by (simp add: read_value_def value_storable_def read_value_at_write)

interpretation valuec: codec write_value read_value value_storable
  by unfold_locales (simp add: codec_simps)

subsection \<open>Counted sequences\<close>

text \<open>The shape every collection of the format has: a count, then the elements.\<close>

definition write_counted :: "('a \<Rightarrow> byte list) \<Rightarrow> 'a list \<Rightarrow> byte list" where
  "write_counted enc xs = write_uvarint (of_nat (length xs)) @ concat (map enc xs)"

definition read_counted :: "'a reader \<Rightarrow> 'a list reader" where
  "read_counted dec = rbind read_uvarint (\<lambda>n. rrep (unat n) dec)"

lemma codec_counted:
  assumes "codec enc dec ok"
  shows "codec (write_counted enc) (read_counted dec) (\<lambda>xs. length xs < 2 ^ 64 \<and> list_all ok xs)"
proof (unfold_locales, elim conjE)
  fix xs rest assume len: "length xs < 2 ^ 64" and "list_all ok xs"
  then have "rrep (length xs) dec (concat (map enc xs) @ rest) = Inr (xs, rest)"
    using codec.dec_list [OF assms] by blast
  then show "read_counted dec (write_counted enc xs @ rest) = Inr (xs, rest)"
    using len by (simp add: read_counted_def write_counted_def codec_simps unat_of_nat_u64)
qed

subsection \<open>Skipping agrees with reading\<close>

lemma read_f32_eq:
  "read_f32 r = (if length r < 4 then Inl UnexpectedEof else Inr (from_le (take 4 r), drop 4 r))"
  by (simp add: read_f32_def take_bytes_def)

lemma read_f64_eq:
  "read_f64 r = (if length r < 8 then Inl UnexpectedEof else Inr (from_le (take 8 r), drop 8 r))"
  by (simp add: read_f64_def take_bytes_def)

lemma read_uvarint_loop_shorter:
  "read_uvarint_loop acc s r = Inr (v, r') \<Longrightarrow> length r' < length r"
  by (induction acc s r rule: read_uvarint_loop.induct) (auto simp: Let_def split: if_splits)

lemma read_uvarint_shorter: "read_uvarint r = Inr (v, r') \<Longrightarrow> length r' < length r"
  unfolding read_uvarint_def by (rule read_uvarint_loop_shorter)

lemma rrep_f32_length:
  "rrep n read_f32 r = Inr (xs, r') \<Longrightarrow> r' = drop (4 * n) r \<and> 4 * n \<le> length r"
proof (induction n arbitrary: r xs)
  case (Suc n)
  then obtain xs' where "rrep n read_f32 (drop 4 r) = Inr (xs', r')" and "4 \<le> length r"
    by (auto simp: read_f32_eq [of r] split: sum.splits prod.splits if_splits)
  with Suc.IH [OF this(1)] show ?case by (auto simp: add.commute)
qed simp

lemma read_value_at_InrD: "read_value_at depth r = Inr x \<Longrightarrow> depth \<le> MAX_VALUE_DEPTH \<and> r \<noteq> []"
  by (subst (asm) read_value_at.simps) (auto split: if_splits)

lemma skip_value_at_read:
  "read_value_at depth r = Inr (v, r') \<Longrightarrow> length r < 2 ^ 64 \<Longrightarrow>
     skip_value_at depth r = Inr ((), r') \<and> length r' \<le> length r"
  "read_items n depth r = Inr (vs, r') \<Longrightarrow> length r < 2 ^ 64 \<Longrightarrow>
     skip_items n depth r = Inr ((), r') \<and> length r' \<le> length r"
proof (induction depth r and n depth r arbitrary: v r' and vs r' rule: read_value_at_read_items.induct)
  case (1 depth r)
  then obtain tag t where r: "r = tag # t" and d: "depth \<le> MAX_VALUE_DEPTH"
    by (cases r) (auto dest: read_value_at_InrD)
  have len: "length t < 2 ^ 64" using "1.prems"(2) r by simp
  note eqs = read_value_at.simps [of depth] skip_value_at.simps [of depth] tag_defs
  consider (list) "tag = TAG_LIST" | (vector) "tag = TAG_VECTOR" | (null) "tag = TAG_NULL"
    | (bool) "tag = TAG_BOOL" | (int) "tag = TAG_INT" | (float) "tag = TAG_FLOAT" | (str) "tag = TAG_STR"
    | (other) "tag \<notin> {TAG_LIST, TAG_VECTOR, TAG_NULL, TAG_BOOL, TAG_INT, TAG_FLOAT, TAG_STR}" by blast
  then show ?case
  proof cases
    case list
    with "1.prems"(1) r d obtain n t' vs where n: "read_uvarint t = Inr (n, t')"
      and items: "read_items (unat n) (depth + 1) t' = Inr (vs, r')"
      by (auto simp: eqs split: sum.splits prod.splits)
    have "skip_items (unat n) (depth + 1) t' = Inr ((), r') \<and> length r' \<le> length t'"
      using "1.IH" [OF _ r _ _ _ _ _ _ n refl] list d items n len read_uvarint_shorter [OF n]
      by (auto simp: tag_defs)
    then show ?thesis
      using list r d n read_uvarint_shorter [OF n] by (simp add: eqs)
  next
    case vector
    with "1.prems"(1) r d obtain n t' xs where n: "read_uvarint t = Inr (n, t')"
      and xs: "rrep (unat n) read_f32 t' = Inr (xs, r')"
      by (auto simp: eqs split: sum.splits prod.splits)
    then show ?thesis
      using vector r d len read_uvarint_shorter [OF n] rrep_f32_length [OF xs]
      by (auto simp: eqs skip_bytes_def take_bytes_def mult.commute)
  next
    case null
    then show ?thesis using "1.prems" r d by (simp add: eqs)
  next
    case bool
    then show ?thesis using "1.prems" r d by (auto simp: eqs split: list.splits)
  next
    case int
    then show ?thesis using "1.prems" r d read_uvarint_shorter [of t]
      by (fastforce simp: eqs split: sum.splits prod.splits)
  next
    case float
    then show ?thesis using "1.prems" r d
      by (auto simp: eqs read_f64_eq skip_bytes_def take_bytes_def split: if_splits)
  next
    case str
    with "1.prems"(1) r d obtain n t' where n: "read_uvarint t = Inr (n, t')"
      and "take_bytes StringTruncated (unat n) t' = Inr (take (unat n) t', r')"
      by (auto simp: eqs take_bytes_def split: sum.splits prod.splits if_splits)
    then show ?thesis
      using str r d read_uvarint_shorter [OF n]
      by (auto simp: eqs skip_bytes_def take_bytes_def split: if_splits)
  next
    case other
    then show ?thesis using "1.prems" r d by (simp add: eqs)
  qed
next
  case (3 n depth r)
  from "3.prems" obtain v t vs' where "read_value_at depth r = Inr (v, t)"
    and "read_items n depth t = Inr (vs', r')"
    by (auto split: sum.splits prod.splits)
  with "3.IH"(1) [OF this(1)] "3.IH"(2) [OF this(1) refl] "3.prems"(2) show ?case by auto
qed auto

section \<open>Properties of the wire format\<close>

text \<open>Every 64-bit integer survives the varint encoding, whatever bytes follow it, and the encoding
  has exactly the length the size function announces.\<close>

theorem uvarint_round_trip:
  "read_uvarint (write_uvarint v @ rest) = Inr (v, rest) \<and> length (write_uvarint v) = uvarint_len v"
  by (simp add: codec_simps length_write_uvarint)

text \<open>Every signed integer survives zig-zag and varint encoding together.\<close>

theorem signed_varint_round_trip:
  "\<exists>u. read_uvarint (write_uvarint (zigzag i) @ rest) = Inr (u, rest) \<and> unzigzag u = i"
  by (simp add: codec_simps unzigzag_zigzag)

text \<open>C40: Every well-formed value of any nesting survives encoding and decoding if its nesting is within
  the decoder's limit, and is refused with the depth error exactly when it is deeper.\<close>

theorem value_round_trip_or_too_deep:
  assumes "value_ok v"
  shows "read_value (write_value v @ rest) =
    (if vdepth v \<le> MAX_VALUE_DEPTH then Inr (v, rest) else Inl (DepthExceeded MAX_VALUE_DEPTH))"
  using assms by (simp add: read_value_def read_value_at_write)

theorem value_round_trip_or_too_deep_witness:
  "read_value (write_value (VList [VInt 3, VStr [104, 105], VNull]) @ [9]) =
     Inr (VList [VInt 3, VStr [104, 105], VNull], [9])"
  using value_round_trip_or_too_deep [of "VList [VInt 3, VStr [104, 105], VNull]" "[9]"]
  by (simp add: MAX_VALUE_DEPTH_def)

text \<open>Skipping a value consumes exactly the bytes reading it would, on every input that decodes.\<close>

theorem skip_value_agrees_with_read:
  assumes "read_value r = Inr (v, r')" "length r < 2 ^ 64"
  shows "skip_value r = Inr ((), r')"
  using assms skip_value_at_read(1) by (simp add: read_value_def skip_value_def)

theorem skip_value_agrees_with_read_witness:
  "skip_value (write_value (VList [VInt 3, VNull]) @ [9]) = Inr ((), [9])"
proof (rule skip_value_agrees_with_read)
  show "read_value (write_value (VList [VInt 3, VNull]) @ [9]) = Inr (VList [VInt 3, VNull], [9])"
    by (rule read_value_write) (simp add: value_storable_def MAX_VALUE_DEPTH_def)
  have "length (write_uvarint v) \<le> 10" for v
    by (auto simp: length_write_uvarint uvarint_len_def Let_def)
  from this [of 2] this [of "zigzag 3"]
  show "length (write_value (VList [VInt 3, VNull]) @ [9]) < 2 ^ 64" by simp
qed

end
