(* ===== verification/Identity.thy ===== *)
theory Identity
  imports Wire
begin

text \<open>
  The delta-local symbol interner (\<^verbatim>\<open>slater-delta/src/interner.rs\<close>) and the business identities the
  delta binds to (\<^verbatim>\<open>slater-delta/src/identity.rs\<close>), with the type-exact canonical byte keys the
  memtable is indexed by.
\<close>

section \<open>The interner\<close>

type_synonym SymbolId = u32

record interner =
  imap :: "(str, SymbolId) fmap"
  inames :: "str list"

definition interner_new :: interner where
  "interner_new = \<lparr>imap = fmempty, inames = []\<rparr>"

definition intern :: "str \<Rightarrow> interner \<Rightarrow> SymbolId \<times> interner" where
  "intern name t =
     (case fmlookup (imap t) name of
        Some sid \<Rightarrow> (sid, t)
      | None \<Rightarrow>
          let sid = of_nat (length (inames t))
          in (sid, t\<lparr>inames := inames t @ [name], imap := fmupd name sid (imap t)\<rparr>))"

definition interner_get :: "interner \<Rightarrow> str \<Rightarrow> SymbolId option" where
  "interner_get t name = fmlookup (imap t) name"

definition interner_name :: "interner \<Rightarrow> SymbolId \<Rightarrow> str option" where
  "interner_name t sid = (if unat sid < length (inames t) then Some (inames t ! unat sid) else None)"

definition from_names :: "str list \<Rightarrow> interner" where
  "from_names ns = \<lparr>imap = fminsert_all (zip ns (map of_nat [0..<length ns])) fmempty, inames = ns\<rparr>"

subsection \<open>Invariant\<close>

text \<open>
  The table and the lookup map are inverse to each other. The table holds at most \<open>2 ^ 32\<close> names:
  beyond that \<open>names.len() as SymbolId\<close> wraps and ids would repeat.
\<close>

definition interner_ok :: "interner \<Rightarrow> bool" where
  "interner_ok t \<longleftrightarrow>
     length (inames t) \<le> 2 ^ 32 \<and>
     (\<forall>n sid. fmlookup (imap t) n = Some sid \<longleftrightarrow> interner_name t sid = Some n)"

lemma interner_new_ok: "interner_ok interner_new"
  by (simp add: interner_ok_def interner_new_def interner_name_def)

lemma interner_ok_name: "interner_ok t \<Longrightarrow> fmlookup (imap t) n = Some sid \<longleftrightarrow> interner_name t sid = Some n"
  by (simp add: interner_ok_def)

lemma interner_name_append:
  "interner_name (t\<lparr>inames := inames t @ [n], imap := m\<rparr>) sid =
     (if unat sid = length (inames t) then Some n else interner_name t sid)"
  by (auto simp: interner_name_def nth_append)

lemma intern_ok:
  assumes "interner_ok t" "length (inames t) < 2 ^ 32"
  shows "interner_ok (snd (intern n t))"
proof (cases "fmlookup (imap t) n")
  case None
  let ?sid = "of_nat (length (inames t)) :: SymbolId"
  have sid: "unat ?sid = length (inames t)" using assms(2) by (rule unat_of_nat_u32)
  have new: "unat i = length (inames t) \<longleftrightarrow> i = ?sid" for i :: SymbolId
    using sid by (metis word_unat_eq_iff)
  have fresh: "interner_name t ?sid = None" using sid by (simp add: interner_name_def)
  have unnamed: "interner_name t i \<noteq> Some n" for i
    using assms(1) None by (auto simp flip: interner_ok_name)
  show ?thesis
    using assms None fresh unnamed
    by (auto simp: intern_def interner_ok_def interner_name_append new Let_def)
next
  case (Some sid)
  then show ?thesis using assms by (simp add: intern_def)
qed

text \<open>Interning names the symbol it returns, and never renames an earlier one.\<close>

lemma intern_name:
  assumes "interner_ok t" "length (inames t) < 2 ^ 32"
  shows "interner_name (snd (intern n t)) (fst (intern n t)) = Some n"
proof (cases "fmlookup (imap t) n")
  case None
  then show ?thesis
    using unat_of_nat_u32 [OF assms(2)]
    by (simp add: intern_def Let_def interner_name_append)
next
  case (Some sid)
  moreover have "interner_name t sid = Some n"
    using Some interner_ok_name [OF assms(1)] by simp
  ultimately show ?thesis by (simp add: intern_def)
qed

lemma intern_keeps_name:
  "interner_name t sid = Some m \<Longrightarrow> interner_name (snd (intern n t)) sid = Some m"
  by (auto simp: intern_def Let_def interner_name_def nth_append split: option.splits if_splits)

lemma intern_get:
  assumes "interner_ok t" "length (inames t) < 2 ^ 32"
  shows "interner_get (snd (intern n t)) n = Some (fst (intern n t))"
  by (auto simp: intern_def interner_get_def Let_def split: option.splits)

lemma intern_idem: "interner_get t n = Some sid \<Longrightarrow> intern n t = (sid, t)"
  by (simp add: intern_def interner_get_def)

lemma intern_growth:
  "length (inames (snd (intern n t))) \<le> Suc (length (inames t))"
  by (auto simp: intern_def Let_def split: option.splits)

text \<open>A persisted name table restores the interner it was taken from.\<close>

lemma inames_distinct: "interner_ok t \<Longrightarrow> distinct (inames t)"
proof (unfold distinct_conv_nth, intro allI impI)
  fix i j assume ok: "interner_ok t" and i: "i < length (inames t)" and j: "j < length (inames t)" and "i \<noteq> j"
  have b: "i < 2 ^ 32" "j < 2 ^ 32" using ok i j by (auto simp: interner_ok_def)
  let ?i = "of_nat i :: SymbolId" and ?j = "of_nat j :: SymbolId"
  have "interner_name t ?i = Some (inames t ! i)" "interner_name t ?j = Some (inames t ! j)"
    using b i j by (simp_all add: interner_name_def unat_of_nat_u32)
  then show "inames t ! i \<noteq> inames t ! j"
    using ok b \<open>i \<noteq> j\<close> by (metis interner_ok_name option.inject unat_of_nat_u32)
qed

lemma from_names_inames:
  assumes "interner_ok t"
  shows "from_names (inames t) = t"
proof -
  let ?ns = "inames t" and ?ids = "map of_nat [0..<length (inames t)] :: SymbolId list"
  have d: "distinct (map fst (zip ?ns ?ids))" using inames_distinct [OF assms] by simp
  have "fmlookup (fmap_of_list (zip ?ns ?ids)) n = fmlookup (imap t) n" for n
  proof -
    have "map_of (zip ?ns ?ids) n = Some sid \<longleftrightarrow> interner_name t sid = Some n" for sid
    proof -
      have "map_of (zip ?ns ?ids) n = Some sid \<longleftrightarrow> (\<exists>i < length ?ns. ?ns ! i = n \<and> of_nat i = sid)"
        using d by (auto simp: map_of_eq_Some_iff set_zip)
      also have "\<dots> \<longleftrightarrow> interner_name t sid = Some n"
      proof -
        have "length ?ns \<le> 2 ^ 32" using assms by (simp add: interner_ok_def)
        then have "i < length ?ns \<Longrightarrow> unat (of_nat i :: SymbolId) = i" for i
          by (intro unat_of_nat_u32) simp
        then show ?thesis by (auto simp: interner_name_def intro: exI [of _ "unat sid"])
      qed
      finally show ?thesis .
    qed
    then have "map_of (zip ?ns ?ids) n = fmlookup (imap t) n"
      using interner_ok_name [OF assms] by (metis not_Some_eq)
    then show ?thesis by (simp add: fmlookup_of_list)
  qed
  then have "fmap_of_list (zip ?ns ?ids) = imap t" by (rule fmap_ext)
  then show ?thesis by (simp add: from_names_def fminsert_all_distinct [OF d])
qed

section \<open>Business identities\<close>

record node_identity =
  nlabel :: SymbolId
  nkey :: SymbolId
  nvalue :: Value

record edge_identity =
  esrc :: node_identity
  ereltype :: SymbolId
  edst :: node_identity
  ekey :: "(SymbolId \<times> Value) option"

definition NodeIdentity_new :: "SymbolId \<Rightarrow> SymbolId \<Rightarrow> Value \<Rightarrow> node_identity" where
  "NodeIdentity_new l k v = \<lparr>nlabel = l, nkey = k, nvalue = v\<rparr>"

definition EdgeIdentity_keyed ::
    "node_identity \<Rightarrow> SymbolId \<Rightarrow> node_identity \<Rightarrow> (SymbolId \<times> Value) option \<Rightarrow> edge_identity" where
  "EdgeIdentity_keyed s r d k = \<lparr>esrc = s, ereltype = r, edst = d, ekey = k\<rparr>"

definition write_symbol :: "SymbolId \<Rightarrow> byte list" where
  "write_symbol s = write_uvarint (ucast s)"

definition read_symbol :: "SymbolId reader" where
  "read_symbol = rbind read_uvarint (\<lambda>v. rret (ucast v))"

definition encode_into :: "node_identity \<Rightarrow> byte list" where
  "encode_into i = write_symbol (nlabel i) @ write_symbol (nkey i) @ write_value (nvalue i)"

definition node_canonical_key :: "node_identity \<Rightarrow> byte list" where
  "node_canonical_key i = encode_into i"

definition edge_canonical_key :: "edge_identity \<Rightarrow> byte list" where
  "edge_canonical_key e =
     encode_into (esrc e) @ write_symbol (ereltype e) @ encode_into (edst e) @
     (case ekey e of None \<Rightarrow> [] | Some (k, v) \<Rightarrow> write_symbol k @ write_value v)"

subsection \<open>Canonical keys identify\<close>

definition node_identity_ok :: "node_identity \<Rightarrow> bool" where
  "node_identity_ok i \<longleftrightarrow> value_storable (nvalue i)"

definition edge_identity_ok :: "edge_identity \<Rightarrow> bool" where
  "edge_identity_ok e \<longleftrightarrow> node_identity_ok (esrc e) \<and> node_identity_ok (edst e) \<and>
     (case ekey e of None \<Rightarrow> True | Some (k, v) \<Rightarrow> value_storable v)"

lemma ucast_ucast_u32: "(ucast (ucast (s :: u32) :: u64) :: u32) = s"
  by (rule bit_word_eqI) (auto simp: bit_simps)

lemma read_symbol_write [codec_simps]: "read_symbol (write_symbol s @ rest) = Inr (s, rest)"
  by (simp add: read_symbol_def write_symbol_def codec_simps ucast_ucast_u32)

interpretation symbolc: codec write_symbol read_symbol "\<lambda>_. True"
  by unfold_locales (simp add: codec_simps)

definition r_node_identity :: "node_identity reader" where
  "r_node_identity = rbind read_symbol (\<lambda>l. rbind read_symbol (\<lambda>k. rbind read_value (\<lambda>v.
     rret \<lparr>nlabel = l, nkey = k, nvalue = v\<rparr>)))"

lemma r_node_identity_encode [codec_simps]:
  "node_identity_ok i \<Longrightarrow> r_node_identity (encode_into i @ rest) = Inr (i, rest)"
  by (simp add: r_node_identity_def encode_into_def node_identity_ok_def codec_simps)

interpretation nodeidc: codec encode_into r_node_identity node_identity_ok
  by unfold_locales (simp add: codec_simps)

lemma node_canonical_key_inj:
  "node_identity_ok i \<Longrightarrow> node_identity_ok j \<Longrightarrow> node_canonical_key i = node_canonical_key j \<Longrightarrow> i = j"
  unfolding node_canonical_key_def by (rule nodeidc.enc_inj)

lemma edge_key_tail_inj:
  fixes k1 k2 :: "(SymbolId \<times> Value) option"
  assumes "case k1 of None \<Rightarrow> True | Some (k, v) \<Rightarrow> value_storable v"
    and "case k2 of None \<Rightarrow> True | Some (k, v) \<Rightarrow> value_storable v"
    and eq: "(case k1 of None \<Rightarrow> [] | Some (k, v) \<Rightarrow> write_symbol k @ write_value v) =
     (case k2 of None \<Rightarrow> [] | Some (k, v) \<Rightarrow> write_symbol k @ write_value v)"
  shows "k1 = k2"
proof -
  have ne: "write_symbol k \<noteq> []" for k by (simp add: write_symbol_def)
  show ?thesis
  proof (cases k1; cases k2)
    fix p q assume k: "k1 = Some p" "k2 = Some q"
    obtain s v s' v' where pq: "p = (s, v)" "q = (s', v')" by (metis surj_pair)
    have "write_symbol s @ write_value v = write_symbol s' @ write_value v'"
      using eq k pq by simp
    from symbolc.prefix_free [OF TrueI TrueI this] have "s = s'" "write_value v = write_value v'" by auto
    moreover have "value_storable v" "value_storable v'" using assms(1,2) k pq by simp_all
    ultimately show ?thesis using k pq valuec.enc_inj by auto
  qed (use eq ne in \<open>auto split: prod.splits\<close>)
qed

lemma edge_canonical_key_inj:
  assumes "edge_identity_ok e" "edge_identity_ok f" "edge_canonical_key e = edge_canonical_key f"
  shows "e = f"
proof -
  let ?t = "\<lambda>e. case ekey e of None \<Rightarrow> [] | Some (k, v) \<Rightarrow> write_symbol k @ write_value v"
  have ok: "node_identity_ok (esrc e)" "node_identity_ok (esrc f)"
    "node_identity_ok (edst e)" "node_identity_ok (edst f)"
    using assms(1,2) by (simp_all add: edge_identity_ok_def)
  have "encode_into (esrc e) @ write_symbol (ereltype e) @ encode_into (edst e) @ ?t e =
    encode_into (esrc f) @ write_symbol (ereltype f) @ encode_into (edst f) @ ?t f"
    using assms(3) by (simp add: edge_canonical_key_def)
  from nodeidc.prefix_free [OF ok(1,2) this] have s: "esrc e = esrc f"
    and "write_symbol (ereltype e) @ encode_into (edst e) @ ?t e =
      write_symbol (ereltype f) @ encode_into (edst f) @ ?t f" by auto
  from symbolc.prefix_free [OF TrueI TrueI this(2)] have r: "ereltype e = ereltype f"
    and "encode_into (edst e) @ ?t e = encode_into (edst f) @ ?t f" by auto
  from nodeidc.prefix_free [OF ok(3,4) this(2)] have d: "edst e = edst f" and "?t e = ?t f" by auto
  then have "ekey e = ekey f"
    using assms(1,2) edge_key_tail_inj [of "ekey e" "ekey f"] by (simp add: edge_identity_ok_def)
  with s r d show ?thesis by simp
qed

section \<open>Properties of identities\<close>

text \<open>C28: The canonical key of an edge determines the edge identity: endpoints, type and optional
  identifying property. No two distinct identities share a key, although the key has no length
  prefixes and the identifying property is simply absent when there is none.\<close>

theorem edge_canonical_key_determines_identity:
  assumes "edge_identity_ok e" "edge_identity_ok f"
  shows "edge_canonical_key e = edge_canonical_key f \<longleftrightarrow> e = f"
  using edge_canonical_key_inj [OF assms] by blast

theorem edge_canonical_key_determines_identity_witness:
  "edge_canonical_key \<lparr>esrc = \<lparr>nlabel = 0, nkey = 1, nvalue = VInt 7\<rparr>, ereltype = 2,
      edst = \<lparr>nlabel = 0, nkey = 1, nvalue = VInt 8\<rparr>, ekey = None\<rparr> \<noteq>
   edge_canonical_key \<lparr>esrc = \<lparr>nlabel = 0, nkey = 1, nvalue = VInt 7\<rparr>, ereltype = 2,
      edst = \<lparr>nlabel = 0, nkey = 1, nvalue = VInt 8\<rparr>, ekey = Some (3, VNull)\<rparr>"
  by (subst edge_canonical_key_determines_identity)
    (simp_all add: edge_identity_ok_def node_identity_ok_def value_storable_def MAX_VALUE_DEPTH_def)

text \<open>The canonical key of a node determines its identity.\<close>

theorem node_canonical_key_determines_identity:
  assumes "node_identity_ok i" "node_identity_ok j"
  shows "node_canonical_key i = node_canonical_key j \<longleftrightarrow> i = j"
  using node_canonical_key_inj [OF assms] by blast

theorem node_canonical_key_determines_identity_witness:
  "node_canonical_key \<lparr>nlabel = 0, nkey = 1, nvalue = VInt 7\<rparr> \<noteq>
   node_canonical_key \<lparr>nlabel = 0, nkey = 1, nvalue = VInt 8\<rparr>"
  by (subst node_canonical_key_determines_identity)
    (simp_all add: node_identity_ok_def value_storable_def MAX_VALUE_DEPTH_def)

text \<open>C29: Interning keeps the table a bijection between names and dense ids, gives a name the id it has
  from then on, never changes an id already given, and a table rebuilt from its persisted names is
  the same table.\<close>

theorem intern_keeps_bijection:
  assumes "interner_ok t" "length (inames t) < 2 ^ 32"
  shows "interner_ok (snd (intern n t)) \<and>
    interner_get (snd (intern n t)) n = Some (fst (intern n t)) \<and>
    interner_name (snd (intern n t)) (fst (intern n t)) = Some n \<and>
    (\<forall>m sid. interner_name t sid = Some m \<longrightarrow> interner_name (snd (intern n t)) sid = Some m) \<and>
    from_names (inames (snd (intern n t))) = snd (intern n t)"
  using intern_ok [OF assms] intern_get [OF assms] intern_name [OF assms] intern_keeps_name
    from_names_inames [OF intern_ok [OF assms]] by blast

theorem intern_keeps_bijection_witness:
  "interner_ok (snd (intern (ascii ''Person'') interner_new)) \<and>
   interner_name (snd (intern (ascii ''Person'') interner_new)) (fst (intern (ascii ''Person'') interner_new)) =
     Some (ascii ''Person'')"
  using intern_keeps_bijection [OF interner_new_ok, of "ascii ''Person''"] by (simp add: interner_new_def)

end
