(* ===== verification/Node_Delta.thy ===== *)
theory Node_Delta
  imports Wire
begin

text \<open>
  The per-node and per-edge deltas of \<^verbatim>\<open>slater-delta/src/memtable.rs\<close> and their newest-wins folds,
  with what a delta means for a reader: a transformation of the core row. Folding a newer delta onto
  an older one is the composition of the transformations as long as no deletion lies in between;
  where one does, the fold is not associative.
\<close>

section \<open>Node deltas\<close>

record node_delta =
  nd_patches :: "(str, Value) fmap"
  nd_removed :: "str fset"
  nd_replaced :: bool
  nd_added :: "str fset"
  nd_dropped :: "str fset"
  nd_tombstoned :: bool

definition nd_default :: node_delta where
  "nd_default = \<lparr>nd_patches = fmempty, nd_removed = {||}, nd_replaced = False, nd_added = {||},
     nd_dropped = {||}, nd_tombstoned = False\<rparr>"

definition is_meaningful :: "node_delta \<Rightarrow> bool" where
  "is_meaningful d \<longleftrightarrow> nd_tombstoned d \<or> nd_replaced d \<or> nd_patches d \<noteq> fmempty \<or>
     nd_removed d \<noteq> {||} \<or> nd_added d \<noteq> {||} \<or> nd_dropped d \<noteq> {||}"

definition nd_tombstone :: node_delta where
  "nd_tombstone = nd_default\<lparr>nd_tombstoned := True\<rparr>"

definition fold_newer :: "node_delta \<Rightarrow> node_delta \<Rightarrow> node_delta" where
  "fold_newer self newer =
     (if nd_tombstoned newer then nd_tombstone
      else let labelled = self\<lparr>nd_tombstoned := False,
                 nd_added := (nd_added self |\<union>| nd_added newer) |-| nd_dropped newer,
                 nd_dropped := (nd_dropped self |-| nd_added newer) |\<union>| nd_dropped newer\<rparr>
        in if nd_replaced newer
           then labelled\<lparr>nd_patches := nd_patches newer, nd_removed := {||}, nd_replaced := True\<rparr>
           else labelled\<lparr>
             nd_patches := fmdrop_fset (nd_removed newer) (nd_patches self) ++\<^sub>f nd_patches newer,
             nd_removed := (if nd_replaced self then nd_removed self
                            else nd_removed self |\<union>| nd_removed newer) |-| fmdom (nd_patches newer)\<rparr>)"

text \<open>The mutators of one entry's delta, as the write operations apply them.\<close>

definition nd_resurrect :: "node_delta \<Rightarrow> node_delta" where
  "nd_resurrect d = d\<lparr>nd_tombstoned := False\<rparr>"

fun nd_set_all :: "(str \<times> Value) list \<Rightarrow> node_delta \<Rightarrow> node_delta" where
  "nd_set_all [] d = d"
| "nd_set_all ((name, val) # ps) d =
     nd_set_all ps (d\<lparr>nd_removed := nd_removed d |-| {|name|}, nd_patches := fmupd name val (nd_patches d)\<rparr>)"

fun nd_remove_all :: "str list \<Rightarrow> node_delta \<Rightarrow> node_delta" where
  "nd_remove_all [] d = d"
| "nd_remove_all (name # ns) d =
     nd_remove_all ns (d\<lparr>nd_patches := fmdrop name (nd_patches d),
       nd_removed := (if nd_replaced d then nd_removed d else finsert name (nd_removed d))\<rparr>)"

fun nd_insert_all :: "(str \<times> Value) list \<Rightarrow> node_delta \<Rightarrow> node_delta" where
  "nd_insert_all [] d = d"
| "nd_insert_all ((name, val) # ps) d = nd_insert_all ps (d\<lparr>nd_patches := fmupd name val (nd_patches d)\<rparr>)"

definition nd_replace_all :: "(str \<times> Value) list \<Rightarrow> node_delta \<Rightarrow> node_delta" where
  "nd_replace_all ps d = nd_insert_all ps (d\<lparr>nd_replaced := True, nd_removed := {||}, nd_patches := fmempty\<rparr>)"

fun nd_add_labels :: "str list \<Rightarrow> node_delta \<Rightarrow> node_delta" where
  "nd_add_labels [] d = d"
| "nd_add_labels (l # ls) d =
     nd_add_labels ls (d\<lparr>nd_dropped := nd_dropped d |-| {|l|}, nd_added := finsert l (nd_added d)\<rparr>)"

fun nd_drop_labels :: "str list \<Rightarrow> node_delta \<Rightarrow> node_delta" where
  "nd_drop_labels [] d = d"
| "nd_drop_labels (l # ls) d =
     nd_drop_labels ls (d\<lparr>nd_added := nd_added d |-| {|l|}, nd_dropped := finsert l (nd_dropped d)\<rparr>)"

section \<open>Edge deltas\<close>

record edge_delta =
  ed_patches :: "(str, Value) fmap"
  ed_replaced :: bool
  ed_tombstoned :: bool

definition ed_default :: edge_delta where
  "ed_default = \<lparr>ed_patches = fmempty, ed_replaced = False, ed_tombstoned = False\<rparr>"

definition ed_tombstone :: edge_delta where
  "ed_tombstone = \<lparr>ed_patches = fmempty, ed_replaced = False, ed_tombstoned = True\<rparr>"

definition fold_delta_edge :: "edge_delta \<Rightarrow> edge_delta \<Rightarrow> edge_delta" where
  "fold_delta_edge acc src =
     (if ed_tombstoned src then ed_tombstone
      else \<lparr>ed_patches = (if ed_replaced src then fmempty else ed_patches acc) ++\<^sub>f ed_patches src,
            ed_replaced = (ed_replaced src \<or> ed_replaced acc), ed_tombstoned = False\<rparr>)"

fun ed_insert_all :: "(str \<times> Value) list \<Rightarrow> edge_delta \<Rightarrow> edge_delta" where
  "ed_insert_all [] d = d"
| "ed_insert_all ((name, val) # ps) d = ed_insert_all ps (d\<lparr>ed_patches := fmupd name val (ed_patches d)\<rparr>)"

definition apply_edge_patches ::
    "(str \<times> Value) option \<Rightarrow> bool \<Rightarrow> (str \<times> Value) list \<Rightarrow> edge_delta \<Rightarrow> edge_delta" where
  "apply_edge_patches edge_key replace patches d =
     (let d1 = (if replace then d\<lparr>ed_patches := fmempty, ed_replaced := True\<rparr> else d);
          d2 = ed_insert_all patches d1
      in case edge_key of None \<Rightarrow> d2 | Some (name, v) \<Rightarrow> d2\<lparr>ed_patches := fmupd name v (ed_patches d2)\<rparr>)"

section \<open>What a delta means\<close>

text \<open>A row: the properties and the labels a reader sees. A delta transforms the row below it, or
  suppresses it.\<close>

type_synonym row = "(str, Value) fmap \<times> str fset"

definition node_view :: "row \<Rightarrow> node_delta \<Rightarrow> row option" where
  "node_view core d =
     (if nd_tombstoned d then None
      else Some ((if nd_replaced d then fmempty else fmdrop_fset (nd_removed d) (fst core)) ++\<^sub>f nd_patches d,
                 (snd core |-| nd_dropped d) |\<union>| nd_added d))"

definition edge_view :: "(str, Value) fmap \<Rightarrow> edge_delta \<Rightarrow> (str, Value) fmap option" where
  "edge_view core d =
     (if ed_tombstoned d then None
      else Some ((if ed_replaced d then fmempty else core) ++\<^sub>f ed_patches d))"

text \<open>The invariant the source states: a property is patched or removed, a label added or dropped,
  never both; and a tombstone carries nothing else.\<close>

definition delta_ok :: "node_delta \<Rightarrow> bool" where
  "delta_ok d \<longleftrightarrow> (\<forall>k. k |\<in>| fmdom (nd_patches d) \<longrightarrow> k |\<notin>| nd_removed d) \<and>
     (\<forall>l. l |\<in>| nd_added d \<longrightarrow> l |\<notin>| nd_dropped d) \<and>
     (nd_replaced d \<longrightarrow> nd_removed d = {||}) \<and> (nd_tombstoned d \<longrightarrow> d = nd_tombstone)"

definition live_ok :: "node_delta \<Rightarrow> bool" where
  "live_ok d \<longleftrightarrow> delta_ok d \<and> \<not> nd_tombstoned d"

lemma delta_ok_default [simp]: "delta_ok nd_default" "delta_ok nd_tombstone"
  by (simp_all add: delta_ok_def nd_default_def nd_tombstone_def)

lemma nd_tombstone_simps [simp]:
  "nd_tombstoned nd_tombstone" "nd_patches nd_tombstone = fmempty" "nd_removed nd_tombstone = {||}"
  "\<not> nd_replaced nd_tombstone" "nd_added nd_tombstone = {||}" "nd_dropped nd_tombstone = {||}"
  by (simp_all add: nd_tombstone_def nd_default_def)

lemma nd_default_simps [simp]:
  "\<not> nd_tombstoned nd_default" "nd_patches nd_default = fmempty" "nd_removed nd_default = {||}"
  "\<not> nd_replaced nd_default" "nd_added nd_default = {||}" "nd_dropped nd_default = {||}"
  by (simp_all add: nd_default_def)

lemma live_resurrect: "delta_ok d \<Longrightarrow> live_ok (nd_resurrect d)"
  by (auto simp: live_ok_def delta_ok_def nd_resurrect_def)

lemma live_steps:
  "live_ok d \<Longrightarrow> live_ok (d\<lparr>nd_removed := nd_removed d |-| {|name|}, nd_patches := fmupd name val (nd_patches d)\<rparr>)"
  "live_ok d \<Longrightarrow> live_ok (d\<lparr>nd_patches := fmdrop name (nd_patches d),
     nd_removed := (if nd_replaced d then nd_removed d else finsert name (nd_removed d))\<rparr>)"
  "live_ok d \<Longrightarrow> live_ok (d\<lparr>nd_replaced := True, nd_removed := {||}, nd_patches := fmempty\<rparr>)"
  "live_ok d \<Longrightarrow> nd_replaced d \<Longrightarrow> live_ok (d\<lparr>nd_patches := fmupd name val (nd_patches d)\<rparr>)"
  "live_ok d \<Longrightarrow> live_ok (d\<lparr>nd_dropped := nd_dropped d |-| {|l|}, nd_added := finsert l (nd_added d)\<rparr>)"
  "live_ok d \<Longrightarrow> live_ok (d\<lparr>nd_added := nd_added d |-| {|l|}, nd_dropped := finsert l (nd_dropped d)\<rparr>)"
  by (auto simp: live_ok_def delta_ok_def)

lemma live_set_all: "live_ok d \<Longrightarrow> live_ok (nd_set_all ps d)"
  by (induction ps d rule: nd_set_all.induct) (simp_all only: nd_set_all.simps live_steps)

lemma live_remove_all: "live_ok d \<Longrightarrow> live_ok (nd_remove_all ns d)"
  by (induction ns d rule: nd_remove_all.induct) (simp_all only: nd_remove_all.simps live_steps)

lemma nd_insert_all_fields:
  "nd_removed (nd_insert_all ps d) = nd_removed d" "nd_replaced (nd_insert_all ps d) = nd_replaced d"
  "nd_added (nd_insert_all ps d) = nd_added d" "nd_dropped (nd_insert_all ps d) = nd_dropped d"
  "nd_tombstoned (nd_insert_all ps d) = nd_tombstoned d"
  by (induction ps d rule: nd_insert_all.induct) simp_all

lemma live_replace_all: "live_ok d \<Longrightarrow> live_ok (nd_replace_all ps d)"
proof -
  have "live_ok (nd_insert_all ps d)" if "live_ok d" "nd_replaced d" for d
    using that by (induction ps d rule: nd_insert_all.induct) (simp_all add: live_steps)
  then show "live_ok d \<Longrightarrow> live_ok (nd_replace_all ps d)"
    unfolding nd_replace_all_def using live_steps(3) by simp
qed

lemma live_add_labels: "live_ok d \<Longrightarrow> live_ok (nd_add_labels ls d)"
  by (induction ls d rule: nd_add_labels.induct) (simp_all only: nd_add_labels.simps live_steps)

lemma live_drop_labels: "live_ok d \<Longrightarrow> live_ok (nd_drop_labels ls d)"
  by (induction ls d rule: nd_drop_labels.induct) (simp_all only: nd_drop_labels.simps live_steps)

lemmas live_intros = live_resurrect live_set_all live_remove_all live_replace_all live_add_labels live_drop_labels

lemma live_delta_ok: "live_ok d \<Longrightarrow> delta_ok d"
  by (simp add: live_ok_def)

lemma delta_ok_fold: "delta_ok a \<Longrightarrow> delta_ok b \<Longrightarrow> delta_ok (fold_newer a b)"
  by (auto simp: delta_ok_def fold_newer_def Let_def)

section \<open>Meaning of the mutators and of the fold\<close>

lemma nd_insert_all_patches: "nd_patches (nd_insert_all ps d) = fminsert_all ps (nd_patches d)"
  by (induction ps d rule: nd_insert_all.induct) simp_all

lemma ed_insert_all_fields:
  "ed_patches (ed_insert_all ps d) = fminsert_all ps (ed_patches d)"
  "ed_replaced (ed_insert_all ps d) = ed_replaced d" "ed_tombstoned (ed_insert_all ps d) = ed_tombstoned d"
  by (induction ps d rule: ed_insert_all.induct) simp_all

lemma fminsert_all_fmadd: "fminsert_all ps (m ++\<^sub>f n) = m ++\<^sub>f fminsert_all ps n"
  by (induction ps n rule: fminsert_all.induct) simp_all

lemma node_view_set_step:
  "node_view core (d\<lparr>nd_removed := nd_removed d |-| {|name|}, nd_patches := fmupd name val (nd_patches d)\<rparr>) =
   map_option (apfst (fmupd name val)) (node_view core d)"
  by (auto simp: node_view_def intro!: fmap_ext)

lemma node_view_set_all:
  "node_view core (nd_set_all ps d) = map_option (apfst (fminsert_all ps)) (node_view core d)"
proof (induction ps d rule: nd_set_all.induct)
  case (1 d)
  then show ?case by (simp add: option.map_ident apfst_def map_prod_def)
next
  case (2 name val ps d)
  then show ?case by (simp add: node_view_set_step option.map_comp comp_def apfst_compose)
qed

lemma node_view_remove_step:
  "node_view core (d\<lparr>nd_patches := fmdrop name (nd_patches d),
     nd_removed := (if nd_replaced d then nd_removed d else finsert name (nd_removed d))\<rparr>) =
   map_option (apfst (fmdrop name)) (node_view core d)"
  by (auto simp: node_view_def intro!: fmap_ext)

lemma node_view_remove_all:
  "node_view core (nd_remove_all ns d) = map_option (apfst (fmdrop_fset (fset_of_list ns))) (node_view core d)"
proof (induction ns d rule: nd_remove_all.induct)
  case (1 d)
  then show ?case by (simp add: option.map_ident apfst_def map_prod_def)
next
  case (2 name ns d)
  have "fmdrop_fset (fset_of_list ns) \<circ> fmdrop name = fmdrop_fset (fset_of_list (name # ns))"
    by (auto intro!: ext fmap_ext)
  then show ?case using 2 by (simp add: node_view_remove_step option.map_comp apfst_compose comp_def)
qed

lemma node_view_replace_all:
  "node_view core (nd_replace_all ps d) = map_option (apfst (\<lambda>_. fminsert_all ps fmempty)) (node_view core d)"
  by (simp add: node_view_def nd_replace_all_def nd_insert_all_fields nd_insert_all_patches)

lemma node_view_add_labels:
  "node_view core (nd_add_labels ls d) = map_option (apsnd (\<lambda>L. L |\<union>| fset_of_list ls)) (node_view core d)"
  by (induction ls d rule: nd_add_labels.induct) (auto simp: node_view_def)

lemma node_view_drop_labels:
  "node_view core (nd_drop_labels ls d) = map_option (apsnd (\<lambda>L. L |-| fset_of_list ls)) (node_view core d)"
  by (induction ls d rule: nd_drop_labels.induct) (auto simp: node_view_def)

lemmas node_view_mutators = node_view_set_all node_view_remove_all node_view_replace_all
  node_view_add_labels node_view_drop_labels

lemma node_view_fold:
  assumes "\<not> nd_tombstoned o1" "delta_ok n"
  shows "node_view core (fold_newer o1 n) = Option.bind (node_view core o1) (\<lambda>r. node_view r n)"
proof (cases "nd_tombstoned n")
  case True
  then show ?thesis by (simp add: node_view_def fold_newer_def assms)
next
  case False
  let ?f = "fold_newer o1 n"
  have lab: "(snd core |-| nd_dropped ?f) |\<union>| nd_added ?f =
      ((snd core |-| nd_dropped o1) |\<union>| nd_added o1) |-| nd_dropped n |\<union>| nd_added n"
    using assms(2) False by (auto simp: fold_newer_def Let_def delta_ok_def)
  have "(if nd_replaced ?f then fmempty else fmdrop_fset (nd_removed ?f) (fst core)) ++\<^sub>f nd_patches ?f =
      (if nd_replaced n then fmempty else fmdrop_fset (nd_removed n)
        ((if nd_replaced o1 then fmempty else fmdrop_fset (nd_removed o1) (fst core)) ++\<^sub>f nd_patches o1)) ++\<^sub>f nd_patches n"
    using False by (intro fmap_ext) (auto simp: fold_newer_def Let_def)
  moreover have "\<not> nd_tombstoned ?f" using False by (simp add: fold_newer_def Let_def)
  ultimately show ?thesis using lab False assms(1) by (simp add: node_view_def)
qed

lemma fold_newer_assoc:
  assumes "delta_ok a" "delta_ok b" "delta_ok c" "nd_tombstoned b \<Longrightarrow> nd_tombstoned c"
  shows "fold_newer (fold_newer a b) c = fold_newer a (fold_newer b c)"
proof (cases "nd_tombstoned c")
  case True
  then show ?thesis by (simp add: fold_newer_def Let_def)
next
  case False
  then have b: "\<not> nd_tombstoned b" using assms(4) by blast
  let ?l = "fold_newer (fold_newer a b) c" and ?r = "fold_newer a (fold_newer b c)"
  have "nd_patches ?l = nd_patches ?r"
    using False b by (intro fmap_ext) (auto simp: fold_newer_def Let_def)
  moreover have "nd_removed ?l = nd_removed ?r"
    using False b assms(1-3) by (auto simp: fold_newer_def Let_def delta_ok_def)
  moreover have "nd_added ?l = nd_added ?r" "nd_dropped ?l = nd_dropped ?r"
    using False b assms(1-3) by (auto simp: fold_newer_def Let_def delta_ok_def)
  moreover have "nd_replaced ?l = nd_replaced ?r" "nd_tombstoned ?l = nd_tombstoned ?r"
    using False b by (auto simp: fold_newer_def Let_def)
  ultimately show ?thesis by (intro node_delta.equality) simp_all
qed

lemma edge_view_fold:
  "\<not> ed_tombstoned a \<Longrightarrow> edge_view core (fold_delta_edge a b) = Option.bind (edge_view core a) (\<lambda>r. edge_view r b)"
  by (auto simp: edge_view_def fold_delta_edge_def ed_tombstone_def intro!: fmap_ext)

lemma fold_delta_edge_assoc:
  "(ed_tombstoned b \<Longrightarrow> ed_tombstoned c) \<Longrightarrow>
   fold_delta_edge (fold_delta_edge a b) c = fold_delta_edge a (fold_delta_edge b c)"
  by (auto simp: fold_delta_edge_def ed_tombstone_def fmadd_assoc)

lemma edge_view_apply:
  "edge_view core (apply_edge_patches edge_key replace ps d) =
   map_option (\<lambda>m. fminsert_all (ps @ (case edge_key of None \<Rightarrow> [] | Some kv \<Rightarrow> [kv])) (if replace then fmempty else m))
     (edge_view core d)"
proof -
  have app: "fminsert_all (xs @ [kv]) m = fmupd (fst kv) (snd kv) (fminsert_all xs m)" for xs kv and m :: "(str, Value) fmap"
    by (induction xs m rule: fminsert_all.induct) (cases kv; simp)+
  show ?thesis
    by (cases edge_key)
      (auto simp: edge_view_def apply_edge_patches_def Let_def ed_insert_all_fields fminsert_all_fmadd app)
qed

section \<open>Properties of deltas\<close>

text \<open>Each write mutator does to the row a reader sees what the statement says, whatever is
  already in the delta: setting properties updates them, removing drops them from the core row too,
  replacing leaves exactly the given map, labels are added and dropped.\<close>

theorem node_mutators_transform_the_row:
  "node_view core (nd_set_all ps d) = map_option (apfst (fminsert_all ps)) (node_view core d) \<and>
   node_view core (nd_remove_all ns d) = map_option (apfst (fmdrop_fset (fset_of_list ns))) (node_view core d) \<and>
   node_view core (nd_replace_all ps d) = map_option (apfst (\<lambda>_. fminsert_all ps fmempty)) (node_view core d) \<and>
   node_view core (nd_add_labels ls d) = map_option (apsnd (\<lambda>L. L |\<union>| fset_of_list ls)) (node_view core d) \<and>
   node_view core (nd_drop_labels ls d) = map_option (apsnd (\<lambda>L. L |-| fset_of_list ls)) (node_view core d)"
  by (simp add: node_view_mutators)



text \<open>C31: The cross-level fold is associative, so folding a run of levels first and then the levels
  around it gives what folding one by one gives, unless a tombstone in the run is followed by a
  newer write.\<close>

theorem fold_newer_associative:
  assumes "delta_ok a" "delta_ok b" "delta_ok c" "nd_tombstoned b \<Longrightarrow> nd_tombstoned c"
  shows "fold_newer (fold_newer a b) c = fold_newer a (fold_newer b c)"
  by (rule fold_newer_assoc [OF assms])

theorem fold_newer_associative_witness:
  "fold_newer (fold_newer (nd_set_all [([97], VInt 1)] nd_default) (nd_remove_all [[97]] nd_default)) nd_tombstone =
   fold_newer (nd_set_all [([97], VInt 1)] nd_default) (fold_newer (nd_remove_all [[97]] nd_default) nd_tombstone)"
  by (rule fold_newer_associative) (simp_all add: delta_ok_def)

text \<open>C33: When a tombstone is followed by a newer write, folding the two first loses the deletion: a
  property patched in a level below them is gone when the levels are folded one by one, and back
  when the upper two are folded together first (as compaction of a partial run does).\<close>

theorem folding_over_a_tombstone_resurrects:
  assumes "\<not> nd_tombstoned newest" "\<not> nd_replaced newest" "k |\<notin>| nd_removed newest"
    and "fmlookup (nd_patches newest) k = None"
  shows "fmlookup (nd_patches (fold_newer (fold_newer older nd_tombstone) newest)) k = None \<and>
         fmlookup (nd_patches (fold_newer older (fold_newer nd_tombstone newest))) k = fmlookup (nd_patches older) k"
  using assms by (auto simp: fold_newer_def Let_def)

theorem folding_over_a_tombstone_resurrects_witness:
  "let older = nd_set_all [([97], VInt 1)] nd_default; newest = nd_set_all [([98], VInt 2)] nd_default
   in fmlookup (nd_patches (fold_newer (fold_newer older nd_tombstone) newest)) [97] = None \<and>
      fmlookup (nd_patches (fold_newer older (fold_newer nd_tombstone newest))) [97] = Some (VInt 1)"
  using folding_over_a_tombstone_resurrects
    [of "nd_set_all [([98], VInt 2)] nd_default" "[97]" "nd_set_all [([97], VInt 1)] nd_default"]
  by simp

end
