(* ===== verification/Value_Order.thy ===== *)
theory Value_Order
  imports Wire
begin

text \<open>
  The order of property values that range indexes use (\<^verbatim>\<open>Value::cmp_key\<close> of
  \<^verbatim>\<open>graph-format/src/ids.rs\<close>), on the IEEE bit patterns of floats, and the range test of the
  memtable. On values without integers, and on values without floats, the comparison is that of an
  order-preserving encoding, so it is total and transitive; across integers and floats it is not
  transitive.
\<close>

unbundle bit_operations_syntax

datatype ordering = OLess | OEqual | OGreater

definition cmp :: "'a::linorder \<Rightarrow> 'a \<Rightarrow> ordering" where
  "cmp a b = (if a < b then OLess else if a = b then OEqual else OGreater)"

fun flip :: "ordering \<Rightarrow> ordering" where
  "flip OLess = OGreater"
| "flip OEqual = OEqual"
| "flip OGreater = OLess"

section \<open>Floats as bit patterns\<close>

text \<open>\<^verbatim>\<open>f64::total_cmp\<close> and \<^verbatim>\<open>f32::total_cmp\<close> compare as signed integers after the low bits of a negative
  pattern have been flipped.\<close>

definition f64_key :: "f64 \<Rightarrow> int" where
  "f64_key b = sint (if bit b 63 then b XOR 0x7FFFFFFFFFFFFFFF else b)"

definition f32_key :: "f32 \<Rightarrow> int" where
  "f32_key b = sint (if bit b 31 then b XOR 0x7FFFFFFF else b)"

text \<open>\<^verbatim>\<open>i64 as f64\<close>: the nearest double, ties to even. The bits of a magnitude with leading bit \<open>e\<close>
  are the biased exponent, one less because the significand keeps its leading bit.\<close>

fun top_bit :: "nat \<Rightarrow> nat" where
  "top_bit n = (if n < 2 then 0 else Suc (top_bit (n div 2)))"

declare top_bit.simps [simp del]

definition round_even :: "nat \<Rightarrow> nat \<Rightarrow> nat" where
  "round_even n shift =
     (let q = n div 2 ^ shift; r = n mod 2 ^ shift; half = 2 ^ (shift - 1)
      in if shift = 0 then n else if r > half \<or> (r = half \<and> odd q) then Suc q else q)"

definition f64_of_nat :: "nat \<Rightarrow> nat" where
  "f64_of_nat n = (if n = 0 then 0
     else let e = top_bit n;
              sig = (if e \<le> 52 then n * 2 ^ (52 - e) else round_even n (e - 52))
       in (e + 1022) * 2 ^ 52 + sig)"

definition i64_as_f64 :: "i64 \<Rightarrow> f64" where
  "i64_as_f64 i = (let n = nat \<bar>sint i\<bar> in
     if sint i < 0 then of_nat (f64_of_nat n + 2 ^ 63) else of_nat (f64_of_nat n))"

section \<open>Comparison\<close>

fun rank :: "Value \<Rightarrow> nat" where
  "rank VNull = 0"
| "rank (VBool _) = 1"
| "rank (VInt _) = 2"
| "rank (VFloat _) = 2"
| "rank (VStr _) = 3"
| "rank (VList _) = 4"
| "rank (VVector _) = 5"

fun cmp_floats :: "f32 list \<Rightarrow> f32 list \<Rightarrow> ordering" where
  "cmp_floats (x # xs) (y # ys) =
     (case cmp (f32_key x) (f32_key y) of OEqual \<Rightarrow> cmp_floats xs ys | c \<Rightarrow> c)"
| "cmp_floats xs ys = cmp (length xs) (length ys)"

fun cmp_key :: "Value \<Rightarrow> Value \<Rightarrow> ordering" and cmp_items :: "Value list \<Rightarrow> Value list \<Rightarrow> ordering" where
  "cmp_key VNull VNull = OEqual"
| "cmp_key (VBool a) (VBool b) = cmp a b"
| "cmp_key (VInt a) (VInt b) = cmp (sint a) (sint b)"
| "cmp_key (VFloat a) (VFloat b) = cmp (f64_key a) (f64_key b)"
| "cmp_key (VInt a) (VFloat b) = cmp (f64_key (i64_as_f64 a)) (f64_key b)"
| "cmp_key (VFloat a) (VInt b) = cmp (f64_key a) (f64_key (i64_as_f64 b))"
| "cmp_key (VStr a) (VStr b) = cmp a b"
| "cmp_key (VList a) (VList b) = cmp_items a b"
| "cmp_key (VVector a) (VVector b) = cmp_floats a b"
| "cmp_key a b = cmp (rank a) (rank b)"
| "cmp_items (x # xs) (y # ys) = (case cmp_key x y of OEqual \<Rightarrow> cmp_items xs ys | c \<Rightarrow> c)"
| "cmp_items xs ys = cmp (length xs) (length ys)"

definition value_in_range :: "Value \<Rightarrow> Value option \<Rightarrow> bool \<Rightarrow> Value option \<Rightarrow> bool \<Rightarrow> bool" where
  "value_in_range v lo lo_inclusive hi hi_inclusive =
     ((case lo of None \<Rightarrow> True
       | Some l \<Rightarrow> (case cmp_key v l of OGreater \<Rightarrow> True | OEqual \<Rightarrow> lo_inclusive | OLess \<Rightarrow> False)) \<and>
      (case hi of None \<Rightarrow> True
       | Some h \<Rightarrow> (case cmp_key v h of OLess \<Rightarrow> True | OEqual \<Rightarrow> hi_inclusive | OGreater \<Rightarrow> False)))"

definition type_name :: "Value \<Rightarrow> string" where
  "type_name v = (case v of VNull \<Rightarrow> ''null'' | VBool _ \<Rightarrow> ''bool'' | VInt _ \<Rightarrow> ''int''
     | VFloat _ \<Rightarrow> ''float'' | VStr _ \<Rightarrow> ''string'' | VList _ \<Rightarrow> ''list'' | VVector _ \<Rightarrow> ''vector'')"

section \<open>An order-preserving encoding\<close>

fun order_key :: "Value \<Rightarrow> int list" where
  "order_key VNull = [0]"
| "order_key (VBool b) = [1, if b then 1 else 0]"
| "order_key (VInt i) = [2, sint i]"
| "order_key (VFloat f) = [2, f64_key f]"
| "order_key (VStr s) = 3 # concat (map (\<lambda>b. [1, uint b]) s) @ [0]"
| "order_key (VList items) = 4 # concat (map (\<lambda>v. 1 # order_key v) items) @ [0]"
| "order_key (VVector xs) = 5 # concat (map (\<lambda>x. [1, f32_key x]) xs) @ [0]"

fun int_free :: "Value \<Rightarrow> bool" where
  "int_free (VInt _) \<longleftrightarrow> False"
| "int_free (VList items) \<longleftrightarrow> list_all int_free items"
| "int_free _ \<longleftrightarrow> True"

fun float_free :: "Value \<Rightarrow> bool" where
  "float_free (VFloat _) \<longleftrightarrow> False"
| "float_free (VList items) \<longleftrightarrow> list_all float_free items"
| "float_free _ \<longleftrightarrow> True"

definition unmixed :: "Value \<Rightarrow> Value \<Rightarrow> bool" where
  "unmixed a b \<longleftrightarrow> int_free a \<and> int_free b \<or> float_free a \<and> float_free b"

lemma cmp_self [simp]: "cmp a a = OEqual"
  by (simp add: cmp_def)

lemma cmp_eq_iff: "cmp a b = OEqual \<longleftrightarrow> a = b"
  by (auto simp: cmp_def)

lemma cmp_flip: "flip (cmp a b) = cmp b a"
  by (auto simp: cmp_def)

lemma cmp_Cons: "cmp (x # xs) (y # ys) = (case cmp x y of OEqual \<Rightarrow> cmp xs ys | c \<Rightarrow> c)" for x :: "'a::linorder"
  by (auto simp: cmp_def)

lemma cmp_Nil: "cmp [] (y # ys) = OLess" "cmp (x # xs) [] = OGreater" for x :: "'a::linorder"
  by (auto simp: cmp_def)

lemma cmp_int01: "cmp 0 (1 :: int) = OLess" "cmp 1 (0 :: int) = OGreater" "cmp 0 (Suc n) = OLess" "cmp (Suc n) 0 = OGreater"
  by (simp_all add: cmp_def)

lemma cmp_byte: "cmp (uint a) (uint b) = cmp a (b :: byte)"
  by (simp add: cmp_def word_less_def word_uint_eq_iff)

lemma cmp_bytes_key:
  "cmp (concat (map (\<lambda>b. [1, uint b]) s) @ 0 # r) (concat (map (\<lambda>b. [1, uint b]) t) @ 0 # r') =
   (case cmp s (t :: byte list) of OEqual \<Rightarrow> cmp r r' | c \<Rightarrow> c)"
proof (induction s arbitrary: t)
  case Nil
  then show ?case by (cases t) (simp_all add: cmp_Cons cmp_int01 cmp_Nil)
next
  case (Cons a s)
  then show ?case
    by (cases t) (simp_all add: cmp_Cons cmp_int01 cmp_Nil cmp_byte split: ordering.splits)
qed

lemma cmp_floats_key:
  "cmp (concat (map (\<lambda>x. [1, f32_key x]) xs) @ 0 # r) (concat (map (\<lambda>x. [1, f32_key x]) ys) @ 0 # r') =
   (case cmp_floats xs ys of OEqual \<Rightarrow> cmp r r' | c \<Rightarrow> c)"
proof (induction xs arbitrary: ys)
  case Nil
  then show ?case by (cases ys) (simp_all add: cmp_Cons cmp_int01)
next
  case (Cons a xs)
  then show ?case
    by (cases ys) (simp_all add: cmp_Cons cmp_int01 split: ordering.splits)
qed

lemma cmp_less: "a < b \<Longrightarrow> cmp a b = OLess"
  by (simp add: cmp_def)

lemma cmp_greater: "b < a \<Longrightarrow> cmp a b = OGreater"
  by (auto simp: cmp_def)

lemma cmp_bool: "cmp (if a then 1 else 0) (if b then 1 else (0 :: int)) = cmp a b"
  by (cases a; cases b) (simp_all add: cmp_def)

lemma unmixed_Cons:
  "list_all int_free (x # xs) \<and> list_all int_free (y # ys) \<or> list_all float_free (x # xs) \<and> list_all float_free (y # ys)
   \<Longrightarrow> unmixed x y \<and> (list_all int_free xs \<and> list_all int_free ys \<or> list_all float_free xs \<and> list_all float_free ys)"
  by (auto simp: unmixed_def)

lemma cmp_items_Nil:
  "cmp (0 # r) (concat (map (\<lambda>v. 1 # order_key v) ys) @ 0 # r') = (case cmp 0 (length ys) of OEqual \<Rightarrow> cmp r r' | c \<Rightarrow> c)"
  "cmp (concat (map (\<lambda>v. 1 # order_key v) ys) @ 0 # r) (0 # r') = (case cmp (length ys) 0 of OEqual \<Rightarrow> cmp r r' | c \<Rightarrow> c)"
  by (cases ys; simp add: cmp_Cons cmp_int01)+

lemma cmp_order_key:
  "unmixed a b \<Longrightarrow> cmp (order_key a @ r) (order_key b @ r') = (case cmp_key a b of OEqual \<Rightarrow> cmp r r' | c \<Rightarrow> c)"
  "list_all int_free xs \<and> list_all int_free ys \<or> list_all float_free xs \<and> list_all float_free ys \<Longrightarrow>
   cmp (concat (map (\<lambda>v. 1 # order_key v) xs) @ 0 # r) (concat (map (\<lambda>v. 1 # order_key v) ys) @ 0 # r') =
   (case cmp_items xs ys of OEqual \<Rightarrow> cmp r r' | c \<Rightarrow> c)"
proof (induction a b and xs ys arbitrary: r r' and r r' rule: cmp_key_cmp_items.induct)
  case (8 a b)
  then show ?case by (simp add: cmp_Cons unmixed_def)
next
  case (11 x xs y ys)
  from unmixed_Cons [OF "11.prems"] show ?case
    using 11 by (simp add: cmp_Cons split: ordering.splits)
qed (simp_all add: cmp_Cons cmp_items_Nil cmp_bool cmp_bytes_key cmp_floats_key unmixed_def cmp_less cmp_greater)

lemma cmp_key_order: "unmixed a b \<Longrightarrow> cmp_key a b = cmp (order_key a) (order_key b)"
  using cmp_order_key(1) [of a b "[]" "[]"] by (simp split: ordering.splits)

lemma cmp_floats_flip: "flip (cmp_floats xs ys) = cmp_floats ys xs"
proof (induction xs ys rule: cmp_floats.induct)
  case (1 x xs y ys)
  then show ?case using cmp_flip [of "f32_key x" "f32_key y", symmetric]
    by (cases "cmp (f32_key x) (f32_key y)") simp_all
qed (simp_all add: cmp_flip)

lemma cmp_key_flip:
  "flip (cmp_key a b) = cmp_key b a"
  "flip (cmp_items xs ys) = cmp_items ys xs"
proof (induction a b and xs ys rule: cmp_key_cmp_items.induct)
  case (11 x xs y ys)
  then show ?case by (cases "cmp_key x y") (auto simp flip: 11)
qed (simp_all add: cmp_flip cmp_floats_flip)

lemma order_le: "cmp a b \<noteq> OGreater \<longleftrightarrow> a \<le> b"
  by (auto simp: cmp_def)

section \<open>Properties of the value order\<close>

text \<open>C32: Swapping the arguments flips the comparison, for all values; and among values that hold no
  integer, or no float, the comparison is transitive, so on them it is the total order the range
  indexes need.\<close>

theorem cmp_key_total_order:
  assumes "int_free a \<and> int_free b \<and> int_free c \<or> float_free a \<and> float_free b \<and> float_free c"
  shows "cmp_key x y = flip (cmp_key y x) \<and>
    (cmp_key a b \<noteq> OGreater \<longrightarrow> cmp_key b c \<noteq> OGreater \<longrightarrow> cmp_key a c \<noteq> OGreater)"
proof -
  have "unmixed a b" "unmixed b c" "unmixed a c" using assms by (auto simp: unmixed_def)
  then show ?thesis by (auto simp: cmp_key_flip cmp_key_order order_le)
qed

theorem cmp_key_total_order_witness:
  "cmp_key (VInt 3) VNull = flip (cmp_key VNull (VInt 3)) \<and>
   cmp_key (VList [VInt 1]) (VList [VInt 2]) \<noteq> OGreater"
  using cmp_key_total_order [of "VList [VInt 1]" "VList [VInt 1, VNull]" "VList [VInt 2]" "VInt 3" VNull]
  by (simp add: cmp_def)

text \<open>Across integers and floats the comparison is not transitive: two different integers can
  both compare equal to the same float, because an integer is rounded to a double before it is
  compared with one.\<close>

theorem cmp_key_not_transitive:
  "cmp_key (VInt 9007199254740993) (VFloat 0x4340000000000000) = OEqual \<and>
   cmp_key (VFloat 0x4340000000000000) (VInt 9007199254740992) = OEqual \<and>
   cmp_key (VInt 9007199254740993) (VInt 9007199254740992) = OGreater"
  by (simp add: i64_as_f64_def f64_of_nat_def round_even_def top_bit.simps Let_def cmp_def)

text \<open>The range test of the delta overlay is membership in the interval of the order: within one
  class of values, a value is in range exactly when its order key lies between those of the bounds,
  the bounds themselves counting when they are inclusive.\<close>

theorem value_in_range_is_interval:
  assumes "unmixed v l" "unmixed v h"
  shows "value_in_range v (Some l) li (Some h) hi \<longleftrightarrow>
    (order_key l < order_key v \<or> li \<and> order_key l = order_key v) \<and>
    (order_key v < order_key h \<or> hi \<and> order_key v = order_key h)"
  using cmp_key_order [OF assms(1)] cmp_key_order [OF assms(2)]
  by (auto simp: value_in_range_def cmp_def)

theorem value_in_range_is_interval_witness:
  "value_in_range (VInt 3) (Some (VInt 1)) True (Some (VInt 3)) True \<longleftrightarrow>
    (order_key (VInt 1) < order_key (VInt 3) \<or> True \<and> order_key (VInt 1) = order_key (VInt 3)) \<and>
    (order_key (VInt 3) < order_key (VInt 3) \<or> True \<and> order_key (VInt 3) = order_key (VInt 3))"
  by (rule value_in_range_is_interval) (simp_all add: unmixed_def)

end
