(* ===== verification/Wal_Record.thy ===== *)
theory Wal_Record
  imports Wire
begin

text \<open>
  The records of the write-ahead log (\<^verbatim>\<open>slater-delta/src/wal.rs\<close>): the primitive write operations,
  their payload encoding with its two edge versions, and the decoder replay runs. The record codec
  is an instance of the \<open>codec\<close> contract.
\<close>

section \<open>Operations\<close>

datatype wal_op =
    UpsertNode str str Value "(str \<times> Value) list"
  | DeleteNode str str Value
  | RemoveNodeProps str str Value "str list"
  | ReplaceNode str str Value "(str \<times> Value) list"
  | SetNodeLabels str str Value "str list" "str list"
  | UpsertEdge str str Value str str str Value "(str \<times> Value) option" bool "(str \<times> Value) list"
  | DeleteEdge str str Value str str str Value "(str \<times> Value) option"

type_synonym node_key = "str \<times> str \<times> Value"

fun wal_node_key :: "wal_op \<Rightarrow> node_key option" where
  "wal_node_key (UpsertNode l k v _) = Some (l, k, v)"
| "wal_node_key (DeleteNode l k v) = Some (l, k, v)"
| "wal_node_key (RemoveNodeProps l k v _) = Some (l, k, v)"
| "wal_node_key (ReplaceNode l k v _) = Some (l, k, v)"
| "wal_node_key (SetNodeLabels l k v _ _) = Some (l, k, v)"
| "wal_node_key (UpsertEdge _ _ _ _ _ _ _ _ _ _) = None"
| "wal_node_key (DeleteEdge _ _ _ _ _ _ _ _) = None"

fun wal_edge_keys :: "wal_op \<Rightarrow> (node_key \<times> str \<times> node_key) option" where
  "wal_edge_keys (UpsertEdge sl sk sv rt dl dk dv _ _ _) = Some ((sl, sk, sv), rt, (dl, dk, dv))"
| "wal_edge_keys (DeleteEdge sl sk sv rt dl dk dv _) = Some ((sl, sk, sv), rt, (dl, dk, dv))"
| "wal_edge_keys _ = None"

fun edge_identity_key :: "wal_op \<Rightarrow> (str \<times> Value) option" where
  "edge_identity_key (UpsertEdge _ _ _ _ _ _ _ ek _ _) = ek"
| "edge_identity_key (DeleteEdge _ _ _ _ _ _ _ ek) = ek"
| "edge_identity_key _ = None"

record wal_record =
  rseq :: u64
  rop :: wal_op

section \<open>Encoding\<close>

definition KIND_RECORD :: byte where "KIND_RECORD = 1"
definition KIND_COMMIT :: byte where "KIND_COMMIT = 2"
definition OP_UPSERT_NODE :: byte where "OP_UPSERT_NODE = 1"
definition OP_DELETE_NODE :: byte where "OP_DELETE_NODE = 2"
definition OP_UPSERT_EDGE :: byte where "OP_UPSERT_EDGE = 3"
definition OP_DELETE_EDGE :: byte where "OP_DELETE_EDGE = 4"
definition OP_REMOVE_NODE_PROPS :: byte where "OP_REMOVE_NODE_PROPS = 5"
definition OP_REPLACE_NODE :: byte where "OP_REPLACE_NODE = 6"
definition OP_SET_NODE_LABELS :: byte where "OP_SET_NODE_LABELS = 7"
definition OP_UPSERT_EDGE_V2 :: byte where "OP_UPSERT_EDGE_V2 = 8"
definition OP_DELETE_EDGE_V2 :: byte where "OP_DELETE_EDGE_V2 = 9"

lemmas op_tag_defs = OP_UPSERT_NODE_def OP_DELETE_NODE_def OP_UPSERT_EDGE_def OP_DELETE_EDGE_def
  OP_REMOVE_NODE_PROPS_def OP_REPLACE_NODE_def OP_SET_NODE_LABELS_def OP_UPSERT_EDGE_V2_def
  OP_DELETE_EDGE_V2_def

definition write_str :: "str \<Rightarrow> byte list" where
  "write_str s = write_uvarint (of_nat (length s)) @ s"

definition write_patch :: "str \<times> Value \<Rightarrow> byte list" where
  "write_patch = (\<lambda>(prop, val). write_str prop @ write_value val)"

definition write_edge_key :: "(str \<times> Value) option \<Rightarrow> byte list" where
  "write_edge_key key =
     (case key of None \<Rightarrow> [0] | Some (name, v) \<Rightarrow> 1 # write_str name @ write_value v)"

definition write_key3 :: "str \<Rightarrow> str \<Rightarrow> Value \<Rightarrow> byte list" where
  "write_key3 l k v = write_str l @ write_str k @ write_value v"

fun encode_op :: "wal_op \<Rightarrow> byte list" where
  "encode_op (UpsertNode l k v patches) =
     OP_UPSERT_NODE # write_key3 l k v @ write_counted write_patch patches"
| "encode_op (DeleteNode l k v) = OP_DELETE_NODE # write_key3 l k v"
| "encode_op (RemoveNodeProps l k v props) =
     OP_REMOVE_NODE_PROPS # write_key3 l k v @ write_counted write_str props"
| "encode_op (ReplaceNode l k v patches) =
     OP_REPLACE_NODE # write_key3 l k v @ write_counted write_patch patches"
| "encode_op (SetNodeLabels l k v added removed) =
     OP_SET_NODE_LABELS # write_key3 l k v @ write_counted write_str added @
       write_counted write_str removed"
| "encode_op (UpsertEdge sl sk sv rt dl dk dv ek replace patches) =
     (let v2 = ek \<noteq> None \<or> replace
      in (if v2 then OP_UPSERT_EDGE_V2 else OP_UPSERT_EDGE) #
         write_key3 sl sk sv @ write_str rt @ write_key3 dl dk dv @
         (if v2 then write_edge_key ek @ [if replace then 1 else 0] else []) @
         write_counted write_patch patches)"
| "encode_op (DeleteEdge sl sk sv rt dl dk dv ek) =
     (let v2 = ek \<noteq> None
      in (if v2 then OP_DELETE_EDGE_V2 else OP_DELETE_EDGE) #
         write_key3 sl sk sv @ write_str rt @ write_key3 dl dk dv @
         (if v2 then write_edge_key ek else []))"

definition encode_payload :: "wal_record \<Rightarrow> byte list" where
  "encode_payload rec = KIND_RECORD # write_uvarint (rseq rec) @ encode_op (rop rec)"

section \<open>Decoding\<close>

definition read_u8 :: "byte reader" where
  "read_u8 r = (case r of [] \<Rightarrow> Inl WalByteTruncated | b # r' \<Rightarrow> Inr (b, r'))"

definition read_str :: "str reader" where
  "read_str = rbind read_uvarint (\<lambda>len. rbind (take_bytes WalStringTruncated (unat len)) (\<lambda>s r.
     if utf8_valid s then Inr (s, r) else Inl NotUtf8))"

definition read_patch :: "(str \<times> Value) reader" where
  "read_patch = rbind read_str (\<lambda>prop. rbind read_value (\<lambda>val. rret (prop, val)))"

definition read_edge_key :: "(str \<times> Value) option reader" where
  "read_edge_key = rbind read_u8 (\<lambda>b. if b = 0 then rret None
     else rbind read_str (\<lambda>name. rbind read_value (\<lambda>v. rret (Some (name, v)))))"

definition read_key3 :: "(str \<Rightarrow> str \<Rightarrow> Value \<Rightarrow> 'a reader) \<Rightarrow> 'a reader" where
  "read_key3 f = rbind read_str (\<lambda>l. rbind read_str (\<lambda>k. rbind read_value (\<lambda>v. f l k v)))"

definition decode_op :: "wal_op reader" where
  "decode_op = rbind read_u8 (\<lambda>op_tag.
     if op_tag = OP_UPSERT_NODE then
       read_key3 (\<lambda>l k v. rbind (read_counted read_patch) (\<lambda>ps. rret (UpsertNode l k v ps)))
     else if op_tag = OP_DELETE_NODE then
       read_key3 (\<lambda>l k v. rret (DeleteNode l k v))
     else if op_tag = OP_REMOVE_NODE_PROPS then
       read_key3 (\<lambda>l k v. rbind (read_counted read_str) (\<lambda>ps. rret (RemoveNodeProps l k v ps)))
     else if op_tag = OP_REPLACE_NODE then
       read_key3 (\<lambda>l k v. rbind (read_counted read_patch) (\<lambda>ps. rret (ReplaceNode l k v ps)))
     else if op_tag = OP_SET_NODE_LABELS then
       read_key3 (\<lambda>l k v. rbind (read_counted read_str) (\<lambda>added.
         rbind (read_counted read_str) (\<lambda>removed. rret (SetNodeLabels l k v added removed))))
     else if op_tag = OP_UPSERT_EDGE \<or> op_tag = OP_UPSERT_EDGE_V2 then
       read_key3 (\<lambda>sl sk sv. rbind read_str (\<lambda>rt. read_key3 (\<lambda>dl dk dv.
         rbind (if op_tag = OP_UPSERT_EDGE_V2
                then rbind read_edge_key (\<lambda>ek. rbind read_u8 (\<lambda>b. rret (ek, b \<noteq> 0)))
                else rret (None, False)) (\<lambda>(ek, replace).
         rbind (read_counted read_patch) (\<lambda>ps.
           rret (UpsertEdge sl sk sv rt dl dk dv ek replace ps))))))
     else if op_tag = OP_DELETE_EDGE \<or> op_tag = OP_DELETE_EDGE_V2 then
       read_key3 (\<lambda>sl sk sv. rbind read_str (\<lambda>rt. read_key3 (\<lambda>dl dk dv.
         rbind (if op_tag = OP_DELETE_EDGE_V2 then read_edge_key else rret None) (\<lambda>ek.
           rret (DeleteEdge sl sk sv rt dl dk dv ek)))))
     else (\<lambda>_. Inl (UnknownWalOp op_tag)))"

definition decode_record_body :: "wal_record reader" where
  "decode_record_body = rbind read_uvarint (\<lambda>seq. rbind decode_op (\<lambda>opn.
     rret \<lparr>rseq = seq, rop = opn\<rparr>))"

section \<open>Round trip\<close>

definition str_ok :: "str \<Rightarrow> bool" where
  "str_ok s \<longleftrightarrow> utf8_valid s \<and> length s < 2 ^ 64"

definition patches_ok :: "(str \<times> Value) list \<Rightarrow> bool" where
  "patches_ok ps \<longleftrightarrow> length ps < 2 ^ 64 \<and> list_all (\<lambda>(p, v). str_ok p \<and> value_storable v) ps"

definition strs_ok :: "str list \<Rightarrow> bool" where
  "strs_ok ss \<longleftrightarrow> length ss < 2 ^ 64 \<and> list_all str_ok ss"

definition key3_ok :: "str \<Rightarrow> str \<Rightarrow> Value \<Rightarrow> bool" where
  "key3_ok l k v \<longleftrightarrow> str_ok l \<and> str_ok k \<and> value_storable v"

fun edge_key_ok :: "(str \<times> Value) option \<Rightarrow> bool" where
  "edge_key_ok None \<longleftrightarrow> True"
| "edge_key_ok (Some (n, v)) \<longleftrightarrow> str_ok n \<and> value_storable v"

fun wal_op_ok :: "wal_op \<Rightarrow> bool" where
  "wal_op_ok (UpsertNode l k v ps) \<longleftrightarrow> key3_ok l k v \<and> patches_ok ps"
| "wal_op_ok (DeleteNode l k v) \<longleftrightarrow> key3_ok l k v"
| "wal_op_ok (RemoveNodeProps l k v ps) \<longleftrightarrow> key3_ok l k v \<and> strs_ok ps"
| "wal_op_ok (ReplaceNode l k v ps) \<longleftrightarrow> key3_ok l k v \<and> patches_ok ps"
| "wal_op_ok (SetNodeLabels l k v a r) \<longleftrightarrow> key3_ok l k v \<and> strs_ok a \<and> strs_ok r"
| "wal_op_ok (UpsertEdge sl sk sv rt dl dk dv ek rep ps) \<longleftrightarrow>
     key3_ok sl sk sv \<and> str_ok rt \<and> key3_ok dl dk dv \<and> edge_key_ok ek \<and> patches_ok ps"
| "wal_op_ok (DeleteEdge sl sk sv rt dl dk dv ek) \<longleftrightarrow>
     key3_ok sl sk sv \<and> str_ok rt \<and> key3_ok dl dk dv \<and> edge_key_ok ek"

lemma read_u8_Cons [codec_simps]: "read_u8 (b # rest) = Inr (b, rest)"
  by (simp add: read_u8_def)

lemma read_str_write [codec_simps]: "str_ok s \<Longrightarrow> read_str (write_str s @ rest) = Inr (s, rest)"
  by (simp add: read_str_def write_str_def str_ok_def codec_simps unat_of_nat_u64)

interpretation strc: codec write_str read_str str_ok
  by unfold_locales (simp add: codec_simps)

interpretation patchc: codec write_patch read_patch "\<lambda>(p, v). str_ok p \<and> value_storable v"
  unfolding write_patch_def read_patch_def by (intro codec_pair strc.codec_axioms valuec.codec_axioms)

lemma read_patches_write [codec_simps]:
  "patches_ok ps \<Longrightarrow> read_counted read_patch (write_counted write_patch ps @ rest) = Inr (ps, rest)"
  using codec.dec_enc [OF codec_counted [OF patchc.codec_axioms]] by (simp add: patches_ok_def)

lemma read_strs_write [codec_simps]:
  "strs_ok ss \<Longrightarrow> read_counted read_str (write_counted write_str ss @ rest) = Inr (ss, rest)"
  using codec.dec_enc [OF codec_counted [OF strc.codec_axioms]] by (simp add: strs_ok_def)

lemma read_edge_key_write [codec_simps]:
  "edge_key_ok ek \<Longrightarrow> read_edge_key (write_edge_key ek @ rest) = Inr (ek, rest)"
  by (cases ek rule: edge_key_ok.cases) (simp_all add: read_edge_key_def write_edge_key_def codec_simps)

lemma read_key3_write [codec_simps]:
  "key3_ok l k v \<Longrightarrow> read_key3 f (write_key3 l k v @ rest) = f l k v rest"
  by (simp add: read_key3_def write_key3_def key3_ok_def codec_simps)

lemma decode_op_encode [codec_simps]:
  "wal_op_ok opn \<Longrightarrow> decode_op (encode_op opn @ rest) = Inr (opn, rest)"
  by (cases opn) (auto simp: decode_op_def op_tag_defs codec_simps Let_def simp del: not_None_eq)

interpretation walopc: codec encode_op decode_op wal_op_ok
  by unfold_locales (simp add: codec_simps)

lemma decode_record_body_encode:
  "wal_op_ok (rop rec) \<Longrightarrow>
   decode_record_body (write_uvarint (rseq rec) @ encode_op (rop rec) @ rest) = Inr (rec, rest)"
  by (simp add: decode_record_body_def codec_simps)

text \<open>C27: Every log record, of every operation and in both versions of the edge operations, survives
  encoding and decoding.\<close>

theorem wal_record_round_trip:
  assumes "wal_op_ok (rop rec)"
  shows "\<exists>body. encode_payload rec = KIND_RECORD # body \<and>
    decode_record_body (body @ rest) = Inr (rec, rest)"
  using decode_record_body_encode [OF assms] by (auto simp: encode_payload_def)

theorem wal_record_round_trip_witness:
  "let rec = \<lparr>rseq = 9, rop = UpsertEdge [80] [105] (VInt 1) [75] [80] [105] (VInt 2) (Some ([107], VNull)) True [([119], VInt 3)]\<rparr>
   in \<exists>body. encode_payload rec = KIND_RECORD # body \<and> decode_record_body (body @ []) = Inr (rec, [])"
  unfolding Let_def
  by (rule wal_record_round_trip)
    (simp add: key3_ok_def str_ok_def value_storable_def MAX_VALUE_DEPTH_def patches_ok_def utf8_valid_ascii_bytes)

text \<open>An edge operation that uses neither an identifying key nor the replace flag is written under
  the first version's tag, so a log without keyed edges has the bytes the first version wrote.\<close>

theorem keyless_edge_ops_use_version_1:
  "encode_op (UpsertEdge sl sk sv rt dl dk dv None False ps) =
     OP_UPSERT_EDGE # write_key3 sl sk sv @ write_str rt @ write_key3 dl dk dv @ write_counted write_patch ps \<and>
   encode_op (DeleteEdge sl sk sv rt dl dk dv None) =
     OP_DELETE_EDGE # write_key3 sl sk sv @ write_str rt @ write_key3 dl dk dv \<and>
   hd (encode_op (UpsertEdge sl sk sv rt dl dk dv ek rep ps)) =
     (if ek = None \<and> \<not> rep then OP_UPSERT_EDGE else OP_UPSERT_EDGE_V2)"
  by simp

end
