(* ===== verification/Memtable.thy ===== *)
theory Memtable
  imports Identity Node_Delta Value_Order Wal_Record
begin

text \<open>
  The in-memory level of the delta (\<^verbatim>\<open>Memtable\<close> of \<^verbatim>\<open>slater-delta/src/memtable.rs\<close>): its stores and read
  indexes, the write operations shared by live writes and log replay, and the read methods. The sizes
  of the two entry types, which the resident-size estimate adds, are parameters. Hash maps and sets
  are finite maps and sets; where the code collects their elements in an unspecified order the model
  lists them in ascending order.
\<close>

section \<open>State\<close>

record node_entry =
  ne_identity :: node_identity
  ne_delta :: node_delta
  ne_synthetic :: "u64 option"

record edge_entry =
  ee_identity :: edge_identity
  ee_src :: u64
  ee_dst :: u64
  ee_synthetic :: "u64 option"
  ee_core :: "u64 option"
  ee_delta :: edge_delta

record delta_edge =
  de_other :: u64
  de_reltype :: str
  de_edge_id :: "u64 option"
  de_key :: "(str \<times> Value) option"
  de_tombstoned :: bool

datatype op_resolution =
    ResNode "u64 option"
  | ResEdge "u64 option" "u64 option" "u64 option"

type_synonym ck = "byte list"

record memtable =
  m_interner :: interner
  m_nodes :: "(ck, node_entry) fmap"
  m_edges :: "(ck, edge_entry) fmap"
  m_out :: "(u64, ck list) fmap"
  m_in :: "(u64, ck list) fmap"
  m_by_dense :: "(u64, ck) fmap"
  m_by_edge :: "(u64, ck) fmap"
  m_base :: u64
  m_edge_base :: u64
  m_born :: "ck list"
  m_born_edges :: "ck list"
  m_tombs :: "u64 fset"
  m_born_labels :: "(SymbolId, u64) fmap"
  m_bytes :: u64

text \<open>\<^verbatim>\<open>std::mem::size_of\<close> of the two entry types.\<close>

record layout =
  size_NodeEntry :: u64
  size_EdgeEntry :: u64

definition with_bases :: "u64 \<Rightarrow> u64 \<Rightarrow> memtable" where
  "with_bases node_base edge_base =
     \<lparr>m_interner = interner_new, m_nodes = fmempty, m_edges = fmempty, m_out = fmempty, m_in = fmempty,
      m_by_dense = fmempty, m_by_edge = fmempty, m_base = node_base, m_edge_base = edge_base,
      m_born = [], m_born_edges = [], m_tombs = {||}, m_born_labels = fmempty, m_bytes = 0\<rparr>"

definition with_synthetic_base :: "u64 \<Rightarrow> memtable" where
  "with_synthetic_base base = with_bases base 0"

definition born_edge_count :: "memtable \<Rightarrow> u64" where
  "born_edge_count m = of_nat (length (m_born_edges m))"

definition born_count :: "memtable \<Rightarrow> u64" where
  "born_count m = of_nat (length (m_born m))"

definition mem_is_empty :: "memtable \<Rightarrow> bool" where
  "mem_is_empty m \<longleftrightarrow> m_nodes m = fmempty \<and> m_edges m = fmempty"

definition node_delta_count :: "memtable \<Rightarrow> nat" where
  "node_delta_count m = fcard (fmdom (m_nodes m))"

definition edge_delta_count :: "memtable \<Rightarrow> nat" where
  "edge_delta_count m = fcard (fmdom (m_edges m))"

text \<open>A list that a map holds under a key, empty when it holds none, with one element appended
  (\<^verbatim>\<open>entry(k).or_default().push(x)\<close>), and a counter so incremented.\<close>

definition push_at :: "'k \<Rightarrow> 'a \<Rightarrow> ('k, 'a list) fmap \<Rightarrow> ('k, 'a list) fmap" where
  "push_at k x m = fmupd k ((case fmlookup m k of None \<Rightarrow> [] | Some xs \<Rightarrow> xs) @ [x]) m"

definition push_new_at :: "'k \<Rightarrow> 'a \<Rightarrow> ('k, 'a list) fmap \<Rightarrow> ('k, 'a list) fmap" where
  "push_new_at k x m = (let xs = (case fmlookup m k of None \<Rightarrow> [] | Some xs \<Rightarrow> xs)
     in fmupd k (if x \<in> set xs then xs else xs @ [x]) m)"

definition count_at :: "'k \<Rightarrow> ('k, u64) fmap \<Rightarrow> ('k, u64) fmap" where
  "count_at k m = fmupd k ((case fmlookup m k of None \<Rightarrow> 0 | Some n \<Rightarrow> n) + 1) m"

fun value_size :: "Value \<Rightarrow> u64" where
  "value_size VNull = 1"
| "value_size (VBool _) = 1"
| "value_size (VInt _) = 8"
| "value_size (VFloat _) = 8"
| "value_size (VStr s) = of_nat (length s)"
| "value_size (VList items) = sum_list (map value_size items) + 8"
| "value_size (VVector xs) = of_nat (length xs) * 4"

definition patches_size :: "(str \<times> Value) list \<Rightarrow> u64" where
  "patches_size ps = sum_list (map (\<lambda>(n, v). of_nat (length n) + value_size v) ps)"

definition names_size :: "str list \<Rightarrow> u64" where
  "names_size ns = sum_list (map (\<lambda>n. of_nat (length n)) ns)"

section \<open>Node operations\<close>

definition intern_node :: "str \<Rightarrow> str \<Rightarrow> Value \<Rightarrow> memtable \<Rightarrow> node_identity \<times> memtable" where
  "intern_node label key v m =
     (let (l, t1) = intern label (m_interner m); (k, t2) = intern key t1
      in (NodeIdentity_new l k v, m\<lparr>m_interner := t2\<rparr>))"

definition upd_delta :: "ck \<Rightarrow> (node_delta \<Rightarrow> node_delta) \<Rightarrow> memtable \<Rightarrow> memtable" where
  "upd_delta c f m = (case fmlookup (m_nodes m) c of None \<Rightarrow> m
     | Some e \<Rightarrow> m\<lparr>m_nodes := fmupd c (e\<lparr>ne_delta := f (ne_delta e)\<rparr>) (m_nodes m)\<rparr>)"

text \<open>Get or create the entry of an identity, cleared of a tombstone, with its dense id registered.\<close>

definition fresh_entry :: "node_identity \<Rightarrow> node_entry" where
  "fresh_entry i = \<lparr>ne_identity = i, ne_delta = nd_default, ne_synthetic = None\<rparr>"

definition touch_entry :: "node_identity \<Rightarrow> ck \<Rightarrow> u64 option \<Rightarrow> memtable \<Rightarrow> memtable" where
  "touch_entry i c resolved m2 =
     (let e = (case fmlookup (m_nodes m2) c of Some e \<Rightarrow> e | None \<Rightarrow> fresh_entry i);
          was_tombstoned = nd_tombstoned (ne_delta e);
          e1 = e\<lparr>ne_delta := nd_resurrect (ne_delta e)\<rparr>;
          m3 = m2\<lparr>m_nodes := fmupd c e1 (m_nodes m2)\<rparr>;
          m4 = (if was_tombstoned
                then (case (case resolved of Some d \<Rightarrow> Some d | None \<Rightarrow> ne_synthetic e) of
                        Some d \<Rightarrow> m3\<lparr>m_tombs := m_tombs m3 |-| {|d|}\<rparr> | None \<Rightarrow> m3)
                else m3)
      in case resolved of
           Some d \<Rightarrow> m4\<lparr>m_by_dense := fmupd d c (m_by_dense m4)\<rparr>
         | None \<Rightarrow>
             if ne_synthetic e = None
             then let d = m_base m4 + of_nat (length (m_born m4))
               in m4\<lparr>m_born := m_born m4 @ [c], m_by_dense := fmupd d c (m_by_dense m4),
                     m_nodes := fmupd c (e1\<lparr>ne_synthetic := Some d\<rparr>) (m_nodes m4),
                     m_born_labels := count_at (nlabel (ne_identity e)) (m_born_labels m4)\<rparr>
             else m4)"

definition touch_node_entry ::
    "layout \<Rightarrow> str \<Rightarrow> str \<Rightarrow> Value \<Rightarrow> u64 option \<Rightarrow> memtable \<Rightarrow> ck \<times> memtable" where
  "touch_node_entry lay label key v resolved m0 =
     (let (i, m1) = intern_node label key v m0;
          c = node_canonical_key i;
          m2 = (if fmlookup (m_nodes m1) c = None
                then m1\<lparr>m_bytes := m_bytes m1 + of_nat (length c) + size_NodeEntry lay\<rparr> else m1)
      in (c, touch_entry i c resolved m2))"

definition upsert_node ::
    "layout \<Rightarrow> str \<Rightarrow> str \<Rightarrow> Value \<Rightarrow> u64 option \<Rightarrow> (str \<times> Value) list \<Rightarrow> memtable \<Rightarrow> memtable" where
  "upsert_node lay label key v resolved patches m =
     (let (c, m1) = touch_node_entry lay label key v resolved m
      in upd_delta c (nd_set_all patches) (m1\<lparr>m_bytes := m_bytes m1 + patches_size patches\<rparr>))"

definition remove_node_props ::
    "layout \<Rightarrow> str \<Rightarrow> str \<Rightarrow> Value \<Rightarrow> u64 option \<Rightarrow> str list \<Rightarrow> memtable \<Rightarrow> memtable" where
  "remove_node_props lay label key v resolved props m =
     (let (c, m1) = touch_node_entry lay label key v resolved m;
          under_replace = (case fmlookup (m_nodes m1) c of None \<Rightarrow> False | Some e \<Rightarrow> nd_replaced (ne_delta e));
          m2 = (if under_replace then m1 else m1\<lparr>m_bytes := m_bytes m1 + names_size props\<rparr>)
      in upd_delta c (nd_remove_all props) m2)"

definition replace_node ::
    "layout \<Rightarrow> str \<Rightarrow> str \<Rightarrow> Value \<Rightarrow> u64 option \<Rightarrow> (str \<times> Value) list \<Rightarrow> memtable \<Rightarrow> memtable" where
  "replace_node lay label key v resolved patches m =
     (let (c, m1) = touch_node_entry lay label key v resolved m
      in upd_delta c (nd_replace_all patches) (m1\<lparr>m_bytes := m_bytes m1 + patches_size patches\<rparr>))"

definition set_node_labels ::
    "layout \<Rightarrow> str \<Rightarrow> str \<Rightarrow> Value \<Rightarrow> u64 option \<Rightarrow> str list \<Rightarrow> str list \<Rightarrow> memtable \<Rightarrow> memtable" where
  "set_node_labels lay label key v resolved added dropped m =
     (let (c, m1) = touch_node_entry lay label key v resolved m
      in upd_delta c (\<lambda>d. nd_drop_labels dropped (nd_add_labels added d))
           (m1\<lparr>m_bytes := m_bytes m1 + names_size added + names_size dropped\<rparr>))"

definition delete_node :: "layout \<Rightarrow> str \<Rightarrow> str \<Rightarrow> Value \<Rightarrow> u64 option \<Rightarrow> memtable \<Rightarrow> memtable" where
  "delete_node lay label key v resolved m0 =
     (let (i, m1) = intern_node label key v m0;
          c = node_canonical_key i;
          old = fmlookup (m_nodes m1) c;
          is_new = (old = None)
      in if is_new \<and> resolved = None then m1
         else let m2 = (if is_new then m1\<lparr>m_bytes := m_bytes m1 + of_nat (length c) + size_NodeEntry lay\<rparr> else m1);
                  e = (case old of Some e \<Rightarrow> e | None \<Rightarrow> fresh_entry i);
                  m3 = m2\<lparr>m_nodes := fmupd c (e\<lparr>ne_delta := nd_tombstone\<rparr>) (m_nodes m2)\<rparr>
           in case resolved of
                Some d \<Rightarrow> m3\<lparr>m_by_dense := fmupd d c (m_by_dense m3), m_tombs := finsert d (m_tombs m3)\<rparr>
              | None \<Rightarrow> (case ne_synthetic e of Some d \<Rightarrow> m3\<lparr>m_tombs := finsert d (m_tombs m3)\<rparr> | None \<Rightarrow> m3))"

section \<open>Derived tallies\<close>

definition is_tombstoned_ck :: "memtable \<Rightarrow> ck \<Rightarrow> bool" where
  "is_tombstoned_ck m c = (case fmlookup (m_nodes m) c of None \<Rightarrow> False | Some e \<Rightarrow> nd_tombstoned (ne_delta e))"

fun count_labels :: "(ck, node_entry) fmap \<Rightarrow> ck list \<Rightarrow> (SymbolId, u64) fmap \<Rightarrow> (SymbolId, u64) fmap" where
  "count_labels nodes [] acc = acc"
| "count_labels nodes (c # cs) acc =
     count_labels nodes cs (case fmlookup nodes c of None \<Rightarrow> acc
       | Some e \<Rightarrow> count_at (nlabel (ne_identity e)) acc)"

definition rebuild_derived :: "memtable \<Rightarrow> memtable" where
  "rebuild_derived m =
     m\<lparr>m_tombs := fmdom (fmfilter (\<lambda>d. case fmlookup (m_by_dense m) d of None \<Rightarrow> False
                     | Some c \<Rightarrow> is_tombstoned_ck m c) (m_by_dense m)),
       m_born_labels := count_labels (m_nodes m) (m_born m) fmempty\<rparr>"

definition tombstoned_ids :: "memtable \<Rightarrow> u64 list" where
  "tombstoned_ids m = sorted_list_of_fset (m_tombs m)"

definition born_count_with_label :: "memtable \<Rightarrow> str \<Rightarrow> u64" where
  "born_count_with_label m label =
     (case interner_get (m_interner m) label of None \<Rightarrow> 0
      | Some sid \<Rightarrow> (case fmlookup (m_born_labels m) sid of None \<Rightarrow> 0 | Some n \<Rightarrow> n))"

definition has_edge_tombstones :: "memtable \<Rightarrow> bool" where
  "has_edge_tombstones m \<longleftrightarrow> fBex (fmran (m_edges m)) (\<lambda>e. ed_tombstoned (ee_delta e))"

definition name_or_empty :: "memtable \<Rightarrow> SymbolId \<Rightarrow> str" where
  "name_or_empty m sid = (case interner_name (m_interner m) sid of None \<Rightarrow> [] | Some n \<Rightarrow> n)"

definition born_labels :: "memtable \<Rightarrow> str list" where
  "born_labels m = List.map_filter (interner_name (m_interner m)) (sorted_list_of_fset (fmdom (m_born_labels m)))"

definition edge_values :: "memtable \<Rightarrow> edge_entry list" where
  "edge_values m = map snd (sorted_list_of_fmap (m_edges m))"

definition born_edge_reltypes :: "memtable \<Rightarrow> str list" where
  "born_edge_reltypes m = remdups_adj (sort (List.map_filter
     (\<lambda>e. if ee_synthetic e \<noteq> None then interner_name (m_interner m) (ereltype (ee_identity e)) else None)
     (edge_values m)))"

definition born_edge_count_with_reltype :: "memtable \<Rightarrow> str \<Rightarrow> u64" where
  "born_edge_count_with_reltype m reltype =
     (case interner_get (m_interner m) reltype of None \<Rightarrow> 0
      | Some sid \<Rightarrow> of_nat (length (filter (\<lambda>e. ee_synthetic e \<noteq> None \<and> ereltype (ee_identity e) = sid)
          (edge_values m))))"

section \<open>Edge operations\<close>

definition endpoint_dense_or_create ::
    "layout \<Rightarrow> str \<Rightarrow> str \<Rightarrow> Value \<Rightarrow> u64 option \<Rightarrow> memtable \<Rightarrow> u64 \<times> memtable" where
  "endpoint_dense_or_create lay label key v resolved m0 =
     (case resolved of Some d \<Rightarrow> (d, m0)
      | None \<Rightarrow>
        (let (i, m1) = intern_node label key v m0; c = node_canonical_key i
         in case Option.bind (fmlookup (m_nodes m1) c) ne_synthetic of
              Some d \<Rightarrow> (d, m1)
            | None \<Rightarrow>
              (let d = m_base m1 + of_nat (length (m_born m1))
               in (d, m1\<lparr>m_bytes := m_bytes m1 + of_nat (length c) + size_NodeEntry lay,
                         m_born := m_born m1 @ [c], m_by_dense := fmupd d c (m_by_dense m1),
                         m_born_labels := count_at (nlabel i) (m_born_labels m1),
                         m_nodes := fmupd c (fresh_entry i\<lparr>ne_synthetic := Some d\<rparr>) (m_nodes m1)\<rparr>))))"

definition intern_edge_identity ::
    "node_key \<Rightarrow> str \<Rightarrow> node_key \<Rightarrow> (str \<times> Value) option \<Rightarrow> memtable \<Rightarrow> edge_identity \<times> memtable" where
  "intern_edge_identity src reltype dst edge_key m0 =
     (case src of (sl, sk, sv) \<Rightarrow> case dst of (dl, dk, dv) \<Rightarrow>
       (let (s, m1) = intern_node sl sk sv m0;
            (r, t) = intern reltype (m_interner m1);
            (d, m2) = intern_node dl dk dv (m1\<lparr>m_interner := t\<rparr>)
        in case edge_key of
             None \<Rightarrow> (EdgeIdentity_keyed s r d None, m2)
           | Some (n, v) \<Rightarrow> (let (k, t') = intern n (m_interner m2)
               in (EdgeIdentity_keyed s r d (Some (k, v)), m2\<lparr>m_interner := t'\<rparr>))))"

definition born_endpoint_dense ::
    "str \<Rightarrow> str \<Rightarrow> Value \<Rightarrow> u64 option \<Rightarrow> memtable \<Rightarrow> u64 option \<times> memtable" where
  "born_endpoint_dense label key v resolved m0 =
     (case resolved of Some d \<Rightarrow> (Some d, m0)
      | None \<Rightarrow> (let (i, m1) = intern_node label key v m0
          in (Option.bind (fmlookup (m_nodes m1) (node_canonical_key i)) ne_synthetic, m1)))"

definition upd_edge :: "ck \<Rightarrow> (edge_entry \<Rightarrow> edge_entry) \<Rightarrow> memtable \<Rightarrow> memtable" where
  "upd_edge c f m = (case fmlookup (m_edges m) c of None \<Rightarrow> m
     | Some e \<Rightarrow> m\<lparr>m_edges := fmupd c (f e) (m_edges m)\<rparr>)"

text \<open>The growth \<^verbatim>\<open>apply_edge_patches\<close> returns.\<close>

definition edge_patches_size :: "(str \<times> Value) option \<Rightarrow> (str \<times> Value) list \<Rightarrow> u64" where
  "edge_patches_size edge_key patches =
     patches_size (patches @ (case edge_key of None \<Rightarrow> [] | Some kv \<Rightarrow> [kv]))"

text \<open>The three edge writes resolve their endpoints, intern the identity, and then work on its entry.\<close>

definition edge_prologue ::
    "layout \<Rightarrow> node_key \<Rightarrow> str \<Rightarrow> node_key \<Rightarrow> u64 option \<Rightarrow> u64 option \<Rightarrow> (str \<times> Value) option
       \<Rightarrow> memtable \<Rightarrow> u64 \<times> u64 \<times> edge_identity \<times> memtable" where
  "edge_prologue lay src reltype dst src_res dst_res edge_key m0 =
     (case src of (sl, sk, sv) \<Rightarrow> case dst of (dl, dk, dv) \<Rightarrow>
       (let (s, m1) = endpoint_dense_or_create lay sl sk sv src_res m0;
            (d, m2) = endpoint_dense_or_create lay dl dk dv dst_res m1;
            (i, m3) = intern_edge_identity src reltype dst edge_key m2
        in (s, d, i, m3)))"

definition upsert_edge_at ::
    "layout \<Rightarrow> u64 \<Rightarrow> u64 \<Rightarrow> edge_identity \<Rightarrow> (str \<times> Value) option \<Rightarrow> bool \<Rightarrow> (str \<times> Value) list
       \<Rightarrow> memtable \<Rightarrow> memtable" where
  "upsert_edge_at lay s d i edge_key replace patches m3 =
     (let c = edge_canonical_key i;
          m4 = (if fmlookup (m_edges m3) c = None
                then m3\<lparr>m_bytes := m_bytes m3 + of_nat (length c) + size_EdgeEntry lay,
                        m_born_edges := m_born_edges m3 @ [c],
                        m_out := push_at s c (m_out m3), m_in := push_at d c (m_in m3),
                        m_edges := fmupd c \<lparr>ee_identity = i, ee_src = s, ee_dst = d,
                          ee_synthetic = Some (m_edge_base m3 + of_nat (length (m_born_edges m3))),
                          ee_core = None, ee_delta = ed_default\<rparr> (m_edges m3)\<rparr>
                else m3)
      in (upd_edge c (\<lambda>e. e\<lparr>ee_delta := apply_edge_patches edge_key replace patches
            (ee_delta e\<lparr>ed_tombstoned := False\<rparr>)\<rparr>) m4)
         \<lparr>m_bytes := m_bytes m4 + edge_patches_size edge_key patches\<rparr>)"

definition upsert_edge_keyed ::
    "layout \<Rightarrow> node_key \<Rightarrow> str \<Rightarrow> node_key \<Rightarrow> u64 option \<Rightarrow> u64 option \<Rightarrow> (str \<times> Value) option \<Rightarrow> bool
       \<Rightarrow> (str \<times> Value) list \<Rightarrow> memtable \<Rightarrow> memtable" where
  "upsert_edge_keyed lay src reltype dst src_res dst_res edge_key replace patches m0 =
     (let (s, d, i, m3) = edge_prologue lay src reltype dst src_res dst_res edge_key m0
      in upsert_edge_at lay s d i edge_key replace patches m3)"

definition upsert_edge where
  "upsert_edge lay src reltype dst src_res dst_res patches =
     upsert_edge_keyed lay src reltype dst src_res dst_res None False patches"

definition delete_edge_at :: "layout \<Rightarrow> u64 \<Rightarrow> u64 \<Rightarrow> edge_identity \<Rightarrow> memtable \<Rightarrow> memtable" where
  "delete_edge_at lay s d i m3 =
     (let c = edge_canonical_key i
      in case fmlookup (m_edges m3) c of
           None \<Rightarrow> m3\<lparr>m_bytes := m_bytes m3 + of_nat (length c) + size_EdgeEntry lay,
                      m_out := push_at s c (m_out m3), m_in := push_at d c (m_in m3),
                      m_edges := fmupd c \<lparr>ee_identity = i, ee_src = s, ee_dst = d,
                        ee_synthetic = None, ee_core = None, ee_delta = ed_tombstone\<rparr> (m_edges m3)\<rparr>
         | Some e \<Rightarrow>
           let m4 = m3\<lparr>m_edges := fmupd c (e\<lparr>ee_delta := ed_tombstone, ee_core := None\<rparr>) (m_edges m3)\<rparr>
           in (case ee_core e of None \<Rightarrow> m4
               | Some cid \<Rightarrow> m4\<lparr>m_by_edge := fmdrop cid (m_by_edge m4),
                   m_out := push_new_at s c (m_out m4), m_in := push_new_at d c (m_in m4)\<rparr>))"

definition delete_edge_keyed ::
    "layout \<Rightarrow> node_key \<Rightarrow> str \<Rightarrow> node_key \<Rightarrow> u64 option \<Rightarrow> u64 option \<Rightarrow> (str \<times> Value) option
       \<Rightarrow> memtable \<Rightarrow> memtable" where
  "delete_edge_keyed lay src reltype dst src_res dst_res edge_key m0 =
     (case src of (sl, sk, sv) \<Rightarrow> case dst of (dl, dk, dv) \<Rightarrow>
       (case born_endpoint_dense sl sk sv src_res m0 of (None, m1) \<Rightarrow> m1 | (Some s, m1) \<Rightarrow>
        (case born_endpoint_dense dl dk dv dst_res m1 of (None, m2) \<Rightarrow> m2 | (Some d, m2) \<Rightarrow>
         (let (i, m3) = intern_edge_identity src reltype dst edge_key m2
          in delete_edge_at lay s d i m3))))"

definition delete_edge where
  "delete_edge lay src reltype dst src_res dst_res =
     delete_edge_keyed lay src reltype dst src_res dst_res None"

definition patch_core_edge_at ::
    "layout \<Rightarrow> u64 \<Rightarrow> u64 \<Rightarrow> edge_identity \<Rightarrow> (str \<times> Value) option \<Rightarrow> u64 \<Rightarrow> bool \<Rightarrow> (str \<times> Value) list
       \<Rightarrow> memtable \<Rightarrow> memtable" where
  "patch_core_edge_at lay s d i edge_key cid replace patches m3 =
     (let c = edge_canonical_key i;
          m4 = (if fmlookup (m_edges m3) c = None
                then m3\<lparr>m_bytes := m_bytes m3 + of_nat (length c) + size_EdgeEntry lay,
                        m_edges := fmupd c \<lparr>ee_identity = i, ee_src = s, ee_dst = d, ee_synthetic = None,
                          ee_core = Some cid, ee_delta = ed_default\<rparr> (m_edges m3)\<rparr>
                else m3);
          m5 = m4\<lparr>m_by_edge := fmupd cid c (m_by_edge m4)\<rparr>
      in (upd_edge c (\<lambda>e. e\<lparr>ee_core := Some cid, ee_delta := apply_edge_patches edge_key replace patches
            (ee_delta e\<lparr>ed_tombstoned := False\<rparr>)\<rparr>) m5)
         \<lparr>m_bytes := m_bytes m5 + edge_patches_size edge_key patches\<rparr>)"

definition patch_core_edge_keyed ::
    "layout \<Rightarrow> node_key \<Rightarrow> str \<Rightarrow> node_key \<Rightarrow> u64 option \<Rightarrow> u64 option \<Rightarrow> (str \<times> Value) option \<Rightarrow> u64 \<Rightarrow> bool
       \<Rightarrow> (str \<times> Value) list \<Rightarrow> memtable \<Rightarrow> memtable" where
  "patch_core_edge_keyed lay src reltype dst src_res dst_res edge_key cid replace patches m0 =
     (let (s, d, i, m3) = edge_prologue lay src reltype dst src_res dst_res edge_key m0
      in patch_core_edge_at lay s d i edge_key cid replace patches m3)"

definition patch_core_edge where
  "patch_core_edge lay src reltype dst src_res dst_res cid patches =
     patch_core_edge_keyed lay src reltype dst src_res dst_res None cid False patches"

text \<open>One operation of the log. A mismatch of operation and resolution does not return in the code;
  here it is \<open>None\<close>.\<close>

fun apply_op :: "layout \<Rightarrow> wal_op \<Rightarrow> op_resolution \<Rightarrow> memtable \<Rightarrow> memtable option" where
  "apply_op lay (UpsertNode l k v ps) (ResNode r) m = Some (upsert_node lay l k v r ps m)"
| "apply_op lay (DeleteNode l k v) (ResNode r) m = Some (delete_node lay l k v r m)"
| "apply_op lay (RemoveNodeProps l k v ps) (ResNode r) m = Some (remove_node_props lay l k v r ps m)"
| "apply_op lay (ReplaceNode l k v ps) (ResNode r) m = Some (replace_node lay l k v r ps m)"
| "apply_op lay (SetNodeLabels l k v a d) (ResNode r) m = Some (set_node_labels lay l k v r a d m)"
| "apply_op lay (UpsertEdge sl sk sv rt dl dk dv ek rep ps) (ResEdge s d eid) m =
     Some (case eid of
       Some cid \<Rightarrow> patch_core_edge_keyed lay (sl, sk, sv) rt (dl, dk, dv) s d ek cid rep ps m
     | None \<Rightarrow> upsert_edge_keyed lay (sl, sk, sv) rt (dl, dk, dv) s d ek rep ps m)"
| "apply_op lay (DeleteEdge sl sk sv rt dl dk dv ek) (ResEdge s d _) m =
     Some (delete_edge_keyed lay (sl, sk, sv) rt (dl, dk, dv) s d ek m)"
| "apply_op lay _ _ m = None"

section \<open>Reads\<close>

definition node_patch :: "memtable \<Rightarrow> u64 \<Rightarrow> node_delta option" where
  "node_patch m dense = Option.bind (fmlookup (m_by_dense m) dense)
     (\<lambda>c. map_option ne_delta (fmlookup (m_nodes m) c))"

definition lookup_node :: "memtable \<Rightarrow> node_identity \<Rightarrow> node_delta option" where
  "lookup_node m i = map_option ne_delta (fmlookup (m_nodes m) (node_canonical_key i))"

definition node_identity_by_dense :: "memtable \<Rightarrow> u64 \<Rightarrow> node_key option" where
  "node_identity_by_dense m dense = Option.bind (fmlookup (m_by_dense m) dense)
     (\<lambda>c. map_option (\<lambda>e. (name_or_empty m (nlabel (ne_identity e)), name_or_empty m (nkey (ne_identity e)),
            nvalue (ne_identity e))) (fmlookup (m_nodes m) c))"

definition born_synthetic_for_identity :: "memtable \<Rightarrow> str \<Rightarrow> str \<Rightarrow> Value \<Rightarrow> u64 option" where
  "born_synthetic_for_identity m label key v =
     Option.bind (interner_get (m_interner m) label) (\<lambda>l. Option.bind (interner_get (m_interner m) key)
       (\<lambda>k. Option.bind (fmlookup (m_nodes m) (node_canonical_key (NodeIdentity_new l k v))) ne_synthetic))"

definition born_ids_with_label :: "memtable \<Rightarrow> str \<Rightarrow> u64 list" where
  "born_ids_with_label m label = List.map_filter (\<lambda>c. case fmlookup (m_nodes m) c of None \<Rightarrow> None
     | Some e \<Rightarrow> if interner_name (m_interner m) (nlabel (ne_identity e)) = Some label
                then ne_synthetic e else None) (m_born m)"

text \<open>The dense ids whose entry satisfies a predicate, as the scans over \<^verbatim>\<open>by_dense\<close> collect them.\<close>

definition dense_ids_where :: "memtable \<Rightarrow> (u64 \<Rightarrow> node_entry \<Rightarrow> bool) \<Rightarrow> u64 list" where
  "dense_ids_where m p = map fst (filter (\<lambda>(d, c). case fmlookup (m_nodes m) c of None \<Rightarrow> False
     | Some e \<Rightarrow> p d e) (sorted_list_of_fmap (m_by_dense m)))"

definition ids_with_added_label :: "memtable \<Rightarrow> str \<Rightarrow> u64 list" where
  "ids_with_added_label m label = dense_ids_where m (\<lambda>_ e. label |\<in>| nd_added (ne_delta e))"

definition ids_with_removed_label :: "memtable \<Rightarrow> str \<Rightarrow> u64 list" where
  "ids_with_removed_label m label = dense_ids_where m (\<lambda>_ e. label |\<in>| nd_dropped (ne_delta e))"

definition label_overlay_ids :: "memtable \<Rightarrow> u64 list" where
  "label_overlay_ids m = dense_ids_where m
     (\<lambda>_ e. nd_added (ne_delta e) \<noteq> {||} \<or> nd_dropped (ne_delta e) \<noteq> {||})"

definition has_label_overlay :: "memtable \<Rightarrow> bool" where
  "has_label_overlay m \<longleftrightarrow> fBex (fmran (m_nodes m))
     (\<lambda>e. nd_added (ne_delta e) \<noteq> {||} \<or> nd_dropped (ne_delta e) \<noteq> {||})"

definition born_index_value :: "memtable \<Rightarrow> node_entry \<Rightarrow> str \<Rightarrow> Value option" where
  "born_index_value m e prop =
     (case fmlookup (nd_patches (ne_delta e)) prop of Some v \<Rightarrow> Some v
      | None \<Rightarrow> if interner_name (m_interner m) (nkey (ne_identity e)) = Some prop
               then Some (nvalue (ne_identity e)) else None)"

definition born_ids_in_index :: "memtable \<Rightarrow> str \<Rightarrow> str \<Rightarrow> (Value \<Rightarrow> bool) \<Rightarrow> u64 list" where
  "born_ids_in_index m label prop p = List.map_filter (\<lambda>c. case fmlookup (m_nodes m) c of None \<Rightarrow> None
     | Some e \<Rightarrow> if interner_name (m_interner m) (nlabel (ne_identity e)) \<noteq> Some label then None
        else case ne_synthetic e of None \<Rightarrow> None
          | Some d \<Rightarrow> (case born_index_value m e prop of None \<Rightarrow> None
                      | Some v \<Rightarrow> if p v then Some d else None)) (m_born m)"

definition born_ids_in_index_eq :: "memtable \<Rightarrow> str \<Rightarrow> str \<Rightarrow> Value \<Rightarrow> u64 list" where
  "born_ids_in_index_eq m label prop key = born_ids_in_index m label prop (\<lambda>v. cmp_key v key = OEqual)"

definition born_ids_in_index_range ::
    "memtable \<Rightarrow> str \<Rightarrow> str \<Rightarrow> Value option \<Rightarrow> bool \<Rightarrow> Value option \<Rightarrow> bool \<Rightarrow> u64 list" where
  "born_ids_in_index_range m label prop lo lo_inc hi hi_inc =
     born_ids_in_index m label prop (\<lambda>v. value_in_range v lo lo_inc hi hi_inc)"

definition core_ids_patched_on_index :: "memtable \<Rightarrow> str \<Rightarrow> str \<Rightarrow> u64 list" where
  "core_ids_patched_on_index m label prop = dense_ids_where m
     (\<lambda>d e. d < m_base m \<and> interner_name (m_interner m) (nlabel (ne_identity e)) = Some label \<and>
            prop |\<in>| fmdom (nd_patches (ne_delta e)))"

definition edges_for :: "memtable \<Rightarrow> (u64, ck list) fmap \<Rightarrow> u64 \<Rightarrow> bool \<Rightarrow> delta_edge list" where
  "edges_for m adj node outgoing =
     (case fmlookup adj node of None \<Rightarrow> []
      | Some cks \<Rightarrow> List.map_filter (\<lambda>c. map_option (\<lambda>e.
           \<lparr>de_other = (if outgoing then ee_dst e else ee_src e),
            de_reltype = name_or_empty m (ereltype (ee_identity e)),
            de_edge_id = ee_synthetic e,
            de_key = map_option (\<lambda>(k, v). (name_or_empty m k, v)) (ekey (ee_identity e)),
            de_tombstoned = ed_tombstoned (ee_delta e)\<rparr>) (fmlookup (m_edges m) c)) cks)"

definition out_edges :: "memtable \<Rightarrow> u64 \<Rightarrow> delta_edge list" where
  "out_edges m node = edges_for m (m_out m) node True"

definition in_edges :: "memtable \<Rightarrow> u64 \<Rightarrow> delta_edge list" where
  "in_edges m node = edges_for m (m_in m) node False"

definition edge_delta_by_id :: "memtable \<Rightarrow> u64 \<Rightarrow> edge_delta option" where
  "edge_delta_by_id m edge_id =
     (if edge_id < m_edge_base m
      then Option.bind (fmlookup (m_by_edge m) edge_id)
             (\<lambda>c. map_option ee_delta (fmlookup (m_edges m) c))
      else let i = unat (edge_id - m_edge_base m)
        in if i < length (m_born_edges m)
           then map_option ee_delta (fmlookup (m_edges m) (m_born_edges m ! i)) else None)"

definition iter_edges :: "memtable \<Rightarrow> (node_key \<times> str \<times> node_key \<times> edge_delta) list" where
  "iter_edges m = map (\<lambda>e. let i = ee_identity e
     in ((name_or_empty m (nlabel (esrc i)), name_or_empty m (nkey (esrc i)), nvalue (esrc i)),
         name_or_empty m (ereltype i),
         (name_or_empty m (nlabel (edst i)), name_or_empty m (nkey (edst i)), nvalue (edst i)), ee_delta e))
     (edge_values m)"

definition iter_nodes :: "memtable \<Rightarrow> (node_key \<times> node_delta) list" where
  "iter_nodes m = map (\<lambda>(_, e). let i = ne_identity e
     in ((name_or_empty m (nlabel i), name_or_empty m (nkey i), nvalue i), ne_delta e))
     (sorted_list_of_fmap (m_nodes m))"

end
