(* ===== verification/Memtable_Nodes.thy ===== *)
theory Memtable_Nodes
  imports Memtable
begin

text \<open>
  The node half of the memtable's invariant. A resolver \<open>\<rho>\<close> stands for the index probe of the write
  path: it gives the dense id a business key has below this level, if any. Under it every stored
  entry is indexed by exactly one dense id, born ids tile the synthetic range, and the tallies agree
  with the stores. Every node operation is one assignment of a delta to one business key.
\<close>

section \<open>Names\<close>

definition names_of :: "interner \<Rightarrow> node_identity \<Rightarrow> node_key" where
  "names_of t i = (case_option [] (\<lambda>n. n) (interner_name t (nlabel i)),
     case_option [] (\<lambda>n. n) (interner_name t (nkey i)), nvalue i)"

definition interned :: "interner \<Rightarrow> node_identity \<Rightarrow> bool" where
  "interned t i \<longleftrightarrow> interner_name t (nlabel i) \<noteq> None \<and> interner_name t (nkey i) \<noteq> None"

definition grows :: "interner \<Rightarrow> interner \<Rightarrow> bool" where
  "grows t t' \<longleftrightarrow> interner_ok t' \<and> (\<forall>sid n. interner_name t sid = Some n \<longrightarrow> interner_name t' sid = Some n)"

lemma interner_name_inj:
  "interner_ok t \<Longrightarrow> interner_name t a = Some n \<Longrightarrow> interner_name t b = Some n \<Longrightarrow> a = b"
  by (metis interner_ok_name option.inject)

lemma names_of_inj:
  "interner_ok t \<Longrightarrow> interned t i \<Longrightarrow> interned t j \<Longrightarrow> names_of t i = names_of t j \<Longrightarrow> i = j"
  by (cases i; cases j) (auto simp: names_of_def interned_def dest: interner_name_inj)

lemma grows_refl: "interner_ok t \<Longrightarrow> grows t t"
  by (simp add: grows_def)

lemma grows_trans: "grows t t' \<Longrightarrow> grows t' t'' \<Longrightarrow> grows t t''"
  by (simp add: grows_def)

lemma grows_ok: "grows t t' \<Longrightarrow> interner_ok t'"
  by (simp add: grows_def)

lemma grows_interned: "grows t t' \<Longrightarrow> interned t i \<Longrightarrow> interned t' i"
  by (auto simp: grows_def interned_def)

lemma grows_names_of: "grows t t' \<Longrightarrow> interned t i \<Longrightarrow> names_of t' i = names_of t i"
  by (auto simp: grows_def interned_def names_of_def split: option.splits)

lemma intern_grows:
  "interner_ok t \<Longrightarrow> length (inames t) < 2 ^ 32 \<Longrightarrow> grows t (snd (intern n t))"
  by (simp add: grows_def intern_ok intern_keeps_name)

text \<open>Room for \<open>n\<close> more names.\<close>

definition room :: "nat \<Rightarrow> memtable \<Rightarrow> bool" where
  "room n m \<longleftrightarrow> interner_ok (m_interner m) \<and> length (inames (m_interner m)) + n \<le> 2 ^ 32"

lemma intern_node_spec:
  assumes "intern_node l k v m = (i, m1)" "room (n + 2) m"
  shows "grows (m_interner m) (m_interner m1)" "m1 = m\<lparr>m_interner := m_interner m1\<rparr>"
    "interned (m_interner m1) i" "names_of (m_interner m1) i = (l, k, v)" "room n m1"
proof -
  obtain sl t1 where 1: "intern l (m_interner m) = (sl, t1)" by fastforce
  obtain sk t2 where 2: "intern k t1 = (sk, t2)" by fastforce
  have i: "i = NodeIdentity_new sl sk v" and m1: "m1 = m\<lparr>m_interner := t2\<rparr>"
    using assms(1) 1 2 by (simp_all add: intern_node_def)
  have ok: "interner_ok (m_interner m)" and len: "length (inames (m_interner m)) < 2 ^ 32"
    using assms(2) by (simp_all add: room_def)
  have len1: "length (inames t1) \<le> Suc (length (inames (m_interner m)))"
    using intern_growth [of l "m_interner m"] 1 by simp
  have len2: "length (inames t2) \<le> Suc (length (inames t1))" using intern_growth [of k t1] 2 by simp
  have g1: "grows (m_interner m) t1" using intern_grows [OF ok len, of l] 1 by simp
  have l1: "length (inames t1) < 2 ^ 32" using len1 assms(2) by (simp add: room_def)
  have g2: "grows t1 t2" using intern_grows [OF grows_ok [OF g1] l1, of k] 2 by simp
  have nl: "interner_name t1 sl = Some l" using intern_name [OF ok len, of l] 1 by simp
  have nk: "interner_name t2 sk = Some k" using intern_name [OF grows_ok [OF g1] l1, of k] 2 by simp
  have nl': "interner_name t2 sl = Some l" using g2 nl by (simp add: grows_def)
  show "grows (m_interner m) (m_interner m1)" using grows_trans [OF g1 g2] m1 by simp
  show "m1 = m\<lparr>m_interner := m_interner m1\<rparr>" using m1 by simp
  show "interned (m_interner m1) i" "names_of (m_interner m1) i = (l, k, v)"
    using nl' nk i m1 by (simp_all add: interned_def names_of_def NodeIdentity_new_def)
  show "room n m1" using assms(2) len1 len2 m1 grows_ok [OF g2] by (simp add: room_def)
qed

section \<open>The invariant\<close>

type_synonym resolver = "node_key \<Rightarrow> u64 option"

definition resolver_ok :: "resolver \<Rightarrow> u64 \<Rightarrow> bool" where
  "resolver_ok \<rho> base \<longleftrightarrow> (\<forall>k d. \<rho> k = Some d \<longrightarrow> d < base \<and> (\<forall>k'. \<rho> k' = Some d \<longrightarrow> k' = k))"

lemma resolver_okD:
  assumes "resolver_ok \<rho> base" "\<rho> k = Some d"
  shows "d < base" "\<rho> k' = Some d \<Longrightarrow> k' = k"
  using assms unfolding resolver_ok_def by blast+

definition entry_dense :: "resolver \<Rightarrow> interner \<Rightarrow> node_entry \<Rightarrow> u64 option" where
  "entry_dense \<rho> t e = (case \<rho> (names_of t (ne_identity e)) of Some d \<Rightarrow> Some d | None \<Rightarrow> ne_synthetic e)"

lemma entry_dense_delta [simp]: "entry_dense \<rho> t (e\<lparr>ne_delta := nd\<rparr>) = entry_dense \<rho> t e"
  by (cases "\<rho> (names_of t (ne_identity e))") (simp_all add: entry_dense_def)

definition node_entry_ok :: "resolver \<Rightarrow> memtable \<Rightarrow> ck \<Rightarrow> node_entry \<Rightarrow> bool" where
  "node_entry_ok \<rho> m c e \<longleftrightarrow>
     c = node_canonical_key (ne_identity e) \<and> interned (m_interner m) (ne_identity e) \<and>
     node_identity_ok (ne_identity e) \<and> delta_ok (ne_delta e) \<and>
     (\<exists>d. entry_dense \<rho> (m_interner m) e = Some d \<and> fmlookup (m_by_dense m) d = Some c) \<and>
     (\<rho> (names_of (m_interner m) (ne_identity e)) \<noteq> None \<longrightarrow> ne_synthetic e = None)"

definition born_ok :: "memtable \<Rightarrow> bool" where
  "born_ok m \<longleftrightarrow> distinct (m_born m) \<and> unat (m_base m) + length (m_born m) \<le> 2 ^ 64 \<and>
     (\<forall>i < length (m_born m). \<exists>e. fmlookup (m_nodes m) (m_born m ! i) = Some e \<and>
        ne_synthetic e = Some (m_base m + of_nat i)) \<and>
     (\<forall>c e. fmlookup (m_nodes m) c = Some e \<longrightarrow> ne_synthetic e \<noteq> None \<longrightarrow> c \<in> set (m_born m))"

definition dense_ok :: "resolver \<Rightarrow> memtable \<Rightarrow> bool" where
  "dense_ok \<rho> m \<longleftrightarrow> (\<forall>d c. fmlookup (m_by_dense m) d = Some c \<longrightarrow>
     (\<exists>e. fmlookup (m_nodes m) c = Some e \<and> entry_dense \<rho> (m_interner m) e = Some d))"

definition tallies_ok :: "memtable \<Rightarrow> bool" where
  "tallies_ok m \<longleftrightarrow>
     (\<forall>d. d |\<in>| m_tombs m \<longleftrightarrow> (\<exists>c. fmlookup (m_by_dense m) d = Some c \<and> is_tombstoned_ck m c)) \<and>
     m_born_labels m = count_labels (m_nodes m) (m_born m) fmempty"

definition nodes_ok :: "resolver \<Rightarrow> memtable \<Rightarrow> bool" where
  "nodes_ok \<rho> m \<longleftrightarrow> interner_ok (m_interner m) \<and> resolver_ok \<rho> (m_base m) \<and>
     (\<forall>c e. fmlookup (m_nodes m) c = Some e \<longrightarrow> node_entry_ok \<rho> m c e) \<and>
     dense_ok \<rho> m \<and> born_ok m \<and> tallies_ok m"

lemma nodes_okD:
  assumes "nodes_ok \<rho> m"
  shows "interner_ok (m_interner m)" "resolver_ok \<rho> (m_base m)" "dense_ok \<rho> m" "born_ok m" "tallies_ok m"
    "fmlookup (m_nodes m) c = Some e \<Longrightarrow> node_entry_ok \<rho> m c e"
  using assms by (simp_all add: nodes_ok_def)

text \<open>Only the node stores matter to it.\<close>

lemma nodes_ok_cong:
  assumes "m_interner m' = m_interner m" "m_nodes m' = m_nodes m" "m_by_dense m' = m_by_dense m"
    "m_base m' = m_base m" "m_born m' = m_born m" "m_tombs m' = m_tombs m" "m_born_labels m' = m_born_labels m"
  shows "nodes_ok \<rho> m' = nodes_ok \<rho> m"
  using assms by (simp add: nodes_ok_def node_entry_ok_def dense_ok_def born_ok_def tallies_ok_def is_tombstoned_ck_def)

lemma nodes_ok_grow:
  assumes ok: "nodes_ok \<rho> m" and g: "grows (m_interner m) t"
  shows "nodes_ok \<rho> (m\<lparr>m_interner := t\<rparr>)"
proof -
  have ne: "node_entry_ok \<rho> (m\<lparr>m_interner := t\<rparr>) c e" if "fmlookup (m_nodes m) c = Some e" for c e
    using nodes_okD(6) [OF ok that] grows_names_of [OF g] grows_interned [OF g]
    by (auto simp: node_entry_ok_def entry_dense_def)
  have "dense_ok \<rho> (m\<lparr>m_interner := t\<rparr>)"
    unfolding dense_ok_def
  proof (intro allI impI)
    fix d c assume "fmlookup (m_by_dense (m\<lparr>m_interner := t\<rparr>)) d = Some c"
    then obtain e where e: "fmlookup (m_nodes m) c = Some e" "entry_dense \<rho> (m_interner m) e = Some d"
      using nodes_okD(3) [OF ok] by (auto simp: dense_ok_def)
    have "interned (m_interner m) (ne_identity e)"
      using nodes_okD(6) [OF ok e(1)] by (simp add: node_entry_ok_def)
    then have "entry_dense \<rho> t e = entry_dense \<rho> (m_interner m) e"
      using grows_names_of [OF g] by (simp add: entry_dense_def)
    then show "\<exists>e. fmlookup (m_nodes (m\<lparr>m_interner := t\<rparr>)) c = Some e \<and>
        entry_dense \<rho> (m_interner (m\<lparr>m_interner := t\<rparr>)) e = Some d"
      using e by simp
  qed
  then show ?thesis
    using ne ok grows_ok [OF g] by (simp add: nodes_ok_def born_ok_def tallies_ok_def is_tombstoned_ck_def)
qed

section \<open>Dense ids\<close>

lemma synthetic_range:
  assumes "born_ok m" "fmlookup (m_nodes m) c = Some e" "ne_synthetic e = Some d"
  obtains i where "i < length (m_born m)" "c = m_born m ! i" "d = m_base m + of_nat i"
    "unat d = unat (m_base m) + i"
proof -
  have "c \<in> set (m_born m)" using assms unfolding born_ok_def by blast
  then obtain i where i: "i < length (m_born m)" "c = m_born m ! i" by (metis in_set_conv_nth)
  then obtain e' where "fmlookup (m_nodes m) c = Some e'" "ne_synthetic e' = Some (m_base m + of_nat i)"
    using assms(1) unfolding born_ok_def by blast
  then have d: "d = m_base m + of_nat i" using assms(2,3) by simp
  have b: "unat (m_base m) + i < 2 ^ 64" using assms(1) i(1) by (simp add: born_ok_def)
  then have "unat (of_nat i :: u64) = i" by (intro unat_of_nat_u64) simp
  then have "unat d = unat (m_base m) + i" using b d by (simp add: unat_word_ariths)
  then show ?thesis using that i d by blast
qed

lemma next_id:
  assumes "unat (m_base m) + length (m_born m) < 2 ^ 64"
  shows "unat (m_base m + of_nat (length (m_born m))) = unat (m_base m) + length (m_born m)"
proof -
  have "unat (of_nat (length (m_born m)) :: u64) = length (m_born m)"
    using assms by (intro unat_of_nat_u64) simp
  then show ?thesis using assms by (simp add: unat_word_ariths)
qed

lemma by_denseD:
  assumes "nodes_ok \<rho> m" "fmlookup (m_by_dense m) d = Some c"
  obtains e where "fmlookup (m_nodes m) c = Some e" "entry_dense \<rho> (m_interner m) e = Some d"
    "node_entry_ok \<rho> m c e"
  using assms(2) nodes_okD(3,6) [OF assms(1)] unfolding dense_ok_def by blast

lemma core_id_below: "nodes_ok \<rho> m \<Longrightarrow> \<rho> k = Some d \<Longrightarrow> d < m_base m"
  using nodes_okD(2) resolver_okD by blast

lemma dense_lookup:
  "nodes_ok \<rho> m \<Longrightarrow> fmlookup (m_by_dense m) d = Some c \<Longrightarrow> fmlookup (m_nodes m) c = Some e \<Longrightarrow>
   entry_dense \<rho> (m_interner m) e = Some d"
  by (metis nodes_okD(3) dense_ok_def option.inject)

lemma synthetic_not_below:
  assumes "nodes_ok \<rho> m" "fmlookup (m_nodes m) c = Some e" "ne_synthetic e = Some d"
  shows "m_base m \<le> d"
proof -
  obtain i where "unat d = unat (m_base m) + i"
    using synthetic_range [OF nodes_okD(4) [OF assms(1)] assms(2,3)] by blast
  then show ?thesis by (simp add: word_le_nat_alt)
qed

lemma by_dense_core:
  assumes "nodes_ok \<rho> m" "interned (m_interner m) i" "\<rho> (names_of (m_interner m) i) = Some d"
    "fmlookup (m_by_dense m) d = Some c"
  shows "c = node_canonical_key i"
proof -
  obtain e where e: "fmlookup (m_nodes m) c = Some e" "entry_dense \<rho> (m_interner m) e = Some d"
    "node_entry_ok \<rho> m c e" using by_denseD [OF assms(1,4)] .
  have "d < m_base m" using core_id_below [OF assms(1,3)] .
  then have "ne_synthetic e \<noteq> Some d" using synthetic_not_below [OF assms(1) e(1)] by (meson leD)
  then have "\<rho> (names_of (m_interner m) (ne_identity e)) = Some d"
    using e(2) by (simp add: entry_dense_def split: option.splits)
  then have "names_of (m_interner m) (ne_identity e) = names_of (m_interner m) i"
    using resolver_okD(2) [OF nodes_okD(2) [OF assms(1)] assms(3)] by simp
  then have "ne_identity e = i"
    using names_of_inj [OF nodes_okD(1) [OF assms(1)]] assms(2) e(3) by (simp add: node_entry_ok_def)
  then show ?thesis using e(3) by (simp add: node_entry_ok_def)
qed

lemma by_dense_next:
  assumes "nodes_ok \<rho> m" "unat (m_base m) + length (m_born m) < 2 ^ 64"
  shows "fmlookup (m_by_dense m) (m_base m + of_nat (length (m_born m))) = None"
proof (rule ccontr)
  let ?d = "m_base m + of_nat (length (m_born m))"
  assume "fmlookup (m_by_dense m) ?d \<noteq> None"
  then obtain c where "fmlookup (m_by_dense m) ?d = Some c" by blast
  then obtain e where e: "fmlookup (m_nodes m) c = Some e" "entry_dense \<rho> (m_interner m) e = Some ?d"
    using by_denseD [OF assms(1)] by blast
  have "\<not> ?d < m_base m" using next_id [OF assms(2)] by (simp add: word_less_nat_alt)
  then have "ne_synthetic e = Some ?d"
    using e(2) core_id_below [OF assms(1)] by (fastforce simp: entry_dense_def split: option.splits)
  then obtain i where "i < length (m_born m)" "unat ?d = unat (m_base m) + i"
    using synthetic_range [OF nodes_okD(4) [OF assms(1)] e(1)] by blast
  then show False using next_id [OF assms(2)] by simp
qed

lemma tomb_dense: "nodes_ok \<rho> m \<Longrightarrow> d |\<in>| m_tombs m \<Longrightarrow> fmlookup (m_by_dense m) d \<noteq> None"
  using nodes_okD(5) by (auto simp: tallies_ok_def)

section \<open>Assigning a delta\<close>

lemma count_labels_cong:
  "(\<And>c. c \<in> set cs \<Longrightarrow> map_option (nlabel \<circ> ne_identity) (fmlookup n c) = map_option (nlabel \<circ> ne_identity) (fmlookup n' c))
   \<Longrightarrow> count_labels n cs acc = count_labels n' cs acc"
proof (induction n cs acc rule: count_labels.induct)
  case (2 nodes c cs acc)
  have "(case fmlookup nodes c of None \<Rightarrow> acc | Some e \<Rightarrow> count_at (nlabel (ne_identity e)) acc) =
      (case fmlookup n' c of None \<Rightarrow> acc | Some e \<Rightarrow> count_at (nlabel (ne_identity e)) acc)"
    using "2.prems" [of c] by (auto split: option.splits)
  then show ?case using 2 by simp
qed simp

lemma count_labels_append:
  "count_labels n (xs @ [c]) acc = (case fmlookup n c of None \<Rightarrow> count_labels n xs acc
     | Some e \<Rightarrow> count_at (nlabel (ne_identity e)) (count_labels n xs acc))"
  by (cases "fmlookup n c"; induction n xs acc rule: count_labels.induct) simp_all

definition mark :: "node_delta \<Rightarrow> u64 \<Rightarrow> u64 fset \<Rightarrow> u64 fset" where
  "mark nd d T = (if nd_tombstoned nd then finsert d T else T |-| {|d|})"

definition put_entry :: "ck \<Rightarrow> node_entry \<Rightarrow> u64 \<Rightarrow> memtable \<Rightarrow> memtable" where
  "put_entry c e d m = m\<lparr>m_nodes := fmupd c e (m_nodes m), m_by_dense := fmupd d c (m_by_dense m),
     m_tombs := mark (ne_delta e) d (m_tombs m)\<rparr>"

definition push_born :: "ck \<Rightarrow> SymbolId \<Rightarrow> memtable \<Rightarrow> memtable" where
  "push_born c l m = m\<lparr>m_born := m_born m @ [c], m_born_labels := count_at l (m_born_labels m)\<rparr>"

definition set_delta :: "resolver \<Rightarrow> node_identity \<Rightarrow> node_delta \<Rightarrow> memtable \<Rightarrow> memtable" where
  "set_delta \<rho> i nd m = (let c = node_canonical_key i in
     case fmlookup (m_nodes m) c of
       Some e \<Rightarrow> put_entry c (e\<lparr>ne_delta := nd\<rparr>) (the (entry_dense \<rho> (m_interner m) e)) m
     | None \<Rightarrow> (case \<rho> (names_of (m_interner m) i) of
         Some d \<Rightarrow> put_entry c (fresh_entry i\<lparr>ne_delta := nd\<rparr>) d m
       | None \<Rightarrow> let d = m_base m + of_nat (length (m_born m))
           in push_born c (nlabel i) (put_entry c (fresh_entry i\<lparr>ne_delta := nd, ne_synthetic := Some d\<rparr>) d m)))"

lemma put_entry_simps [simp]:
  "m_nodes (put_entry c e d m) = fmupd c e (m_nodes m)" "m_by_dense (put_entry c e d m) = fmupd d c (m_by_dense m)"
  "m_interner (put_entry c e d m) = m_interner m" "m_base (put_entry c e d m) = m_base m"
  "m_born (put_entry c e d m) = m_born m" "m_born_labels (put_entry c e d m) = m_born_labels m"
  "m_tombs (put_entry c e d m) = mark (ne_delta e) d (m_tombs m)"
  by (simp_all add: put_entry_def)

lemma push_born_simps [simp]:
  "m_nodes (push_born c l m) = m_nodes m" "m_by_dense (push_born c l m) = m_by_dense m"
  "m_interner (push_born c l m) = m_interner m" "m_base (push_born c l m) = m_base m"
  "m_born (push_born c l m) = m_born m @ [c]" "m_born_labels (push_born c l m) = count_at l (m_born_labels m)"
  "m_tombs (push_born c l m) = m_tombs m"
  by (simp_all add: push_born_def)

text \<open>What a well-formed new or updated entry \<open>e\<close> under key \<open>c\<close> and dense id \<open>d\<close> looks like.\<close>

definition placeable :: "resolver \<Rightarrow> memtable \<Rightarrow> ck \<Rightarrow> node_entry \<Rightarrow> u64 \<Rightarrow> bool" where
  "placeable \<rho> m c e d \<longleftrightarrow> c = node_canonical_key (ne_identity e) \<and> interned (m_interner m) (ne_identity e) \<and>
     node_identity_ok (ne_identity e) \<and> delta_ok (ne_delta e) \<and> entry_dense \<rho> (m_interner m) e = Some d \<and>
     (\<rho> (names_of (m_interner m) (ne_identity e)) \<noteq> None \<longrightarrow> ne_synthetic e = None) \<and>
     fmlookup (m_by_dense m) d \<in> {None, Some c} \<and>
     (\<forall>e0. fmlookup (m_nodes m) c = Some e0 \<longrightarrow> fmlookup (m_by_dense m) d = Some c)"

lemma put_entry_entries:
  assumes "nodes_ok \<rho> m" "placeable \<rho> m c e d" "fmlookup (fmupd c e (m_nodes m)) c' = Some e'"
  shows "node_entry_ok \<rho> (put_entry c e d m) c' e'"
proof (cases "c' = c")
  case True
  then show ?thesis using assms by (simp add: node_entry_ok_def placeable_def)
next
  case False
  then have "fmlookup (m_nodes m) c' = Some e'" using assms(3) by simp
  then have ok: "node_entry_ok \<rho> m c' e'" using nodes_okD(6) [OF assms(1)] by blast
  then obtain d' where d': "entry_dense \<rho> (m_interner m) e' = Some d'" "fmlookup (m_by_dense m) d' = Some c'"
    by (auto simp: node_entry_ok_def)
  then have "d' \<noteq> d" using False assms(2) by (auto simp: placeable_def)
  then show ?thesis using ok d' by (auto simp: node_entry_ok_def)
qed

lemma put_entry_dense:
  assumes "nodes_ok \<rho> m" "placeable \<rho> m c e d"
  shows "dense_ok \<rho> (put_entry c e d m)"
  unfolding dense_ok_def
proof (intro allI impI)
  fix d' c' assume a: "fmlookup (m_by_dense (put_entry c e d m)) d' = Some c'"
  show "\<exists>e'. fmlookup (m_nodes (put_entry c e d m)) c' = Some e' \<and>
      entry_dense \<rho> (m_interner (put_entry c e d m)) e' = Some d'"
  proof (cases "d' = d")
    case True
    then show ?thesis using a assms(2) by (simp add: placeable_def)
  next
    case False
    then have b: "fmlookup (m_by_dense m) d' = Some c'" using a by simp
    then obtain e' where e': "fmlookup (m_nodes m) c' = Some e'" "entry_dense \<rho> (m_interner m) e' = Some d'"
      using by_denseD [OF assms(1)] by blast
    have "c' \<noteq> c"
    proof
      assume "c' = c"
      then have "fmlookup (m_by_dense m) d = Some c" using e'(1) assms(2) by (simp add: placeable_def)
      then have "entry_dense \<rho> (m_interner m) e' = Some d"
        using dense_lookup [OF assms(1)] e'(1) \<open>c' = c\<close> by simp
      then show False using e'(2) False by simp
    qed
    then show ?thesis using e' by simp
  qed
qed

lemma put_entry_tombs:
  assumes "nodes_ok \<rho> m" "placeable \<rho> m c e d"
  shows "d' |\<in>| m_tombs (put_entry c e d m) \<longleftrightarrow>
    (\<exists>c'. fmlookup (m_by_dense (put_entry c e d m)) d' = Some c' \<and> is_tombstoned_ck (put_entry c e d m) c')"
proof (cases "d' = d")
  case True
  then show ?thesis by (simp add: is_tombstoned_ck_def mark_def)
next
  case False
  have "c' \<noteq> c" if b: "fmlookup (m_by_dense m) d' = Some c'" for c'
  proof
    assume "c' = c"
    obtain e' where e': "fmlookup (m_nodes m) c = Some e'" "entry_dense \<rho> (m_interner m) e' = Some d'"
      using by_denseD [OF assms(1) b] \<open>c' = c\<close> by blast
    then have "fmlookup (m_by_dense m) d = Some c" using assms(2) by (simp add: placeable_def)
    then have "entry_dense \<rho> (m_interner m) e' = Some d" using dense_lookup [OF assms(1)] e'(1) by simp
    then show False using e'(2) False by simp
  qed
  then have "is_tombstoned_ck (put_entry c e d m) c' = is_tombstoned_ck m c'" if "fmlookup (m_by_dense m) d' = Some c'" for c'
    using that by (simp add: is_tombstoned_ck_def)
  moreover have "d' |\<in>| m_tombs m \<longleftrightarrow> (\<exists>c'. fmlookup (m_by_dense m) d' = Some c' \<and> is_tombstoned_ck m c')"
    using nodes_okD(5) [OF assms(1)] by (simp add: tallies_ok_def)
  ultimately show ?thesis using False by (auto simp: mark_def)
qed

lemma born_stored:
  assumes "born_ok m" "c \<in> set (m_born m)"
  shows "fmlookup (m_nodes m) c \<noteq> None"
proof -
  obtain i where i: "i < length (m_born m)" "c = m_born m ! i" using assms(2) by (metis in_set_conv_nth)
  then show ?thesis using assms(1) unfolding born_ok_def by (metis option.distinct(1))
qed

lemma put_entry_born:
  assumes "born_ok m" "ne_synthetic e = Option.bind (fmlookup (m_nodes m) c) ne_synthetic"
  shows "born_ok (put_entry c e d m)"
  using assms by (auto simp: born_ok_def Option.bind_eq_Some_conv)

lemma put_entry_labels:
  assumes "nodes_ok \<rho> m" "\<And>e0. fmlookup (m_nodes m) c = Some e0 \<Longrightarrow> ne_identity e0 = ne_identity e"
  shows "count_labels (fmupd c e (m_nodes m)) (m_born m) fmempty = m_born_labels m"
proof -
  have "count_labels (fmupd c e (m_nodes m)) (m_born m) fmempty = count_labels (m_nodes m) (m_born m) fmempty"
    using assms(2) born_stored [OF nodes_okD(4) [OF assms(1)]]
    by (intro count_labels_cong) fastforce
  then show ?thesis using nodes_okD(5) [OF assms(1)] by (simp add: tallies_ok_def)
qed

lemma put_entry_ok:
  assumes "nodes_ok \<rho> m" "placeable \<rho> m c e d"
    "ne_synthetic e = Option.bind (fmlookup (m_nodes m) c) ne_synthetic"
    "\<And>e0. fmlookup (m_nodes m) c = Some e0 \<Longrightarrow> ne_identity e0 = ne_identity e"
  shows "nodes_ok \<rho> (put_entry c e d m)"
  unfolding nodes_ok_def tallies_ok_def
  using put_entry_entries [OF assms(1,2)] put_entry_dense [OF assms(1,2)] put_entry_tombs [OF assms(1,2)]
    put_entry_born [OF nodes_okD(4) [OF assms(1)] assms(3)] put_entry_labels [OF assms(1,4)]
    nodes_okD(1,2) [OF assms(1)] by simp

lemma push_born_ok:
  assumes "nodes_ok \<rho> m" "placeable \<rho> m c e d" "fmlookup (m_nodes m) c = None"
    "ne_synthetic e = Some d" "d = m_base m + of_nat (length (m_born m))"
    "unat (m_base m) + length (m_born m) < 2 ^ 64"
  shows "nodes_ok \<rho> (push_born c (nlabel (ne_identity e)) (put_entry c e d m))"
proof -
  let ?p = "put_entry c e d m" and ?q = "push_born c (nlabel (ne_identity e)) (put_entry c e d m)"
  have c: "c \<notin> set (m_born m)" using born_stored [OF nodes_okD(4) [OF assms(1)]] assms(3) by blast
  have b: "born_ok ?q"
    unfolding born_ok_def
  proof (intro conjI allI impI)
    fix i assume "i < length (m_born ?q)"
    then consider "i < length (m_born m)" | "i = length (m_born m)" by fastforce
    then show "\<exists>e. fmlookup (m_nodes ?q) (m_born ?q ! i) = Some e \<and> ne_synthetic e = Some (m_base ?q + of_nat i)"
    proof cases
      case 1
      then have "m_born m ! i \<noteq> c" using c by (metis nth_mem)
      then show ?thesis using 1 nodes_okD(4) [OF assms(1)] by (simp add: born_ok_def nth_append)
    qed (simp add: nth_append assms(4,5))
  qed (use c assms(6) nodes_okD(4) [OF assms(1)] in \<open>auto simp: born_ok_def split: if_splits\<close>)
  have "count_labels (fmupd c e (m_nodes m)) (m_born m) fmempty = m_born_labels m"
    using assms(3) by (intro put_entry_labels [OF assms(1)]) simp
  then have l: "count_labels (fmupd c e (m_nodes m)) (m_born m @ [c]) fmempty =
      count_at (nlabel (ne_identity e)) (m_born_labels m)" by (simp add: count_labels_append)
  have t: "is_tombstoned_ck ?q = is_tombstoned_ck ?p" by (simp add: is_tombstoned_ck_def fun_eq_iff)
  have "node_entry_ok \<rho> ?q c' e' = node_entry_ok \<rho> ?p c' e'" for c' e' by (simp add: node_entry_ok_def)
  moreover have "dense_ok \<rho> ?q = dense_ok \<rho> ?p" by (simp add: dense_ok_def)
  ultimately show ?thesis
    unfolding nodes_ok_def tallies_ok_def t
    using put_entry_entries [OF assms(1,2)] put_entry_dense [OF assms(1,2)] put_entry_tombs [OF assms(1,2)]
      nodes_okD(1,2) [OF assms(1)] b l by simp
qed

lemma stored_identity:
  assumes "nodes_ok \<rho> m" "fmlookup (m_nodes m) (node_canonical_key i) = Some e" "node_identity_ok i"
  shows "ne_identity e = i"
  using nodes_okD(6) [OF assms(1,2)] assms(3) node_canonical_key_inj by (simp add: node_entry_ok_def)

lemma set_delta_ok:
  assumes "nodes_ok \<rho> m" "interned (m_interner m) i" "node_identity_ok i" "delta_ok nd"
    "unat (m_base m) + length (m_born m) < 2 ^ 64"
  shows "nodes_ok \<rho> (set_delta \<rho> i nd m)"
proof (cases "fmlookup (m_nodes m) (node_canonical_key i)")
  case (Some e)
  have e: "node_entry_ok \<rho> m (node_canonical_key i) e" using nodes_okD(6) [OF assms(1) Some] .
  then obtain d where d: "entry_dense \<rho> (m_interner m) e = Some d"
    "fmlookup (m_by_dense m) d = Some (node_canonical_key i)" unfolding node_entry_ok_def by blast
  have "\<rho> (names_of (m_interner m) i) \<noteq> None \<longrightarrow> ne_synthetic e = None"
    using e stored_identity [OF assms(1) Some assms(3)] by (simp add: node_entry_ok_def)
  then have "placeable \<rho> m (node_canonical_key i) (e\<lparr>ne_delta := nd\<rparr>) d"
    using d assms(2-4) stored_identity [OF assms(1) Some assms(3)] by (simp add: placeable_def)
  then have "nodes_ok \<rho> (put_entry (node_canonical_key i) (e\<lparr>ne_delta := nd\<rparr>) d m)"
    by (rule put_entry_ok [OF assms(1)]) (simp_all add: Some)
  then show ?thesis using Some d by (simp add: set_delta_def)
next
  case None
  show ?thesis
  proof (cases "\<rho> (names_of (m_interner m) i)")
    case (Some d)
    have "fmlookup (m_by_dense m) d = None"
    proof (rule ccontr)
      assume "fmlookup (m_by_dense m) d \<noteq> None"
      then obtain c where c: "fmlookup (m_by_dense m) d = Some c" by blast
      have "c = node_canonical_key i" using by_dense_core [OF assms(1,2) Some c] .
      then show False using by_denseD [OF assms(1) c] None by auto
    qed
    then have "placeable \<rho> m (node_canonical_key i) (fresh_entry i\<lparr>ne_delta := nd\<rparr>) d"
      using None Some assms(2-4) by (simp add: placeable_def fresh_entry_def entry_dense_def)
    then have "nodes_ok \<rho> (put_entry (node_canonical_key i) (fresh_entry i\<lparr>ne_delta := nd\<rparr>) d m)"
      by (rule put_entry_ok [OF assms(1)]) (simp_all add: None fresh_entry_def)
    then show ?thesis using None Some by (simp add: set_delta_def)
  next
    case none: None
    let ?d = "m_base m + of_nat (length (m_born m))"
    let ?e = "fresh_entry i\<lparr>ne_delta := nd, ne_synthetic := Some ?d\<rparr>"
    have "placeable \<rho> m (node_canonical_key i) ?e ?d"
      using None none by_dense_next [OF assms(1,5)] assms(2-4)
      by (simp add: placeable_def fresh_entry_def entry_dense_def)
    then have "nodes_ok \<rho> (push_born (node_canonical_key i) (nlabel (ne_identity ?e))
        (put_entry (node_canonical_key i) ?e ?d m))"
      by (rule push_born_ok [OF assms(1)]) (use None assms(5) in simp_all)
    then show ?thesis using None none by (simp add: set_delta_def fresh_entry_def Let_def)
  qed
qed

section \<open>The memtable as a map from business keys to deltas\<close>

definition node_at :: "memtable \<Rightarrow> node_key \<Rightarrow> node_entry option" where
  "node_at m k = (case k of (l, p, v) \<Rightarrow>
     Option.bind (interner_get (m_interner m) l) (\<lambda>a. Option.bind (interner_get (m_interner m) p)
       (\<lambda>b. fmlookup (m_nodes m) (node_canonical_key (NodeIdentity_new a b v)))))"

definition delta_at :: "memtable \<Rightarrow> node_key \<Rightarrow> node_delta option" where
  "delta_at m k = map_option ne_delta (node_at m k)"

definition key_ok :: "node_key \<Rightarrow> bool" where
  "key_ok k \<longleftrightarrow> value_storable (snd (snd k))"

lemma node_at_interned:
  assumes "interner_ok (m_interner m)" "interned (m_interner m) i" "names_of (m_interner m) i = k"
  shows "node_at m k = fmlookup (m_nodes m) (node_canonical_key i)"
proof -
  obtain l p where n: "interner_name (m_interner m) (nlabel i) = Some l" "interner_name (m_interner m) (nkey i) = Some p"
    using assms(2) by (auto simp: interned_def)
  then have k: "k = (l, p, nvalue i)" using assms(3) by (simp add: names_of_def)
  have "NodeIdentity_new (nlabel i) (nkey i) (nvalue i) = i" by (simp add: NodeIdentity_new_def)
  moreover have "fmlookup (imap (m_interner m)) l = Some (nlabel i)" "fmlookup (imap (m_interner m)) p = Some (nkey i)"
    using n interner_ok_name [OF assms(1)] by blast+
  ultimately show ?thesis by (simp add: k node_at_def interner_get_def)
qed

lemma node_at_Some:
  assumes "nodes_ok \<rho> m" "key_ok k" "node_at m k = Some e"
  shows "interned (m_interner m) (ne_identity e)" "names_of (m_interner m) (ne_identity e) = k"
    "fmlookup (m_nodes m) (node_canonical_key (ne_identity e)) = Some e"
proof -
  obtain l p v where k: "k = (l, p, v)" by (metis prod_cases3)
  obtain a b where ab: "interner_get (m_interner m) l = Some a" "interner_get (m_interner m) p = Some b"
    "fmlookup (m_nodes m) (node_canonical_key (NodeIdentity_new a b v)) = Some e"
    using assms(3) by (auto simp: k node_at_def Option.bind_eq_Some_conv)
  have "node_identity_ok (NodeIdentity_new a b v)"
    using assms(2) by (simp add: k key_ok_def node_identity_ok_def NodeIdentity_new_def)
  then have i: "ne_identity e = NodeIdentity_new a b v" by (rule stored_identity [OF assms(1) ab(3)])
  have "interner_name (m_interner m) a = Some l" "interner_name (m_interner m) b = Some p"
    using ab nodes_okD(1) [OF assms(1)] by (simp_all add: interner_get_def interner_ok_name)
  then show "names_of (m_interner m) (ne_identity e) = k" by (simp add: i k names_of_def NodeIdentity_new_def)
  show "fmlookup (m_nodes m) (node_canonical_key (ne_identity e)) = Some e" using ab i by simp
  show "interned (m_interner m) (ne_identity e)"
    using nodes_okD(6) [OF assms(1) ab(3)] by (simp add: node_entry_ok_def)
qed

lemma node_at_grow:
  assumes "nodes_ok \<rho> m" "grows (m_interner m) t" "key_ok k"
  shows "node_at (m\<lparr>m_interner := t\<rparr>) k = node_at m k"
proof (cases "node_at m k")
  case (Some e)
  note e = node_at_Some [OF assms(1,3) Some]
  show ?thesis
    using node_at_interned [of "m\<lparr>m_interner := t\<rparr>" "ne_identity e" k] grows_ok [OF assms(2)]
      grows_interned [OF assms(2) e(1)] grows_names_of [OF assms(2) e(1)] e Some by simp
next
  case None
  show ?thesis
  proof (rule ccontr)
    assume "\<not> ?thesis"
    then obtain e where e: "node_at (m\<lparr>m_interner := t\<rparr>) k = Some e" using None by auto
    note e' = node_at_Some [OF nodes_ok_grow [OF assms(1,2)] assms(3) e]
    have st: "fmlookup (m_nodes m) (node_canonical_key (ne_identity e)) = Some e" using e'(3) by simp
    then have i: "interned (m_interner m) (ne_identity e)"
      using nodes_okD(6) [OF assms(1)] by (simp add: node_entry_ok_def)
    have "names_of (m_interner m) (ne_identity e) = k" using grows_names_of [OF assms(2) i] e'(2) by simp
    then show False using node_at_interned [OF nodes_okD(1) [OF assms(1)] i] st None by simp
  qed
qed

lemma set_delta_interner [simp]: "m_interner (set_delta \<rho> i nd m) = m_interner m"
  by (simp add: set_delta_def Let_def split: option.splits)

lemma set_delta_nodes:
  "fmlookup (m_nodes (set_delta \<rho> i nd m)) c =
     (if c = node_canonical_key i then Some ((case fmlookup (m_nodes m) c of Some e \<Rightarrow> e
        | None \<Rightarrow> (fresh_entry i)\<lparr>ne_synthetic := (if \<rho> (names_of (m_interner m) i) = None
             then Some (m_base m + of_nat (length (m_born m))) else None)\<rparr>)\<lparr>ne_delta := nd\<rparr>)
      else fmlookup (m_nodes m) c)"
  by (auto simp: set_delta_def Let_def fresh_entry_def split: option.splits)

lemma node_at_set_delta:
  assumes "nodes_ok \<rho> m" "interned (m_interner m) i" "node_identity_ok i" "delta_ok nd"
    "unat (m_base m) + length (m_born m) < 2 ^ 64" "key_ok k"
  shows "node_at (set_delta \<rho> i nd m) k = (if k = names_of (m_interner m) i
    then Some ((case node_at m k of Some e \<Rightarrow> e
        | None \<Rightarrow> (fresh_entry i)\<lparr>ne_synthetic := (if \<rho> k = None
             then Some (m_base m + of_nat (length (m_born m))) else None)\<rparr>)\<lparr>ne_delta := nd\<rparr>)
    else node_at m k)"
proof (cases "k = names_of (m_interner m) i")
  case True
  have "node_at (set_delta \<rho> i nd m) k = fmlookup (m_nodes (set_delta \<rho> i nd m)) (node_canonical_key i)"
    by (rule node_at_interned) (use True assms(2) nodes_okD(1) [OF assms(1)] in simp_all)
  moreover have "node_at m k = fmlookup (m_nodes m) (node_canonical_key i)"
    by (rule node_at_interned) (use True assms(2) nodes_okD(1) [OF assms(1)] in simp_all)
  ultimately show ?thesis using True by (simp add: set_delta_nodes)
next
  case False
  obtain l p v where k: "k = (l, p, v)" by (metis prod_cases3)
  have "node_canonical_key (NodeIdentity_new a b v) \<noteq> node_canonical_key i"
    if ab: "interner_get (m_interner m) l = Some a" "interner_get (m_interner m) p = Some b" for a b
  proof
    assume eq: "node_canonical_key (NodeIdentity_new a b v) = node_canonical_key i"
    have "node_identity_ok (NodeIdentity_new a b v)"
      using assms(6) by (simp add: k key_ok_def node_identity_ok_def NodeIdentity_new_def)
    then have i: "i = NodeIdentity_new a b v" using node_canonical_key_inj [OF _ assms(3) eq] by simp
    have "interner_name (m_interner m) a = Some l" "interner_name (m_interner m) b = Some p"
      using ab nodes_okD(1) [OF assms(1)] by (simp_all add: interner_get_def interner_ok_name)
    then show False using False i by (simp add: k names_of_def NodeIdentity_new_def)
  qed
  then have "node_at (set_delta \<rho> i nd m) k = node_at m k"
    by (auto simp: node_at_def k set_delta_nodes intro!: bind_option_cong)
  then show ?thesis using False by simp
qed

lemma delta_at_set_delta:
  assumes "nodes_ok \<rho> m" "interned (m_interner m) i" "node_identity_ok i" "delta_ok nd"
    "unat (m_base m) + length (m_born m) < 2 ^ 64" "key_ok k"
  shows "delta_at (set_delta \<rho> i nd m) k = (if k = names_of (m_interner m) i then Some nd else delta_at m k)"
  by (simp add: delta_at_def node_at_set_delta [OF assms])

section \<open>The node operations assign deltas\<close>

text \<open>The resolutions the write path passes for a business key: the resolver's answer, or the synthetic
  id this level itself gave the key.\<close>

definition resolves :: "resolver \<Rightarrow> memtable \<Rightarrow> node_key \<Rightarrow> u64 option \<Rightarrow> bool" where
  "resolves \<rho> m k r \<longleftrightarrow> r = \<rho> k \<or> \<rho> k = None \<and> r = Option.bind (node_at m k) ne_synthetic"

definition fits :: "memtable \<Rightarrow> bool" where
  "fits m \<longleftrightarrow> unat (m_base m) + length (m_born m) < 2 ^ 64"

lemma fmupd_id: "fmlookup m k = Some v \<Longrightarrow> fmupd k v m = m"
  by (rule fmap_ext) auto

lemma resurrect_default [simp]: "nd_resurrect nd_default = nd_default"
  by (simp add: nd_resurrect_def nd_default_def)

lemma mark_absent: "d |\<notin>| T \<Longrightarrow> \<not> nd_tombstoned nd \<Longrightarrow> mark nd d T = T"
  by (auto simp: mark_def)

lemma resurrect_alive [simp]: "\<not> nd_tombstoned (nd_resurrect d)"
  by (simp add: nd_resurrect_def)

definition assigns :: "resolver \<Rightarrow> node_key \<Rightarrow> node_delta \<Rightarrow> memtable \<Rightarrow> memtable \<Rightarrow> bool" where
  "assigns \<rho> k nd m m' \<longleftrightarrow> (\<exists>i t b. grows (m_interner m) t \<and> interned t i \<and> names_of t i = k \<and>
     length (inames t) \<le> length (inames (m_interner m)) + 2 \<and>
     m' = (set_delta \<rho> i nd (m\<lparr>m_interner := t\<rparr>))\<lparr>m_bytes := b\<rparr>)"

definition old_delta :: "memtable \<Rightarrow> node_key \<Rightarrow> node_delta" where
  "old_delta m k = (case delta_at m k of None \<Rightarrow> nd_default | Some d \<Rightarrow> d)"

text \<open>A stored entry resolves to its dense id.\<close>

lemma resolves_stored:
  assumes "nodes_ok \<rho> m" "interned (m_interner m) i" "names_of (m_interner m) i = k" "node_identity_ok i"
    "fmlookup (m_nodes m) (node_canonical_key i) = Some e" "resolves \<rho> m k r"
  obtains d where "entry_dense \<rho> (m_interner m) e = Some d" "fmlookup (m_by_dense m) d = Some (node_canonical_key i)"
    "(case r of Some d \<Rightarrow> Some d | None \<Rightarrow> ne_synthetic e) = Some d" "r = Some d \<or> r = None"
    "d |\<in>| m_tombs m \<longleftrightarrow> nd_tombstoned (ne_delta e)"
proof -
  have e: "node_entry_ok \<rho> m (node_canonical_key i) e" using nodes_okD(6) [OF assms(1,5)] .
  then obtain d where d: "entry_dense \<rho> (m_interner m) e = Some d" "fmlookup (m_by_dense m) d = Some (node_canonical_key i)"
    unfolding node_entry_ok_def by blast
  have i: "ne_identity e = i" using stored_identity [OF assms(1,5,4)] .
  have n: "node_at m k = Some e" using node_at_interned [OF nodes_okD(1) [OF assms(1)] assms(2,3)] assms(5) by simp
  have "d |\<in>| m_tombs m \<longleftrightarrow> is_tombstoned_ck m (node_canonical_key i)"
    using nodes_okD(5) [OF assms(1)] d(2) by (simp add: tallies_ok_def)
  then have t: "d |\<in>| m_tombs m \<longleftrightarrow> nd_tombstoned (ne_delta e)" using assms(5) by (simp add: is_tombstoned_ck_def)
  have r: "r = \<rho> k \<or> \<rho> k = None \<and> r = ne_synthetic e" using assms(6) n by (simp add: resolves_def)
  have ed: "Some d = (case \<rho> k of Some d \<Rightarrow> Some d | None \<Rightarrow> ne_synthetic e)"
    using d(1) i assms(3) by (simp add: entry_dense_def)
  show ?thesis
  proof (cases "\<rho> k")
    case None
    then have "ne_synthetic e = Some d" "r = None \<or> r = Some d" using r ed by auto
    then show ?thesis using that [OF d _ _ t] by auto
  next
    case (Some d')
    then have "r = Some d" using r ed by auto
    then show ?thesis using that [OF d _ _ t] by simp
  qed
qed

lemma fresh_core_id:
  assumes "nodes_ok \<rho> m" "interned (m_interner m) i" "\<rho> (names_of (m_interner m) i) = Some d"
    "fmlookup (m_nodes m) (node_canonical_key i) = None"
  shows "fmlookup (m_by_dense m) d = None" "d |\<notin>| m_tombs m"
proof -
  show n: "fmlookup (m_by_dense m) d = None"
  proof (rule ccontr)
    assume "fmlookup (m_by_dense m) d \<noteq> None"
    then obtain c where c: "fmlookup (m_by_dense m) d = Some c" by blast
    have "c = node_canonical_key i" using by_dense_core [OF assms(1-3) c] .
    then show False using by_denseD [OF assms(1) c] assms(4) by auto
  qed
  show "d |\<notin>| m_tombs m" using tomb_dense [OF assms(1)] n by blast
qed

lemma touch_at:
  assumes ok: "nodes_ok \<rho> m" and i: "interned (m_interner m) i" "names_of (m_interner m) i = k" "node_identity_ok i"
    and fit: "fits m" and r: "resolves \<rho> m k r"
  shows "touch_entry i (node_canonical_key i) r m = set_delta \<rho> i (nd_resurrect (old_delta m k)) m"
proof -
  define c where "c = node_canonical_key i"
  define e where "e = (case fmlookup (m_nodes m) c of Some e \<Rightarrow> e | None \<Rightarrow> fresh_entry i)"
  define e1 where "e1 = e\<lparr>ne_delta := nd_resurrect (ne_delta e)\<rparr>"
  define m3 where "m3 = m\<lparr>m_nodes := fmupd c e1 (m_nodes m)\<rparr>"
  define m4 where "m4 = (if nd_tombstoned (ne_delta e)
                then (case (case r of Some d \<Rightarrow> Some d | None \<Rightarrow> ne_synthetic e) of
                        Some d \<Rightarrow> m3\<lparr>m_tombs := m_tombs m3 |-| {|d|}\<rparr> | None \<Rightarrow> m3)
                else m3)"
  define m5 where "m5 = touch_entry i c r m"
  note m5_def' = m5_def [unfolded touch_entry_def Let_def, folded e_def, folded e1_def, folded m3_def, folded m4_def]
  have n: "node_at m k = fmlookup (m_nodes m) c"
    using node_at_interned [OF nodes_okD(1) [OF ok] i(1,2)] by (simp add: c_def)
  have od: "old_delta m k = ne_delta e"
    by (simp add: old_delta_def delta_at_def n e_def fresh_entry_def split: option.splits)
  have "m5 = set_delta \<rho> i (nd_resurrect (ne_delta e)) m"
proof (cases "fmlookup (m_nodes m) c")
  case (Some e0)
  then have e0: "e = e0" by (simp add: e_def)
  obtain d where d: "entry_dense \<rho> (m_interner m) e = Some d" "fmlookup (m_by_dense m) d = Some c"
    "(case r of Some d \<Rightarrow> Some d | None \<Rightarrow> ne_synthetic e) = Some d" "r = Some d \<or> r = None"
    "d |\<in>| m_tombs m \<longleftrightarrow> nd_tombstoned (ne_delta e)"
    using resolves_stored [OF ok i] r Some e0 unfolding c_def by blast
  have s: "set_delta \<rho> i (nd_resurrect (ne_delta e)) m = put_entry c e1 d m"
    using Some d(1) e0 by (simp add: set_delta_def Let_def e1_def c_def)
  have m4: "m4 = m3\<lparr>m_tombs := mark (nd_resurrect (ne_delta e)) d (m_tombs m)\<rparr>"
    using d(3,5) by (auto simp: m4_def m3_def mark_def)
  have "m5 = m4\<lparr>m_by_dense := fmupd d c (m_by_dense m4)\<rparr>"
    using d(3,4) fmupd_id [OF d(2)] by (auto simp: m5_def' m4 m3_def)
  then show ?thesis by (simp add: s m4 m3_def put_entry_def e1_def)
next
  case None
  then have e: "e = fresh_entry i" by (simp add: e_def)
  have rk: "r = \<rho> k"
    using r node_at_interned [OF nodes_okD(1) [OF ok] i(1,2)] None by (auto simp: resolves_def c_def)
  have e1: "e1 = e" "nd_resurrect (ne_delta e) = nd_default"
    by (simp_all add: e1_def e fresh_entry_def)
  have m4: "m4 = m3" by (simp add: m4_def e fresh_entry_def)
  show ?thesis
  proof (cases r)
    case (Some d)
    then have "d |\<notin>| m_tombs m" using fresh_core_id [OF ok i(1)] rk i(2) None c_def by auto
    then have "mark nd_default d (m_tombs m) = m_tombs m" by (simp add: mark_absent)
    then show ?thesis using Some rk None i(2)
      by (simp add: m5_def' m4 m3_def e1 e set_delta_def c_def put_entry_def fresh_entry_def Let_def)
  next
    case none: None
    let ?d = "m_base m + of_nat (length (m_born m))"
    have "?d |\<notin>| m_tombs m" using by_dense_next [OF ok] fit tomb_dense [OF ok] unfolding fits_def by blast
    then have "mark nd_default ?d (m_tombs m) = m_tombs m" by (simp add: mark_absent)
    then show ?thesis using none rk None i(2)
      by (simp add: m5_def' m4 m3_def e1 e set_delta_def c_def put_entry_def push_born_def fresh_entry_def Let_def)
  qed
qed
  then show ?thesis by (simp add: m5_def c_def od)
qed

text \<open>A node operation's prologue: the business key interned, with what that leaves unchanged.\<close>

lemma intern_node_ok:
  assumes "nodes_ok \<rho> m" "room 2 m" "value_storable v" "intern_node l p v m = (i, m1)"
  shows "nodes_ok \<rho> m1" "interned (m_interner m1) i" "names_of (m_interner m1) i = (l, p, v)" "node_identity_ok i"
    "grows (m_interner m) (m_interner m1)" "m1 = m\<lparr>m_interner := m_interner m1\<rparr>"
    "fmlookup (m_nodes m1) (node_canonical_key i) = node_at m (l, p, v)"
    "length (inames (m_interner m1)) \<le> length (inames (m_interner m)) + 2"
    "resolves \<rho> m (l, p, v) r \<Longrightarrow> resolves \<rho> m1 (l, p, v) r" "fits m1 = fits m"
proof -
  have rm: "room (0 + 2) m" using assms(2) by (simp only: add_0)
  note sp = intern_node_spec [OF assms(4) rm]
  show g: "grows (m_interner m) (m_interner m1)" and m1: "m1 = m\<lparr>m_interner := m_interner m1\<rparr>"
    and i: "interned (m_interner m1) i" "names_of (m_interner m1) i = (l, p, v)" by (fact sp)+
  show ok: "nodes_ok \<rho> m1" using nodes_ok_grow [OF assms(1) g] m1 by simp
  show "node_identity_ok i" using assms(3) i(2) by (simp add: node_identity_ok_def names_of_def)
  have k: "key_ok (l, p, v)" using assms(3) by (simp add: key_ok_def)
  have n: "node_at m1 (l, p, v) = node_at m (l, p, v)" using node_at_grow [OF assms(1) g k] m1 by simp
  show "fmlookup (m_nodes m1) (node_canonical_key i) = node_at m (l, p, v)"
    using n node_at_interned [OF nodes_okD(1) [OF ok] i] by simp
  show "length (inames (m_interner m1)) \<le> length (inames (m_interner m)) + 2"
    using assms(4) intern_growth [of l "m_interner m"] intern_growth [of p "snd (intern l (m_interner m))"]
    by (auto simp: intern_node_def split: prod.splits)
  show "resolves \<rho> m (l, p, v) r \<Longrightarrow> resolves \<rho> m1 (l, p, v) r" using n by (simp add: resolves_def)
  show "fits m1 = fits m" by (subst m1) (simp add: fits_def)
qed

lemma set_delta_bytes: "set_delta \<rho> i nd (m\<lparr>m_bytes := b\<rparr>) = (set_delta \<rho> i nd m)\<lparr>m_bytes := b\<rparr>"
  by (simp add: set_delta_def Let_def put_entry_def push_born_def split: option.splits)

lemma m_bytes_irrelevant [simp]:
  "resolves \<rho> (m\<lparr>m_bytes := b\<rparr>) k r = resolves \<rho> m k r" "fits (m\<lparr>m_bytes := b\<rparr>) = fits m"
  "node_at (m\<lparr>m_bytes := b\<rparr>) k = node_at m k" "nodes_ok \<rho> (m\<lparr>m_bytes := b\<rparr>) = nodes_ok \<rho> m"
  "delta_at (m\<lparr>m_bytes := b\<rparr>) k = delta_at m k"
  by (simp_all add: resolves_def fits_def node_at_def delta_at_def nodes_ok_cong [of "m\<lparr>m_bytes := b\<rparr>" m])

lemma touch_spec:
  assumes "nodes_ok \<rho> m" "room 2 m" "value_storable v" "fits m" "resolves \<rho> m (l, p, v) r"
    "touch_node_entry lay l p v r m = (c, m')"
  obtains i t b where "grows (m_interner m) t" "interned t i" "names_of t i = (l, p, v)" "node_identity_ok i"
    "length (inames t) \<le> length (inames (m_interner m)) + 2" "c = node_canonical_key i"
    "m' = (set_delta \<rho> i (nd_resurrect (old_delta m (l, p, v))) (m\<lparr>m_interner := t\<rparr>))\<lparr>m_bytes := b\<rparr>"
proof -
  obtain i m1 where im: "intern_node l p v m = (i, m1)" by fastforce
  note n = intern_node_ok [OF assms(1-3) im]
  let ?c = "node_canonical_key i"
  define b where "b = (if fmlookup (m_nodes m1) ?c = None
      then m_bytes m1 + of_nat (length ?c) + size_NodeEntry lay else m_bytes m1)"
  have m2: "(if fmlookup (m_nodes m1) ?c = None
      then m1\<lparr>m_bytes := m_bytes m1 + of_nat (length ?c) + size_NodeEntry lay\<rparr> else m1) = m1\<lparr>m_bytes := b\<rparr>"
    by (simp add: b_def)
  let ?m2 = "m1\<lparr>m_bytes := b\<rparr>"
  have pre: "nodes_ok \<rho> ?m2" "interned (m_interner ?m2) i" "names_of (m_interner ?m2) i = (l, p, v)"
    "fits ?m2" "resolves \<rho> ?m2 (l, p, v) r" using n assms(4,5) by simp_all
  have old: "old_delta ?m2 (l, p, v) = old_delta m (l, p, v)"
    using n(7) node_at_interned [OF nodes_okD(1) [OF n(1)] n(2,3)] by (simp add: old_delta_def delta_at_def)
  have "(c, m') = (?c, touch_entry i ?c r ?m2)"
    using assms(6) by (simp only: touch_node_entry_def im Let_def m2 prod.case)
  then have c: "c = ?c" and m': "m' = set_delta \<rho> i (nd_resurrect (old_delta m (l, p, v))) ?m2"
    using touch_at [OF pre(1-3) n(4) pre(4,5)] old by simp_all
  show ?thesis
    using that [OF n(5,2,3,4,8) c] m' n(6) by (metis set_delta_bytes)
qed

lemma upd_delta_set_delta:
  assumes "nd_tombstoned (f nd) = nd_tombstoned nd"
  shows "upd_delta (node_canonical_key i) f ((set_delta \<rho> i nd m)\<lparr>m_bytes := b\<rparr>) = (set_delta \<rho> i (f nd) m)\<lparr>m_bytes := b\<rparr>"
  using assms
  by (auto simp: upd_delta_def set_delta_def Let_def put_entry_def push_born_def mark_def fresh_entry_def
      split: option.splits)

lemma touch_then_update:
  assumes "nodes_ok \<rho> m" "room 2 m" "value_storable v" "fits m" "resolves \<rho> m (l, p, v) r"
    "touch_node_entry lay l p v r m = (c, m1)"
    "\<not> nd_tombstoned (f (nd_resurrect (old_delta m (l, p, v))))"
  shows "assigns \<rho> (l, p, v) (f (nd_resurrect (old_delta m (l, p, v)))) m (upd_delta c f (m1\<lparr>m_bytes := b\<rparr>))"
proof -
  obtain i t b' where *: "grows (m_interner m) t" "interned t i" "names_of t i = (l, p, v)"
    "length (inames t) \<le> length (inames (m_interner m)) + 2" "c = node_canonical_key i"
    "m1 = (set_delta \<rho> i (nd_resurrect (old_delta m (l, p, v))) (m\<lparr>m_interner := t\<rparr>))\<lparr>m_bytes := b'\<rparr>"
    using touch_spec [OF assms(1-6)] by blast
  have "upd_delta c f (m1\<lparr>m_bytes := b\<rparr>) =
      (set_delta \<rho> i (f (nd_resurrect (old_delta m (l, p, v)))) (m\<lparr>m_interner := t\<rparr>))\<lparr>m_bytes := b\<rparr>"
    using upd_delta_set_delta [where f = f and nd = "nd_resurrect (old_delta m (l, p, v))"] assms(7)
    by (simp add: * resurrect_alive)
  then show ?thesis unfolding assigns_def using * by blast
qed

fun node_effect :: "wal_op \<Rightarrow> node_delta \<Rightarrow> node_delta" where
  "node_effect (UpsertNode _ _ _ ps) d = nd_set_all ps (nd_resurrect d)"
| "node_effect (RemoveNodeProps _ _ _ ps) d = nd_remove_all ps (nd_resurrect d)"
| "node_effect (ReplaceNode _ _ _ ps) d = nd_replace_all ps (nd_resurrect d)"
| "node_effect (SetNodeLabels _ _ _ a r) d = nd_drop_labels r (nd_add_labels a (nd_resurrect d))"
| "node_effect _ d = nd_tombstone"

lemma old_delta_ok: "nodes_ok \<rho> m \<Longrightarrow> key_ok k \<Longrightarrow> delta_ok (old_delta m k)"
  using node_at_Some(3) nodes_okD(6)
  by (fastforce simp: old_delta_def delta_at_def node_entry_ok_def split: option.splits)

lemma node_effect_ok: "delta_ok d \<Longrightarrow> delta_ok (node_effect op d)"
  by (cases op) (auto intro: live_delta_ok live_intros)

lemma delete_node_assigns:
  assumes "nodes_ok \<rho> m" "room 2 m" "value_storable v" "resolves \<rho> m (l, p, v) r"
    "node_at m (l, p, v) \<noteq> None \<or> r \<noteq> None"
  shows "assigns \<rho> (l, p, v) nd_tombstone m (delete_node lay l p v r m)"
proof -
  obtain i m1 where im: "intern_node l p v m = (i, m1)" by fastforce
  note n = intern_node_ok [OF assms(1-3) im]
  let ?c = "node_canonical_key i"
  have rs: "resolves \<rho> m1 (l, p, v) r" using n(9) assms(4) by blast
  have "\<exists>b. delete_node lay l p v r m = (set_delta \<rho> i nd_tombstone m1)\<lparr>m_bytes := b\<rparr>"
  proof (cases "fmlookup (m_nodes m1) ?c")
    case (Some e)
    obtain d where d: "entry_dense \<rho> (m_interner m1) e = Some d" "fmlookup (m_by_dense m1) d = Some ?c"
      "(case r of Some d \<Rightarrow> Some d | None \<Rightarrow> ne_synthetic e) = Some d" "r = Some d \<or> r = None"
      using resolves_stored [OF n(1-4) Some rs] by blast
    have "delete_node lay l p v r m = set_delta \<rho> i nd_tombstone m1"
      using d Some fmupd_id [OF d(2)]
      by (auto simp: delete_node_def im Let_def set_delta_def put_entry_def mark_def)
    then show ?thesis by (metis memtable.surjective memtable.update_convs(14))
  next
    case None
    then have na: "node_at m1 (l, p, v) = None" using node_at_interned [OF nodes_okD(1) [OF n(1)] n(2,3)] by simp
    then have "r = \<rho> (l, p, v)" "r \<noteq> None" using assms(5) rs n(7) None by (auto simp: resolves_def)
    then obtain d where d: "r = Some d" "\<rho> (l, p, v) = Some d" by (metis not_None_eq)
    then show ?thesis
      using None n(3)
      by (auto simp: delete_node_def im Let_def set_delta_def put_entry_def mark_def fresh_entry_def
          intro!: exI [of _ "m_bytes m1 + of_nat (length ?c) + size_NodeEntry lay"])
  qed
  then obtain b where "delete_node lay l p v r m = (set_delta \<rho> i nd_tombstone (m\<lparr>m_interner := m_interner m1\<rparr>))\<lparr>m_bytes := b\<rparr>"
    using n(6) by metis
  then show ?thesis unfolding assigns_def using n(2,3,5,8) by blast
qed

lemma delete_node_absent:
  assumes "nodes_ok \<rho> m" "room 2 m" "value_storable v" "node_at m (l, p, v) = None"
  shows "delete_node lay l p v None m = snd (intern_node l p v m)"
proof -
  obtain i m1 where im: "intern_node l p v m = (i, m1)" by fastforce
  show ?thesis using intern_node_ok(7) [OF assms(1-3) im] assms(4) by (simp add: delete_node_def im Let_def)
qed

text \<open>The five node operations, uniformly.\<close>

lemma node_op_assigns:
  assumes "nodes_ok \<rho> m" "room 2 m" "fits m" "wal_node_key op = Some k" "key_ok k" "resolves \<rho> m k r"
    "\<And>l p v. op = DeleteNode l p v \<Longrightarrow> node_at m k \<noteq> None \<or> r \<noteq> None"
  shows "\<exists>m'. apply_op lay op (ResNode r) m = Some m' \<and> assigns \<rho> k (node_effect op (old_delta m k)) m m'"
proof -
  obtain l p v where k: "k = (l, p, v)" by (metis prod_cases3)
  have v: "value_storable v" using assms(5) by (simp add: k key_ok_def)
  have rs: "resolves \<rho> m (l, p, v) r" using assms(6) k by simp
  obtain c m1 where t: "touch_node_entry lay l p v r m = (c, m1)" by fastforce
  let ?d = "nd_resurrect (old_delta m (l, p, v))"
  have live: "live_ok ?d" using live_resurrect [OF old_delta_ok [OF assms(1,5)]] k by simp
  note step = touch_then_update [OF assms(1,2) v assms(3) rs t]
  show ?thesis
  proof (cases op)
    case (UpsertNode l' p' v' ps)
    have "\<not> nd_tombstoned (nd_set_all ps ?d)" using live_set_all [OF live] by (simp add: live_ok_def)
    from step [of "nd_set_all ps", OF this] show ?thesis using UpsertNode assms(4) k by (simp add: upsert_node_def t)
  next
    case (DeleteNode l' p' v')
    then show ?thesis using delete_node_assigns [OF assms(1,2) v rs] assms(4,7) k by simp
  next
    case (RemoveNodeProps l' p' v' ps)
    have *: "\<not> nd_tombstoned (nd_remove_all ps ?d)" using live_remove_all [OF live] by (simp add: live_ok_def)
    note step [of "nd_remove_all ps", OF *]
    then show ?thesis using step [of "nd_remove_all ps", OF *, of "m_bytes m1"] RemoveNodeProps assms(4) k
      by (simp add: remove_node_props_def t Let_def)
  next
    case (ReplaceNode l' p' v' ps)
    have "\<not> nd_tombstoned (nd_replace_all ps ?d)" using live_replace_all [OF live] by (simp add: live_ok_def)
    from step [of "nd_replace_all ps", OF this] show ?thesis using ReplaceNode assms(4) k by (simp add: replace_node_def t)
  next
    case (SetNodeLabels l' p' v' a dr)
    have "\<not> nd_tombstoned (nd_drop_labels dr (nd_add_labels a ?d))"
      using live_drop_labels [OF live_add_labels [OF live]] by (simp add: live_ok_def)
    from step [of "\<lambda>d. nd_drop_labels dr (nd_add_labels a d)", OF this]
    show ?thesis using SetNodeLabels assms(4) k by (simp add: set_node_labels_def t)
  qed (use assms(4) in simp_all)
qed

lemma assigns_effect:
  assumes "nodes_ok \<rho> m" "fits m" "key_ok k" "delta_ok nd" "assigns \<rho> k nd m m'"
  shows "nodes_ok \<rho> m'" "key_ok k' \<Longrightarrow> delta_at m' k' = (if k' = k then Some nd else delta_at m k')"
proof -
  obtain i t b where *: "grows (m_interner m) t" "interned t i" "names_of t i = k"
    "m' = (set_delta \<rho> i nd (m\<lparr>m_interner := t\<rparr>))\<lparr>m_bytes := b\<rparr>"
    using assms(5) unfolding assigns_def by blast
  have ok: "nodes_ok \<rho> (m\<lparr>m_interner := t\<rparr>)" using nodes_ok_grow [OF assms(1) *(1)] .
  have i: "node_identity_ok i" using *(3) assms(3) by (auto simp: node_identity_ok_def names_of_def key_ok_def)
  show "nodes_ok \<rho> m'"
    using set_delta_ok [OF ok _ i assms(4)] *(2,4) assms(2) by (simp add: fits_def)
  assume k': "key_ok k'"
  show "delta_at m' k' = (if k' = k then Some nd else delta_at m k')"
    using delta_at_set_delta [OF ok _ i assms(4) _ k'] *(2-4) assms(2) node_at_grow [OF assms(1) *(1) k']
    by (simp add: fits_def delta_at_def)
qed

lemma with_bases_ok: "resolver_ok \<rho> b \<Longrightarrow> nodes_ok \<rho> (with_bases b eb)"
  by (simp add: nodes_ok_def with_bases_def interner_new_ok dense_ok_def born_ok_def tallies_ok_def
      unat_u64_less [THEN less_imp_le, simplified])

section \<open>Reads agree with the map\<close>

definition dense_of :: "resolver \<Rightarrow> memtable \<Rightarrow> node_key \<Rightarrow> u64 option" where
  "dense_of \<rho> m k = (case \<rho> k of Some d \<Rightarrow> Some d | None \<Rightarrow> Option.bind (node_at m k) ne_synthetic)"

lemma dense_of_stored:
  assumes "nodes_ok \<rho> m" "key_ok k" "node_at m k = Some e" "dense_of \<rho> m k = Some d"
  shows "fmlookup (m_by_dense m) d = Some (node_canonical_key (ne_identity e))"
    "fmlookup (m_nodes m) (node_canonical_key (ne_identity e)) = Some e"
proof -
  note e = node_at_Some [OF assms(1-3)]
  show st: "fmlookup (m_nodes m) (node_canonical_key (ne_identity e)) = Some e" by (fact e(3))
  have "entry_dense \<rho> (m_interner m) e = Some d"
    using assms(3,4) e(2) by (cases "\<rho> k") (simp_all add: entry_dense_def dense_of_def)
  then show "fmlookup (m_by_dense m) d = Some (node_canonical_key (ne_identity e))"
    using nodes_okD(6) [OF assms(1) st] unfolding node_entry_ok_def by (metis option.inject)
qed

lemma dense_of_absent:
  assumes "nodes_ok \<rho> m" "key_ok k" "node_at m k = None" "dense_of \<rho> m k = Some d"
  shows "fmlookup (m_by_dense m) d = None"
proof (rule ccontr)
  assume "fmlookup (m_by_dense m) d \<noteq> None"
  then obtain c where c: "fmlookup (m_by_dense m) d = Some c" by blast
  obtain e where e: "fmlookup (m_nodes m) c = Some e" "entry_dense \<rho> (m_interner m) e = Some d"
    "node_entry_ok \<rho> m c e" using by_denseD [OF assms(1) c] .
  have r: "\<rho> k = Some d" using assms(3,4) by (simp add: dense_of_def split: option.splits)
  have "ne_synthetic e \<noteq> Some d" using synthetic_not_below [OF assms(1) e(1)] core_id_below [OF assms(1) r] by (meson leD)
  then have "\<rho> (names_of (m_interner m) (ne_identity e)) = Some d"
    using e(2) by (simp add: entry_dense_def split: option.splits)
  then have k: "names_of (m_interner m) (ne_identity e) = k" by (rule resolver_okD(2) [OF nodes_okD(2) [OF assms(1)] r])
  have "node_at m k = fmlookup (m_nodes m) c"
    using node_at_interned [OF nodes_okD(1) [OF assms(1)] _ k] e(3) by (simp add: node_entry_ok_def)
  then show False using assms(3) e(1) by simp
qed

lemma names_of_key_ok: "node_identity_ok i \<Longrightarrow> key_ok (names_of t i)"
  by (simp add: node_identity_ok_def key_ok_def names_of_def)

lemma identity_by_dense:
  "fmlookup (m_by_dense m) d = Some c \<Longrightarrow> fmlookup (m_nodes m) c = Some e \<Longrightarrow>
   node_identity_by_dense m d = Some (names_of (m_interner m) (ne_identity e))"
  by (simp add: node_identity_by_dense_def names_of_def name_or_empty_def)

lemma read_stored_id:
  assumes "nodes_ok \<rho> m" "fmlookup (m_by_dense m) d = Some c"
  obtains k e where "key_ok k" "dense_of \<rho> m k = Some d" "node_at m k = Some e" "fmlookup (m_nodes m) c = Some e"
    "node_identity_by_dense m d = Some k"
proof -
  obtain e where e: "fmlookup (m_nodes m) c = Some e" "entry_dense \<rho> (m_interner m) e = Some d" "node_entry_ok \<rho> m c e"
    using by_denseD [OF assms] .
  let ?k = "names_of (m_interner m) (ne_identity e)"
  have "node_at m ?k = Some e"
    using node_at_interned [OF nodes_okD(1) [OF assms(1)] _ refl] e by (simp add: node_entry_ok_def)
  moreover have "dense_of \<rho> m ?k = Some d" using e(2) calculation by (cases "\<rho> ?k") (simp_all add: entry_dense_def dense_of_def)
  moreover have "key_ok ?k" using e(3) by (simp add: node_entry_ok_def names_of_key_ok)
  ultimately show ?thesis using that e(1) identity_by_dense [OF assms(2) e(1)] by blast
qed

lemma node_patch_by_key:
  assumes "nodes_ok \<rho> m"
  shows "(\<forall>k d. key_ok k \<longrightarrow> dense_of \<rho> m k = Some d \<longrightarrow> node_patch m d = delta_at m k \<and>
      (d |\<in>| m_tombs m \<longleftrightarrow> map_option nd_tombstoned (delta_at m k) = Some True)) \<and>
    (\<forall>d nd. node_patch m d = Some nd \<longrightarrow> (\<exists>k. node_identity_by_dense m d = Some k \<and> key_ok k \<and>
      dense_of \<rho> m k = Some d \<and> delta_at m k = Some nd))"
proof (intro conjI allI impI)
  fix k d assume k: "key_ok k" "dense_of \<rho> m k = Some d"
  have t: "d |\<in>| m_tombs m \<longleftrightarrow> (\<exists>c. fmlookup (m_by_dense m) d = Some c \<and> is_tombstoned_ck m c)"
    using nodes_okD(5) [OF assms] by (simp add: tallies_ok_def)
  show "node_patch m d = delta_at m k"
  proof (cases "node_at m k")
    case None
    then show ?thesis using dense_of_absent [OF assms k(1) None k(2)] by (simp add: node_patch_def delta_at_def)
  next
    case (Some e)
    then show ?thesis using dense_of_stored [OF assms k(1) Some k(2)] by (simp add: node_patch_def delta_at_def)
  qed
  show "d |\<in>| m_tombs m \<longleftrightarrow> map_option nd_tombstoned (delta_at m k) = Some True"
  proof (cases "node_at m k")
    case None
    then show ?thesis using t dense_of_absent [OF assms k(1) None k(2)] by (simp add: delta_at_def)
  next
    case (Some e)
    then show ?thesis using t dense_of_stored [OF assms k(1) Some k(2)] by (simp add: is_tombstoned_ck_def delta_at_def)
  qed
next
  fix d nd assume p: "node_patch m d = Some nd"
  then obtain c where c: "fmlookup (m_by_dense m) d = Some c" by (auto simp: node_patch_def Option.bind_eq_Some_conv)
  show "\<exists>k. node_identity_by_dense m d = Some k \<and> key_ok k \<and> dense_of \<rho> m k = Some d \<and> delta_at m k = Some nd"
    using read_stored_id [OF assms c] p c by (fastforce simp: node_patch_def delta_at_def)
qed

section \<open>An example\<close>

text \<open>A core of five nodes, one of them the person with key 1, and a level in which the person with key 2
  was born.\<close>

definition ex_layout :: layout where
  "ex_layout = \<lparr>size_NodeEntry = 200, size_EdgeEntry = 300\<rparr>"

definition ex_person :: "i64 \<Rightarrow> node_key" where
  "ex_person n = (ascii ''Person'', ascii ''id'', VInt n)"

definition ex_resolver :: resolver where
  "ex_resolver k = (if k = ex_person 1 then Some 3 else None)"

definition ex_op :: "i64 \<Rightarrow> wal_op" where
  "ex_op n = UpsertNode (ascii ''Person'') (ascii ''id'') (VInt n) [(ascii ''age'', VInt 40)]"

definition ex_mem :: memtable where
  "ex_mem = the (apply_op ex_layout (ex_op 2) (ResNode None) (with_bases 5 0))"

lemma ex_resolver_ok: "resolver_ok ex_resolver 5"
  by (simp add: resolver_ok_def ex_resolver_def ex_person_def)

lemma ex_key_ok: "key_ok (ex_person n)"
  by (simp add: key_ok_def ex_person_def value_storable_def MAX_VALUE_DEPTH_def)

lemma ex_base:
  "nodes_ok ex_resolver (with_bases 5 0)" "room 2 (with_bases 5 0)" "fits (with_bases 5 0)"
  "node_at (with_bases 5 0) k = None"
  using with_bases_ok [OF ex_resolver_ok]
  by (simp_all add: room_def fits_def with_bases_def interner_new_ok node_at_def split: prod.splits)
    (simp_all add: interner_new_def interner_get_def)

lemma ex_op_key: "wal_node_key (ex_op n) = Some (ex_person n)"
  by (simp add: ex_op_def ex_person_def)

lemma ex_mem_ok: "nodes_ok ex_resolver ex_mem"
proof -
  have "ex_resolver (ex_person 2) = None" by (simp add: ex_resolver_def ex_person_def)
  then have "resolves ex_resolver (with_bases 5 0) (ex_person 2) None" by (simp add: resolves_def)
  from node_op_assigns [OF ex_base(1-3) ex_op_key ex_key_ok this, of ex_layout]
  obtain m' where "apply_op ex_layout (ex_op 2) (ResNode None) (with_bases 5 0) = Some m'"
    "assigns ex_resolver (ex_person 2) (node_effect (ex_op 2) (old_delta (with_bases 5 0) (ex_person 2))) (with_bases 5 0) m'"
    by (auto simp: ex_op_def)
  then show ?thesis
    using assigns_effect(1) [OF ex_base(1,3) ex_key_ok node_effect_ok [OF old_delta_ok [OF ex_base(1) ex_key_ok]]]
    by (simp add: ex_mem_def)
qed

section \<open>Properties of the node operations\<close>

text \<open>C12: Every node operation of the log, applied with the dense id the write path resolves for its key,
  is one update of a map from business keys to deltas: the key's delta becomes the operation's effect
  on the old one (an empty delta if there was none), every other key keeps its delta, and the
  memtable's invariant is preserved: one dense id per entry and back, born ids tiling the synthetic
  range, tombstone and label tallies equal to what the stores say. A deletion of a key that exists
  nowhere changes no delta.\<close>

theorem node_ops_refine_delta_map:
  assumes "nodes_ok \<rho> m" "room 2 m" "fits m" "wal_node_key op = Some k" "key_ok k" "resolves \<rho> m k r"
  shows "\<exists>m'. apply_op lay op (ResNode r) m = Some m' \<and> nodes_ok \<rho> m' \<and>
    (\<forall>k'. key_ok k' \<longrightarrow> delta_at m' k' =
      (if k' = k \<and> \<not> ((\<exists>l p v. op = DeleteNode l p v) \<and> delta_at m k = None \<and> r = None)
       then Some (node_effect op (old_delta m k)) else delta_at m k'))"
proof (cases "(\<exists>l p v. op = DeleteNode l p v) \<and> delta_at m k = None \<and> r = None")
  case False
  then have "\<exists>m'. apply_op lay op (ResNode r) m = Some m' \<and> assigns \<rho> k (node_effect op (old_delta m k)) m m'"
    by (intro node_op_assigns [OF assms]) (auto simp: delta_at_def)
  then obtain m' where m': "apply_op lay op (ResNode r) m = Some m'" "assigns \<rho> k (node_effect op (old_delta m k)) m m'"
    by blast
  note e = assigns_effect [OF assms(1,3,5) node_effect_ok [OF old_delta_ok [OF assms(1,5)]] m'(2)]
  show ?thesis using m'(1) e False by auto
next
  case True
  then obtain l p v where op: "op = DeleteNode l p v" "k = (l, p, v)" "r = None" "node_at m k = None"
    using assms(4) by (auto simp: delta_at_def)
  have v: "value_storable v" using assms(5) op by (simp add: key_ok_def)
  obtain i m1 where im: "intern_node l p v m = (i, m1)" by fastforce
  note n = intern_node_ok [OF assms(1,2) v im]
  have "apply_op lay op (ResNode r) m = Some m1"
    using delete_node_absent [OF assms(1,2) v] op im by simp
  moreover have "delta_at m1 k' = delta_at m k'" if "key_ok k'" for k'
    using node_at_grow [OF assms(1) n(5) that] n(6) by (simp add: delta_at_def)
  ultimately show ?thesis using n(1) True by auto
qed

theorem node_ops_refine_delta_map_witness:
  "\<exists>m'. apply_op ex_layout (ex_op 1) (ResNode (Some 3)) (with_bases 5 0) = Some m' \<and> nodes_ok ex_resolver m' \<and>
     delta_at m' (ex_person 1) = Some (nd_set_all [(ascii ''age'', VInt 40)] nd_default) \<and>
     delta_at m' (ex_person 2) = None"
proof -
  have r: "resolves ex_resolver (with_bases 5 0) (ex_person 1) (Some 3)" by (simp add: resolves_def ex_resolver_def)
  show ?thesis
    using node_ops_refine_delta_map [OF ex_base(1-3) ex_op_key ex_key_ok r, of ex_layout] ex_key_ok
    by (fastforce simp: ex_op_def old_delta_def delta_at_def ex_base ex_person_def)
qed

text \<open>C24: A read by dense id is a read by business key. The delta found under the id a key resolves to is
  the key's delta, the tombstone set holds the id exactly when that delta is a deletion, and every id
  the memtable answers for belongs to exactly one key, which the identity read recovers.\<close>

theorem node_patch_reads_by_key:
  assumes "nodes_ok \<rho> m"
  shows "(\<forall>k d. key_ok k \<longrightarrow> dense_of \<rho> m k = Some d \<longrightarrow> node_patch m d = delta_at m k \<and>
      (d |\<in>| m_tombs m \<longleftrightarrow> map_option nd_tombstoned (delta_at m k) = Some True)) \<and>
    (\<forall>d nd. node_patch m d = Some nd \<longrightarrow> (\<exists>k. node_identity_by_dense m d = Some k \<and> key_ok k \<and>
      dense_of \<rho> m k = Some d \<and> delta_at m k = Some nd))"
  by (rule node_patch_by_key [OF assms])

theorem node_patch_reads_by_key_witness:
  "node_patch ex_mem 5 = delta_at ex_mem (ex_person 2) \<and> 5 |\<notin>| m_tombs ex_mem"
proof -
  have "dense_of ex_resolver ex_mem (ex_person 2) = Some 5"
    by code_simp
  moreover have "map_option nd_tombstoned (delta_at ex_mem (ex_person 2)) = Some False" by code_simp
  ultimately show ?thesis using node_patch_reads_by_key [OF ex_mem_ok] ex_key_ok by fastforce
qed

lemma rebuild_derived_id:
  assumes "nodes_ok \<rho> m"
  shows "rebuild_derived m = m"
proof -
  note t = nodes_okD(5) [OF assms, unfolded tallies_ok_def]
  have "fmdom (fmfilter (\<lambda>d. case fmlookup (m_by_dense m) d of None \<Rightarrow> False | Some c \<Rightarrow> is_tombstoned_ck m c) (m_by_dense m))
      = m_tombs m"
    using t by (auto simp: fset_eq_iff fmlookup_dom_iff split: option.splits)
  then show ?thesis using t by (simp add: rebuild_derived_def)
qed



text \<open>The synthetic ids given out are exactly the ids from the base upwards, one per born node in order
  of birth: no id is given twice, skipped, or below the base.\<close>

theorem born_ids_tile_range:
  assumes "nodes_ok \<rho> m"
  shows "bij_betw (\<lambda>(l, p, v). unat (the (born_synthetic_for_identity m l p v)))
    {(l, p, v). key_ok (l, p, v) \<and> born_synthetic_for_identity m l p v \<noteq> None}
    {unat (m_base m) ..< unat (m_base m) + length (m_born m)}"
proof -
  have bs: "born_synthetic_for_identity m l p v = Option.bind (node_at m (l, p, v)) ne_synthetic" for l p v
    by (simp add: born_synthetic_for_identity_def node_at_def bind_assoc split: Option.bind_split)
  let ?f = "\<lambda>k. unat (the (Option.bind (node_at m k) ne_synthetic))"
  let ?K = "{k. key_ok k \<and> Option.bind (node_at m k) ne_synthetic \<noteq> None}"
  have st: "\<exists>e d i. node_at m k = Some e \<and> ne_synthetic e = Some d \<and> i < length (m_born m) \<and>
      node_canonical_key (ne_identity e) = m_born m ! i \<and> unat d = unat (m_base m) + i" if "k \<in> ?K" for k
  proof -
    have "Option.bind (node_at m k) ne_synthetic \<noteq> None" "key_ok k" using that by simp_all
    then obtain d where "Option.bind (node_at m k) ne_synthetic = Some d" by blast
    then obtain e where e: "node_at m k = Some e" "ne_synthetic e = Some d" by (auto simp: Option.bind_eq_Some_conv)
    note \<open>key_ok k\<close>
    from node_at_Some(3) [OF assms this e(1)]
    show ?thesis using synthetic_range [OF nodes_okD(4) [OF assms] _ e(2)] e by metis
  qed
  have inj: "k = k'" if kk: "k \<in> ?K" "k' \<in> ?K" "?f k = ?f k'" for k k'
  proof -
    obtain e d i where e: "node_at m k = Some e" "ne_synthetic e = Some d" "i < length (m_born m)"
      "node_canonical_key (ne_identity e) = m_born m ! i" "unat d = unat (m_base m) + i" using st [OF kk(1)] by blast
    obtain e' d' i' where e': "node_at m k' = Some e'" "ne_synthetic e' = Some d'" "i' < length (m_born m)"
      "node_canonical_key (ne_identity e') = m_born m ! i'" "unat d' = unat (m_base m) + i'" using st [OF kk(2)] by blast
    have "i = i'" using kk(3) e e' by simp
    then have "node_canonical_key (ne_identity e) = node_canonical_key (ne_identity e')" using e(4) e'(4) by simp
    moreover have kok: "key_ok k" "key_ok k'" using kk by simp_all
    ultimately have "e = e'"
      using node_at_Some(3) [OF assms kok(1) e(1)] node_at_Some(3) [OF assms kok(2) e'(1)] by (metis option.inject)
    then show ?thesis using node_at_Some(2) [OF assms kok(1) e(1)] node_at_Some(2) [OF assms kok(2) e'(1)] by metis
  qed
  have onto: "\<exists>k \<in> ?K. n = ?f k" if "n \<in> {unat (m_base m) ..< unat (m_base m) + length (m_born m)}" for n
  proof -
    define i where "i = n - unat (m_base m)"
    have i: "i < length (m_born m)" "n = unat (m_base m) + i" using that by (auto simp: i_def)
    then obtain e where e: "fmlookup (m_nodes m) (m_born m ! i) = Some e" "ne_synthetic e = Some (m_base m + of_nat i)"
      using nodes_okD(4) [OF assms] by (auto simp: born_ok_def)
    have ok: "node_entry_ok \<rho> m (m_born m ! i) e" using nodes_okD(6) [OF assms e(1)] .
    let ?k = "names_of (m_interner m) (ne_identity e)"
    have na: "node_at m ?k = Some e"
      using node_at_interned [OF nodes_okD(1) [OF assms] _ refl] ok e(1) by (simp add: node_entry_ok_def)
    have "unat (m_base m) + i < 2 ^ 64" using nodes_okD(4) [OF assms] i(1) by (simp add: born_ok_def)
    then have "unat (m_base m + of_nat i) = n"
      using i(2) unat_of_nat_u64 [of i] by (simp add: unat_word_ariths)
    then have "n = ?f ?k" using na e(2) by simp
    moreover have "?k \<in> ?K" using na e(2) ok by (simp add: node_entry_ok_def names_of_key_ok)
    ultimately show ?thesis by blast
  qed
  have "bij_betw ?f ?K {unat (m_base m) ..< unat (m_base m) + length (m_born m)}"
  proof (rule bij_betw_imageI)
    show "inj_on ?f ?K" by (rule inj_onI) (rule inj)
    show "?f ` ?K = {unat (m_base m) ..< unat (m_base m) + length (m_born m)}"
    proof (intro equalityI subsetI)
      fix n assume "n \<in> ?f ` ?K"
      then obtain k where k: "k \<in> ?K" "n = ?f k" by blast
      then obtain e d i where "node_at m k = Some e" "ne_synthetic e = Some d" "i < length (m_born m)"
        "unat d = unat (m_base m) + i" using st [OF k(1)] by blast
      then show "n \<in> {unat (m_base m) ..< unat (m_base m) + length (m_born m)}" using k(2) by simp
    next
      fix n assume "n \<in> {unat (m_base m) ..< unat (m_base m) + length (m_born m)}"
      then show "n \<in> ?f ` ?K" using onto by blast
    qed
  qed
  then show ?thesis by (simp add: bs case_prod_unfold split_beta)
qed

theorem born_ids_tile_range_witness:
  "card {(l, p, v). key_ok (l, p, v) \<and> born_synthetic_for_identity ex_mem l p v \<noteq> None} = length (m_born ex_mem)"
  using bij_betw_same_card [OF born_ids_tile_range [OF ex_mem_ok]] by simp


end
