(* ===== verification/Memtable_Edges.thy ===== *)
theory Memtable_Edges
  imports Memtable_Nodes
begin

text \<open>
  The edge half of the memtable's invariant. A second resolver \<open>\<sigma>\<close> gives the core edge an edge identity
  already has, if any. Born edges tile the synthetic edge ids, every entry hangs in the adjacency of
  both its endpoints unless it only patches a core edge, and core patches are indexed by core edge id.
  Every edge operation is one assignment of a delta to one edge identity.
\<close>

section \<open>Names\<close>

type_synonym edge_key = "node_key \<times> str \<times> node_key \<times> (str \<times> Value) option"

definition sym_name :: "interner \<Rightarrow> SymbolId \<Rightarrow> str" where
  "sym_name t s = case_option [] (\<lambda>n. n) (interner_name t s)"

definition edge_names :: "interner \<Rightarrow> edge_identity \<Rightarrow> edge_key" where
  "edge_names t i = (names_of t (esrc i), sym_name t (ereltype i), names_of t (edst i),
     map_option (\<lambda>(k, v). (sym_name t k, v)) (ekey i))"

definition edge_interned :: "interner \<Rightarrow> edge_identity \<Rightarrow> bool" where
  "edge_interned t i \<longleftrightarrow> interned t (esrc i) \<and> interner_name t (ereltype i) \<noteq> None \<and> interned t (edst i) \<and>
     (case ekey i of None \<Rightarrow> True | Some (k, _) \<Rightarrow> interner_name t k \<noteq> None)"

lemma edge_names_inj:
  assumes "interner_ok t" "edge_interned t i" "edge_interned t j" "edge_names t i = edge_names t j"
  shows "i = j"
proof -
  have "esrc i = esrc j" "edst i = edst j"
    using assms names_of_inj [OF assms(1)] by (simp_all add: edge_names_def edge_interned_def)
  moreover have "ereltype i = ereltype j"
    using assms interner_name_inj [OF assms(1)] by (auto simp: edge_names_def edge_interned_def sym_name_def)
  moreover have "ekey i = ekey j"
    using assms interner_name_inj [OF assms(1)]
    by (auto simp: edge_names_def edge_interned_def sym_name_def split: option.splits)
  ultimately show ?thesis by simp
qed

lemma grows_edge:
  assumes "grows t t'" "edge_interned t i"
  shows "edge_interned t' i" "edge_names t' i = edge_names t i"
  using assms grows_interned [OF assms(1)] grows_names_of [OF assms(1)]
  by (auto simp: edge_interned_def edge_names_def sym_name_def grows_def split: option.splits)

definition edge_ident :: "interner \<Rightarrow> edge_key \<Rightarrow> edge_identity option" where
  "edge_ident t ek = (case ek of ((sl, sp, sv), r, (dl, dp, dv), k) \<Rightarrow>
     Option.bind (interner_get t sl) (\<lambda>a. Option.bind (interner_get t sp) (\<lambda>b.
     Option.bind (interner_get t r) (\<lambda>r'. Option.bind (interner_get t dl) (\<lambda>c.
     Option.bind (interner_get t dp) (\<lambda>d. case k of
       None \<Rightarrow> Some (EdgeIdentity_keyed (NodeIdentity_new a b sv) r' (NodeIdentity_new c d dv) None)
     | Some (n, v) \<Rightarrow> Option.bind (interner_get t n) (\<lambda>n'.
         Some (EdgeIdentity_keyed (NodeIdentity_new a b sv) r' (NodeIdentity_new c d dv) (Some (n', v))))))))))"

lemma edge_ident_interned:
  assumes "interner_ok t" "edge_interned t i" "edge_names t i = ek"
  shows "edge_ident t ek = Some i"
proof -
  have g: "interner_name t s = Some n \<Longrightarrow> interner_get t n = Some s" for s n
    using interner_ok_name [OF assms(1)] by (simp add: interner_get_def)
  obtain s r d k where i: "i = \<lparr>esrc = s, ereltype = r, edst = d, ekey = k\<rparr>" by (cases i)
  obtain sl sp where s: "interner_name t (nlabel s) = Some sl" "interner_name t (nkey s) = Some sp"
    using assms(2) i by (auto simp: edge_interned_def interned_def)
  obtain dl dp where d: "interner_name t (nlabel d) = Some dl" "interner_name t (nkey d) = Some dp"
    using assms(2) i by (auto simp: edge_interned_def interned_def)
  obtain rn where r: "interner_name t r = Some rn" using assms(2) i by (auto simp: edge_interned_def)
  have id: "NodeIdentity_new (nlabel x) (nkey x) (nvalue x) = x" for x by (simp add: NodeIdentity_new_def)
  show ?thesis
  proof (cases k)
    case None
    then show ?thesis using assms(3) s d r i
      by (auto simp: edge_names_def names_of_def sym_name_def edge_ident_def g id EdgeIdentity_keyed_def)
  next
    case (Some kv)
    obtain q v where kv: "kv = (q, v)" by fastforce
    obtain n where "interner_name t q = Some n" using assms(2) i Some kv by (auto simp: edge_interned_def)
    then show ?thesis using assms(3) s d r i Some kv
      by (auto simp: edge_names_def names_of_def sym_name_def edge_ident_def g id EdgeIdentity_keyed_def)
  qed
qed

lemma edge_ident_Some:
  assumes "interner_ok t" "edge_ident t ek = Some i"
  shows "edge_interned t i" "edge_names t i = ek"
proof -
  have g: "interner_get t n = Some s \<Longrightarrow> interner_name t s = Some n" for s n
    using interner_ok_name [OF assms(1)] by (simp add: interner_get_def)
  obtain sl sp sv r dl dp dv k where ek: "ek = ((sl, sp, sv), r, (dl, dp, dv), k)" by (cases ek) auto
  obtain a b r' c d where *: "interner_get t sl = Some a" "interner_get t sp = Some b" "interner_get t r = Some r'"
    "interner_get t dl = Some c" "interner_get t dp = Some d"
    "(case k of None \<Rightarrow> Some (EdgeIdentity_keyed (NodeIdentity_new a b sv) r' (NodeIdentity_new c d dv) None)
     | Some (n, v) \<Rightarrow> Option.bind (interner_get t n) (\<lambda>n'.
         Some (EdgeIdentity_keyed (NodeIdentity_new a b sv) r' (NodeIdentity_new c d dv) (Some (n', v))))) = Some i"
    using assms(2) unfolding ek edge_ident_def prod.case Option.bind_eq_Some_conv by blast
  note n = *(1-5) [THEN g]
  show "edge_interned t i" "edge_names t i = ek"
  proof (atomize (full), cases k)
    case None
    then show "edge_interned t i \<and> edge_names t i = ek" using *(6) n
      by (auto simp: ek EdgeIdentity_keyed_def NodeIdentity_new_def edge_interned_def interned_def edge_names_def
          names_of_def sym_name_def)
  next
    case (Some kv)
    obtain q v where kv: "kv = (q, v)" by fastforce
    obtain q' where q: "interner_get t q = Some q'"
      "i = EdgeIdentity_keyed (NodeIdentity_new a b sv) r' (NodeIdentity_new c d dv) (Some (q', v))"
      using *(6) Some kv by (auto simp: Option.bind_eq_Some_conv)
    show "edge_interned t i \<and> edge_names t i = ek" using q(2) g [OF q(1)] n Some kv
      by (simp add: ek EdgeIdentity_keyed_def NodeIdentity_new_def edge_interned_def interned_def edge_names_def
          names_of_def sym_name_def)
  qed
qed

definition edge_key_storable :: "edge_key \<Rightarrow> bool" where
  "edge_key_storable ek \<longleftrightarrow> (case ek of (s, _, d, k) \<Rightarrow> key_ok s \<and> key_ok d \<and>
     (case k of None \<Rightarrow> True | Some (_, v) \<Rightarrow> value_storable v))"

lemma edge_names_storable: "edge_identity_ok i \<longleftrightarrow> edge_key_storable (edge_names t i)"
  by (auto simp: edge_identity_ok_def edge_key_storable_def edge_names_def key_ok_def names_of_def
      node_identity_ok_def split: option.splits)

lemma intern_edge_identity_spec:
  assumes "intern_edge_identity src rt dst ek m = (i, m')" "room (n + 6) m"
  shows "grows (m_interner m) (m_interner m')" "m' = m\<lparr>m_interner := m_interner m'\<rparr>"
    "edge_interned (m_interner m') i" "edge_names (m_interner m') i = (src, rt, dst, ek)" "room n m'"
proof -
  obtain sl sp sv dl dp dv where sd: "src = (sl, sp, sv)" "dst = (dl, dp, dv)" by (metis prod_cases3)
  obtain s m1 where 1: "intern_node sl sp sv m = (s, m1)" by fastforce
  obtain r t where 2: "intern rt (m_interner m1) = (r, t)" by fastforce
  obtain d m2 where 3: "intern_node dl dp dv (m1\<lparr>m_interner := t\<rparr>) = (d, m2)" by fastforce
  have "room ((n + 4) + 2) m" using assms(2) by (simp add: room_def)
  note s = intern_node_spec [OF 1 this]
  have l1: "interner_ok (m_interner m1)" "length (inames (m_interner m1)) < 2 ^ 32"
    using s(5) by (simp_all add: room_def)
  have g1: "grows (m_interner m1) t" using intern_grows [OF l1, of rt] 2 by simp
  have "length (inames t) \<le> Suc (length (inames (m_interner m1)))" using intern_growth [of rt "m_interner m1"] 2 by simp
  then have "room ((n + 1) + 2) (m1\<lparr>m_interner := t\<rparr>)" using s(5) grows_ok [OF g1] by (simp add: room_def)
  note d = intern_node_spec [OF 3 this]
  have nr: "interner_name t r = Some rt" using intern_name [OF l1, of rt] 2 by simp
  have g2: "grows t (m_interner m2)" using d(1) by simp
  have nr2: "interner_name (m_interner m2) r = Some rt" using g2 nr by (simp add: grows_def)
  have g: "grows (m_interner m) (m_interner m2)" using grows_trans [OF s(1) grows_trans [OF g1 g2]] .
  have s2: "interned (m_interner m2) s" "names_of (m_interner m2) s = src"
    using grows_interned [OF grows_trans [OF g1 g2] s(3)] grows_names_of [OF grows_trans [OF g1 g2] s(3)] s(4) sd by simp_all
  have m2: "m2 = m\<lparr>m_interner := m_interner m2\<rparr>" by (subst d(2), subst s(2)) simp
  have "grows (m_interner m) (m_interner m') \<and> m' = m\<lparr>m_interner := m_interner m'\<rparr> \<and>
      edge_interned (m_interner m') i \<and> edge_names (m_interner m') i = (src, rt, dst, ek) \<and> room n m'"
  proof (cases ek)
    case None
    then have "i = EdgeIdentity_keyed s r d None" "m' = m2" using assms(1) sd 1 2 3 by (simp_all add: intern_edge_identity_def)
    then show ?thesis
      using g m2 s2 d(3-5) nr2 None sd
      by (simp add: edge_interned_def edge_names_def EdgeIdentity_keyed_def sym_name_def room_def)
  next
    case (Some kv)
    obtain q v where kv: "kv = (q, v)" by fastforce
    obtain k t' where 4: "intern q (m_interner m2) = (k, t')" by fastforce
    have i: "i = EdgeIdentity_keyed s r d (Some (k, v))" "m' = m2\<lparr>m_interner := t'\<rparr>"
      using assms(1) sd 1 2 3 4 Some kv by (simp_all add: intern_edge_identity_def)
    have l2: "interner_ok (m_interner m2)" "length (inames (m_interner m2)) < 2 ^ 32" using d(5) by (simp_all add: room_def)
    have g3: "grows (m_interner m2) t'" using intern_grows [OF l2, of q] 4 by simp
    have nk: "interner_name t' k = Some q" using intern_name [OF l2, of q] 4 by simp
    have "length (inames t') \<le> Suc (length (inames (m_interner m2)))" using intern_growth [of q "m_interner m2"] 4 by simp
    then have rm: "room n m'" using d(5) i grows_ok [OF g3] by (simp add: room_def)
    have "interner_name t' r = Some rt" using g3 nr2 by (simp add: grows_def)
    moreover have "m' = m\<lparr>m_interner := t'\<rparr>" using i by (subst i(2), subst m2) simp
    ultimately show ?thesis
      using grows_trans [OF g g3] grows_interned [OF g3] grows_names_of [OF g3] s2 d(3,4) nk Some kv sd rm i
      by (simp add: edge_interned_def edge_names_def EdgeIdentity_keyed_def sym_name_def)
  qed
  then show "grows (m_interner m) (m_interner m')" "m' = m\<lparr>m_interner := m_interner m'\<rparr>"
    "edge_interned (m_interner m') i" "edge_names (m_interner m') i = (src, rt, dst, ek)" "room n m'" by blast+
qed

section \<open>The invariant\<close>

type_synonym edge_resolver = "edge_key \<Rightarrow> u64 option"

definition edge_resolver_ok :: "edge_resolver \<Rightarrow> u64 \<Rightarrow> bool" where
  "edge_resolver_ok \<sigma> base \<longleftrightarrow> (\<forall>ek cid. \<sigma> ek = Some cid \<longrightarrow> cid < base \<and> (\<forall>ek'. \<sigma> ek' = Some cid \<longrightarrow> ek' = ek))"

definition adj :: "(u64, ck list) fmap \<Rightarrow> u64 \<Rightarrow> ck list" where
  "adj f d = (case fmlookup f d of None \<Rightarrow> [] | Some cs \<Rightarrow> cs)"

lemma adj_push_at [simp]: "adj (push_at k x f) d = (if d = k then adj f d @ [x] else adj f d)"
  by (auto simp: adj_def push_at_def)

lemma adj_push_new_at [simp]:
  "adj (push_new_at k x f) d = (if d = k \<and> x \<notin> set (adj f d) then adj f d @ [x] else adj f d)"
  by (auto simp: adj_def push_new_at_def Let_def split: option.splits)

definition edge_entry_ok :: "resolver \<Rightarrow> edge_resolver \<Rightarrow> memtable \<Rightarrow> ck \<Rightarrow> edge_entry \<Rightarrow> bool" where
  "edge_entry_ok \<rho> \<sigma> m c e \<longleftrightarrow>
     c = edge_canonical_key (ee_identity e) \<and> edge_interned (m_interner m) (ee_identity e) \<and>
     edge_identity_ok (ee_identity e) \<and>
     dense_of \<rho> m (names_of (m_interner m) (esrc (ee_identity e))) = Some (ee_src e) \<and>
     dense_of \<rho> m (names_of (m_interner m) (edst (ee_identity e))) = Some (ee_dst e) \<and>
     (ee_core e = None \<longrightarrow> c \<in> set (adj (m_out m) (ee_src e)) \<and> c \<in> set (adj (m_in m) (ee_dst e))) \<and>
     (\<forall>cid. ee_core e = Some cid \<longrightarrow> \<sigma> (edge_names (m_interner m) (ee_identity e)) = Some cid \<and>
        fmlookup (m_by_edge m) cid = Some c) \<and>
     (ee_synthetic e \<noteq> None \<longrightarrow> \<sigma> (edge_names (m_interner m) (ee_identity e)) = None) \<and>
     (ed_tombstoned (ee_delta e) \<longrightarrow> ee_delta e = ed_tombstone \<and> ee_core e = None)"

definition adj_ok :: "(u64, ck list) fmap \<Rightarrow> (edge_entry \<Rightarrow> u64) \<Rightarrow> (ck, edge_entry) fmap \<Rightarrow> bool" where
  "adj_ok f end edges \<longleftrightarrow> (\<forall>d. distinct (adj f d) \<and>
     (\<forall>c \<in> set (adj f d). \<exists>e. fmlookup edges c = Some e \<and> end e = d))"

definition by_edge_ok :: "memtable \<Rightarrow> bool" where
  "by_edge_ok m \<longleftrightarrow> (\<forall>cid c. fmlookup (m_by_edge m) cid = Some c \<longrightarrow>
     (\<exists>e. fmlookup (m_edges m) c = Some e \<and> ee_core e = Some cid))"

definition born_edges_ok :: "memtable \<Rightarrow> bool" where
  "born_edges_ok m \<longleftrightarrow> distinct (m_born_edges m) \<and> unat (m_edge_base m) + length (m_born_edges m) \<le> 2 ^ 64 \<and>
     (\<forall>i < length (m_born_edges m). \<exists>e. fmlookup (m_edges m) (m_born_edges m ! i) = Some e \<and>
        ee_synthetic e = Some (m_edge_base m + of_nat i)) \<and>
     (\<forall>c e. fmlookup (m_edges m) c = Some e \<longrightarrow> ee_synthetic e \<noteq> None \<longrightarrow> c \<in> set (m_born_edges m))"

definition edges_ok :: "resolver \<Rightarrow> edge_resolver \<Rightarrow> memtable \<Rightarrow> bool" where
  "edges_ok \<rho> \<sigma> m \<longleftrightarrow> edge_resolver_ok \<sigma> (m_edge_base m) \<and>
     (\<forall>c e. fmlookup (m_edges m) c = Some e \<longrightarrow> edge_entry_ok \<rho> \<sigma> m c e) \<and>
     adj_ok (m_out m) ee_src (m_edges m) \<and> adj_ok (m_in m) ee_dst (m_edges m) \<and> by_edge_ok m \<and> born_edges_ok m"

definition memtable_ok :: "resolver \<Rightarrow> edge_resolver \<Rightarrow> memtable \<Rightarrow> bool" where
  "memtable_ok \<rho> \<sigma> m \<longleftrightarrow> nodes_ok \<rho> m \<and> edges_ok \<rho> \<sigma> m"

lemma edges_okD:
  assumes "edges_ok \<rho> \<sigma> m"
  shows "edge_resolver_ok \<sigma> (m_edge_base m)" "adj_ok (m_out m) ee_src (m_edges m)" "adj_ok (m_in m) ee_dst (m_edges m)"
    "by_edge_ok m" "born_edges_ok m" "fmlookup (m_edges m) c = Some e \<Longrightarrow> edge_entry_ok \<rho> \<sigma> m c e"
  using assms by (simp_all add: edges_ok_def)

lemma edge_resolver_okD:
  assumes "edge_resolver_ok \<sigma> base" "\<sigma> ek = Some cid"
  shows "cid < base" "\<sigma> ek' = Some cid \<Longrightarrow> ek' = ek"
  using assms unfolding edge_resolver_ok_def by blast+

section \<open>What the node operations leave unchanged\<close>

definition extends :: "resolver \<Rightarrow> memtable \<Rightarrow> memtable \<Rightarrow> bool" where
  "extends \<rho> m m' \<longleftrightarrow> grows (m_interner m) (m_interner m') \<and> m_edges m' = m_edges m \<and> m_out m' = m_out m \<and>
     m_in m' = m_in m \<and> m_by_edge m' = m_by_edge m \<and> m_edge_base m' = m_edge_base m \<and>
     m_born_edges m' = m_born_edges m \<and>
     (\<forall>k d. key_ok k \<longrightarrow> dense_of \<rho> m k = Some d \<longrightarrow> dense_of \<rho> m' k = Some d)"

lemma extends_refl: "nodes_ok \<rho> m \<Longrightarrow> extends \<rho> m m"
  by (simp add: extends_def grows_refl nodes_okD(1))

lemma extends_trans: "extends \<rho> m m' \<Longrightarrow> extends \<rho> m' m'' \<Longrightarrow> extends \<rho> m m''"
  unfolding extends_def using grows_trans by (metis (no_types))

lemma extends_dense: "extends \<rho> m m' \<Longrightarrow> key_ok k \<Longrightarrow> dense_of \<rho> m k = Some d \<Longrightarrow> dense_of \<rho> m' k = Some d"
  unfolding extends_def by blast

lemma edges_ok_extends:
  assumes "edges_ok \<rho> \<sigma> m" "extends \<rho> m m'"
  shows "edges_ok \<rho> \<sigma> m'"
proof -
  have "edge_entry_ok \<rho> \<sigma> m' c e" if "fmlookup (m_edges m) c = Some e" for c e
  proof -
    have e: "edge_entry_ok \<rho> \<sigma> m c e" using edges_okD(6) [OF assms(1) that] .
    have g: "grows (m_interner m) (m_interner m')" using assms(2) by (simp add: extends_def)
    have i: "edge_interned (m_interner m) (ee_identity e)" using e by (simp add: edge_entry_ok_def)
    then have si: "interned (m_interner m) (esrc (ee_identity e))" "interned (m_interner m) (edst (ee_identity e))"
      by (simp_all add: edge_interned_def)
    have k: "key_ok (names_of (m_interner m) (esrc (ee_identity e)))" "key_ok (names_of (m_interner m) (edst (ee_identity e)))"
      using e by (simp_all add: edge_entry_ok_def edge_identity_ok_def names_of_key_ok)
    have "dense_of \<rho> m' (names_of (m_interner m) (esrc (ee_identity e))) = Some (ee_src e)"
      "dense_of \<rho> m' (names_of (m_interner m) (edst (ee_identity e))) = Some (ee_dst e)"
      using extends_dense [OF assms(2)] k e by (simp_all add: edge_entry_ok_def)
    then show ?thesis
      using e assms(2) grows_edge [OF g i] grows_names_of [OF g si(1)] grows_names_of [OF g si(2)]
      unfolding edge_entry_ok_def extends_def by metis
  qed
  then show ?thesis using assms by (simp add: edges_ok_def extends_def by_edge_ok_def born_edges_ok_def)
qed

lemma extends_intern:
  assumes "nodes_ok \<rho> m" "grows (m_interner m) t"
  shows "extends \<rho> m (m\<lparr>m_interner := t\<rparr>)"
proof -
  have "dense_of \<rho> (m\<lparr>m_interner := t\<rparr>) k = dense_of \<rho> m k" if "key_ok k" for k
    using node_at_grow [OF assms that] by (cases "\<rho> k") (simp_all add: dense_of_def)
  then show ?thesis using assms(2) unfolding extends_def by simp
qed

lemma set_delta_edges [simp]:
  "m_edges (set_delta \<rho> i nd m) = m_edges m" "m_out (set_delta \<rho> i nd m) = m_out m" "m_in (set_delta \<rho> i nd m) = m_in m"
  "m_by_edge (set_delta \<rho> i nd m) = m_by_edge m" "m_edge_base (set_delta \<rho> i nd m) = m_edge_base m"
  "m_born_edges (set_delta \<rho> i nd m) = m_born_edges m"
  by (simp_all add: set_delta_def Let_def put_entry_def push_born_def split: option.splits)

lemma set_delta_synthetic:
  assumes "fmlookup (m_nodes m) c = Some e"
  shows "\<exists>e'. fmlookup (m_nodes (set_delta \<rho> i nd m)) c = Some e' \<and> ne_synthetic e' = ne_synthetic e"
  using assms by (auto simp: set_delta_nodes)

lemma extends_set_delta:
  assumes "interner_ok (m_interner m)"
  shows "extends \<rho> m (set_delta \<rho> i nd m)"
proof -
  have "dense_of \<rho> (set_delta \<rho> i nd m) k = Some d" if k: "dense_of \<rho> m k = Some d" for k d
  proof (cases "\<rho> k")
    case None
    then obtain e where e: "node_at m k = Some e" "ne_synthetic e = Some d"
      using k by (auto simp: dense_of_def Option.bind_eq_Some_conv)
    then obtain e' where "node_at (set_delta \<rho> i nd m) k = Some e'" "ne_synthetic e' = Some d"
      using set_delta_synthetic [of m _ e \<rho> i nd]
      by (fastforce simp: node_at_def Option.bind_eq_Some_conv split: prod.splits)
    then show ?thesis using None by (simp add: dense_of_def)
  qed (use k in \<open>simp add: dense_of_def\<close>)
  then show ?thesis using grows_refl [OF assms] by (simp add: extends_def)
qed

lemma dense_of_bytes [simp]: "dense_of \<rho> (m\<lparr>m_bytes := b\<rparr>) k = dense_of \<rho> m k"
  by (cases "\<rho> k") (simp_all add: dense_of_def)

lemma extends_assigns:
  assumes "nodes_ok \<rho> m" "assigns \<rho> k nd m m'"
  shows "extends \<rho> m m'"
proof -
  obtain i t b where *: "grows (m_interner m) t" "m' = (set_delta \<rho> i nd (m\<lparr>m_interner := t\<rparr>))\<lparr>m_bytes := b\<rparr>"
    using assms(2) unfolding assigns_def by blast
  have "extends \<rho> (m\<lparr>m_interner := t\<rparr>) (set_delta \<rho> i nd (m\<lparr>m_interner := t\<rparr>))"
    using extends_set_delta grows_ok [OF *(1)] by simp
  moreover have "extends \<rho> x (y\<lparr>m_bytes := b\<rparr>) = extends \<rho> x y" for x y
    by (simp add: extends_def)
  ultimately show ?thesis using extends_trans [OF extends_intern [OF assms(1) *(1)]] *(2) by simp
qed

section \<open>Placing one edge entry\<close>

definition put_edge ::
    "ck \<Rightarrow> edge_entry \<Rightarrow> (u64, ck list) fmap \<Rightarrow> (u64, ck list) fmap \<Rightarrow> (u64, ck) fmap \<Rightarrow> ck list \<Rightarrow> memtable \<Rightarrow> memtable" where
  "put_edge c e os is bs born m = m\<lparr>m_edges := fmupd c e (m_edges m), m_out := os, m_in := is,
     m_by_edge := bs, m_born_edges := born\<rparr>"

lemma put_edge_simps [simp]:
  "m_edges (put_edge c e os is bs born m) = fmupd c e (m_edges m)" "m_out (put_edge c e os is bs born m) = os"
  "m_in (put_edge c e os is bs born m) = is" "m_by_edge (put_edge c e os is bs born m) = bs"
  "m_born_edges (put_edge c e os is bs born m) = born" "m_interner (put_edge c e os is bs born m) = m_interner m"
  "m_edge_base (put_edge c e os is bs born m) = m_edge_base m" "m_nodes (put_edge c e os is bs born m) = m_nodes m"
  by (simp_all add: put_edge_def)

lemma node_at_put_edge [simp]: "node_at (put_edge c e os is bs born m) k = node_at m k"
  by (simp add: node_at_def)

lemma dense_of_put_edge [simp]: "dense_of \<rho> (put_edge c e os is bs born m) k = dense_of \<rho> m k"
  by (cases "\<rho> k") (simp_all add: dense_of_def)

lemma nodes_ok_put_edge [simp]: "nodes_ok \<rho> (put_edge c e os is bs born m) = nodes_ok \<rho> m"
  by (rule nodes_ok_cong) (simp_all add: put_edge_def)

text \<open>An adjacency with the entry's key appended under its endpoint, if it was not there.\<close>

definition adj_step :: "ck \<Rightarrow> u64 \<Rightarrow> (u64, ck list) fmap \<Rightarrow> (u64, ck list) fmap \<Rightarrow> bool" where
  "adj_step c d0 f g \<longleftrightarrow> (\<forall>d. adj g d = adj f d \<or> d = d0 \<and> c \<notin> set (adj f d) \<and> adj g d = adj f d @ [c])"

lemma adj_step_refl [simp]: "adj_step c d f f"
  by (simp add: adj_step_def)

lemma adj_step_mono: "adj_step c d0 f g \<Longrightarrow> x \<in> set (adj f d) \<Longrightarrow> x \<in> set (adj g d)"
  unfolding adj_step_def by (metis Un_iff set_append)

lemma adj_step_push: "c \<notin> set (adj f d) \<Longrightarrow> adj_step c d f (push_at d c f)"
  by (simp add: adj_step_def)

lemma adj_step_push_new: "adj_step c d f (push_new_at d c f)"
  by (simp add: adj_step_def)

lemma adj_ok_step:
  assumes "adj_ok f end edges" "adj_step c (end e) f g" "\<And>e0. fmlookup edges c = Some e0 \<Longrightarrow> end e0 = end e"
  shows "adj_ok g end (fmupd c e edges)"
  unfolding adj_ok_def
proof (intro allI conjI ballI)
  fix d
  have s: "adj g d = adj f d \<or> d = end e \<and> c \<notin> set (adj f d) \<and> adj g d = adj f d @ [c]"
    using assms(2) by (simp add: adj_step_def)
  have f: "distinct (adj f d)" "x \<in> set (adj f d) \<Longrightarrow> \<exists>e. fmlookup edges x = Some e \<and> end e = d" for x
    using assms(1) by (simp_all add: adj_ok_def)
  show "distinct (adj g d)" using s f(1) by (metis distinct_append distinct_singleton disjoint_insert(1) inf_bot_right list.set(1) list.simps(15))
  fix x assume "x \<in> set (adj g d)"
  then consider "x \<in> set (adj f d)" | "x = c" "d = end e" using s by auto
  then show "\<exists>e'. fmlookup (fmupd c e edges) x = Some e' \<and> end e' = d"
  proof cases
    case 1
    then obtain e0 where "fmlookup edges x = Some e0" "end e0 = d" using f(2) by blast
    then show ?thesis using assms(3) by (cases "x = c") auto
  qed simp
qed

definition by_step :: "ck \<Rightarrow> edge_entry \<Rightarrow> (u64, ck) fmap \<Rightarrow> (u64, ck) fmap \<Rightarrow> bool" where
  "by_step c e f g \<longleftrightarrow> (\<forall>cid c'. c' \<noteq> c \<longrightarrow> (fmlookup g cid = Some c' \<longleftrightarrow> fmlookup f cid = Some c')) \<and>
     (\<forall>cid. fmlookup g cid = Some c \<longrightarrow> ee_core e = Some cid)"

definition born_step :: "ck \<Rightarrow> edge_entry \<Rightarrow> memtable \<Rightarrow> ck list \<Rightarrow> bool" where
  "born_step c e m born \<longleftrightarrow>
     born = m_born_edges m \<and> ee_synthetic e = Option.bind (fmlookup (m_edges m) c) ee_synthetic \<or>
     fmlookup (m_edges m) c = None \<and> born = m_born_edges m @ [c] \<and>
     ee_synthetic e = Some (m_edge_base m + of_nat (length (m_born_edges m))) \<and>
     unat (m_edge_base m) + length (m_born_edges m) < 2 ^ 64"

lemma born_edge_stored:
  assumes "born_edges_ok m" "c \<in> set (m_born_edges m)"
  shows "fmlookup (m_edges m) c \<noteq> None"
proof -
  obtain i where i: "i < length (m_born_edges m)" "c = m_born_edges m ! i" using assms(2) by (metis in_set_conv_nth)
  then show ?thesis using assms(1) unfolding born_edges_ok_def by (metis option.distinct(1))
qed

lemma put_edge_born:
  assumes "born_edges_ok m" "born_step c e m born"
  shows "born_edges_ok (put_edge c e os is bs born m)"
proof (cases "born = m_born_edges m \<and> ee_synthetic e = Option.bind (fmlookup (m_edges m) c) ee_synthetic")
  case True
  then show ?thesis using assms(1) by (auto simp: born_edges_ok_def Option.bind_eq_Some_conv)
next
  case False
  then have b: "fmlookup (m_edges m) c = None" "born = m_born_edges m @ [c]"
     "ee_synthetic e = Some (m_edge_base m + of_nat (length (m_born_edges m)))"
     "unat (m_edge_base m) + length (m_born_edges m) < 2 ^ 64"
    using assms(2) unfolding born_step_def by blast+
  have c: "c \<notin> set (m_born_edges m)" using born_edge_stored [OF assms(1)] b(1) by blast
  show ?thesis
    unfolding born_edges_ok_def
  proof (intro conjI allI impI)
    fix i assume "i < length (m_born_edges (put_edge c e os is bs born m))"
    then consider "i < length (m_born_edges m)" | "i = length (m_born_edges m)" using b(2) by fastforce
    then show "\<exists>e'. fmlookup (m_edges (put_edge c e os is bs born m)) (m_born_edges (put_edge c e os is bs born m) ! i) = Some e' \<and>
        ee_synthetic e' = Some (m_edge_base (put_edge c e os is bs born m) + of_nat i)"
    proof cases
      case 1
      then have "m_born_edges m ! i \<noteq> c" using c by (metis nth_mem)
      then show ?thesis using 1 assms(1) b(2) by (simp add: born_edges_ok_def nth_append)
    qed (simp add: b nth_append)
  qed (use c b assms(1) in \<open>auto simp: born_edges_ok_def split: if_splits\<close>)
qed

lemma put_edge_ok:
  assumes ok: "edges_ok \<rho> \<sigma> m" and new: "edge_entry_ok \<rho> \<sigma> (put_edge c e os is bs born m) c e"
    and same: "\<And>e0. fmlookup (m_edges m) c = Some e0 \<Longrightarrow> ee_src e0 = ee_src e \<and> ee_dst e0 = ee_dst e"
    and out: "adj_step c (ee_src e) (m_out m) os" and inn: "adj_step c (ee_dst e) (m_in m) is"
    and by_: "by_step c e (m_by_edge m) bs" and born: "born_step c e m born"
  shows "edges_ok \<rho> \<sigma> (put_edge c e os is bs born m)"
proof -
  have ent: "edge_entry_ok \<rho> \<sigma> (put_edge c e os is bs born m) c' e'" if "fmlookup (fmupd c e (m_edges m)) c' = Some e'" for c' e'
  proof (cases "c' = c")
    case True
    then show ?thesis using that new by simp
  next
    case False
    then have "edge_entry_ok \<rho> \<sigma> m c' e'" using that edges_okD(6) [OF ok] by simp
    then show ?thesis
      using False adj_step_mono [OF out] adj_step_mono [OF inn] by_ by (auto simp: edge_entry_ok_def by_step_def)
  qed
  have "by_edge_ok (put_edge c e os is bs born m)"
    unfolding by_edge_ok_def
  proof (intro allI impI)
    fix cid c' assume a: "fmlookup (m_by_edge (put_edge c e os is bs born m)) cid = Some c'"
    show "\<exists>e'. fmlookup (m_edges (put_edge c e os is bs born m)) c' = Some e' \<and> ee_core e' = Some cid"
    proof (cases "c' = c")
      case True
      then show ?thesis using a by_ by (simp add: by_step_def)
    next
      case False
      then have "fmlookup (m_by_edge m) cid = Some c'" using a by_ by (simp add: by_step_def)
      then show ?thesis using edges_okD(4) [OF ok] False by (simp add: by_edge_ok_def)
    qed
  qed
  moreover have "adj_ok os ee_src (fmupd c e (m_edges m))"
    by (rule adj_ok_step [OF edges_okD(2) [OF ok] out]) (use same in blast)
  moreover have "adj_ok is ee_dst (fmupd c e (m_edges m))"
    by (rule adj_ok_step [OF edges_okD(3) [OF ok] inn]) (use same in blast)
  ultimately show ?thesis
    using ent put_edge_born [OF edges_okD(5) [OF ok] born] edges_okD(1) [OF ok] by (simp add: edges_ok_def)
qed

section \<open>The memtable as a map from edge identities to deltas\<close>

definition edge_at :: "memtable \<Rightarrow> edge_key \<Rightarrow> edge_entry option" where
  "edge_at m ek = Option.bind (edge_ident (m_interner m) ek) (\<lambda>i. fmlookup (m_edges m) (edge_canonical_key i))"

definition edelta_at :: "memtable \<Rightarrow> edge_key \<Rightarrow> edge_delta option" where
  "edelta_at m ek = map_option ee_delta (edge_at m ek)"

definition old_edge :: "memtable \<Rightarrow> edge_key \<Rightarrow> edge_delta" where
  "old_edge m ek = (case edelta_at m ek of None \<Rightarrow> ed_default | Some d \<Rightarrow> d)"

lemma edge_at_interned:
  "interner_ok (m_interner m) \<Longrightarrow> edge_interned (m_interner m) i \<Longrightarrow> edge_names (m_interner m) i = ek \<Longrightarrow>
   edge_at m ek = fmlookup (m_edges m) (edge_canonical_key i)"
  by (simp add: edge_at_def edge_ident_interned)

lemma edge_at_put_edge:
  assumes "interner_ok (m_interner m)" "edge_interned (m_interner m) i" "edge_identity_ok i" "edge_key_storable ek"
  shows "edge_at (put_edge (edge_canonical_key i) e os is bs born m) ek =
    (if ek = edge_names (m_interner m) i then Some e else edge_at m ek)"
proof (cases "edge_ident (m_interner m) ek")
  case None
  then show ?thesis using edge_ident_interned [OF assms(1,2)] by (auto simp: edge_at_def)
next
  case (Some j)
  note j = edge_ident_Some [OF assms(1) Some]
  have "edge_identity_ok j" using assms(4) j(2) by (simp add: edge_names_storable [of _ "m_interner m"])
  then have "edge_canonical_key j = edge_canonical_key i \<longleftrightarrow> j = i"
    using edge_canonical_key_inj assms(3) by blast
  moreover have "j = i \<longleftrightarrow> ek = edge_names (m_interner m) i"
    using edge_names_inj [OF assms(1) j(1) assms(2)] j(2) by auto
  ultimately show ?thesis using Some by (auto simp: edge_at_def)
qed

lemma stored_edge_identity:
  assumes "edges_ok \<rho> \<sigma> m" "fmlookup (m_edges m) (edge_canonical_key i) = Some e" "edge_identity_ok i"
  shows "ee_identity e = i"
  using edges_okD(6) [OF assms(1,2)] assms(3) edge_canonical_key_inj by (simp add: edge_entry_ok_def)

lemma edge_at_grow:
  assumes "edges_ok \<rho> \<sigma> m" "interner_ok (m_interner m)" "grows (m_interner m) t" "edge_key_storable ek"
    "m_edges m' = m_edges m" "m_interner m' = t"
  shows "edge_at m' ek = edge_at m ek"
proof (cases "edge_ident t ek")
  case None
  have "edge_ident (m_interner m) ek = None"
  proof (rule ccontr)
    assume "edge_ident (m_interner m) ek \<noteq> None"
    then obtain i where i: "edge_ident (m_interner m) ek = Some i" by blast
    note g = grows_edge [OF assms(3) edge_ident_Some(1) [OF assms(2) i]]
    show False using edge_ident_interned [OF grows_ok [OF assms(3)] g(1)] g(2) edge_ident_Some(2) [OF assms(2) i] None by simp
  qed
  then show ?thesis using None assms(6) by (simp add: edge_at_def)
next
  case (Some i)
  note i = edge_ident_Some [OF grows_ok [OF assms(3)] Some]
  have iok: "edge_identity_ok i" using assms(4) i(2) by (simp add: edge_names_storable [of _ t])
  show ?thesis
  proof (cases "fmlookup (m_edges m) (edge_canonical_key i)")
    case None
    have "edge_at m ek = None"
    proof (rule ccontr)
      assume "edge_at m ek \<noteq> None"
      then obtain j where j: "edge_ident (m_interner m) ek = Some j" "fmlookup (m_edges m) (edge_canonical_key j) \<noteq> None"
        by (auto simp: edge_at_def Option.bind_eq_Some_conv)
      note g = grows_edge [OF assms(3) edge_ident_Some(1) [OF assms(2) j(1)]]
      have "j = i"
        using edge_names_inj [OF grows_ok [OF assms(3)] g(1) i(1)] g(2) i(2) edge_ident_Some(2) [OF assms(2) j(1)] by simp
      then show False using j(2) None by simp
    qed
    then show ?thesis using Some None assms(5,6) by (simp add: edge_at_def)
  next
    case st: (Some e)
    then have "ee_identity e = i" using stored_edge_identity [OF assms(1) _ iok] by simp
    then have ii: "edge_interned (m_interner m) i" using edges_okD(6) [OF assms(1) st] by (simp add: edge_entry_ok_def)
    have "edge_names (m_interner m) i = ek" using grows_edge(2) [OF assms(3) ii] i(2) by simp
    then show ?thesis using edge_at_interned [OF assms(2) ii] st Some assms(5,6) by (simp add: edge_at_def)
  qed
qed

section \<open>The edge operations assign deltas\<close>

definition efits :: "memtable \<Rightarrow> bool" where
  "efits m \<longleftrightarrow> unat (m_edge_base m) + length (m_born_edges m) < 2 ^ 64"

text \<open>The state in which the three edge bodies start: identity interned, endpoints resolved.\<close>

definition edge_ready :: "resolver \<Rightarrow> edge_resolver \<Rightarrow> memtable \<Rightarrow> u64 \<Rightarrow> u64 \<Rightarrow> edge_identity \<Rightarrow> edge_key \<Rightarrow> bool" where
  "edge_ready \<rho> \<sigma> m s d i ek \<longleftrightarrow> nodes_ok \<rho> m \<and> edges_ok \<rho> \<sigma> m \<and> edge_interned (m_interner m) i \<and>
     edge_names (m_interner m) i = ek \<and> edge_identity_ok i \<and>
     dense_of \<rho> m (fst ek) = Some s \<and> dense_of \<rho> m (fst (snd (snd ek))) = Some d"

lemma edge_ready_stored:
  assumes "edge_ready \<rho> \<sigma> m s d i ek" "fmlookup (m_edges m) (edge_canonical_key i) = Some e"
  shows "ee_identity e = i" "ee_src e = s" "ee_dst e = d" "edge_entry_ok \<rho> \<sigma> m (edge_canonical_key i) e"
    "edge_names (m_interner m) (ee_identity e) = ek"
proof -
  show i: "ee_identity e = i" using assms stored_edge_identity by (auto simp: edge_ready_def)
  then show "edge_names (m_interner m) (ee_identity e) = ek" using assms(1) by (simp add: edge_ready_def)
  show e: "edge_entry_ok \<rho> \<sigma> m (edge_canonical_key i) e" using assms edges_okD(6) by (simp add: edge_ready_def)
  show "ee_src e = s" "ee_dst e = d" using e assms(1) i by (auto simp: edge_entry_ok_def edge_ready_def edge_names_def)
qed

lemma edge_ready_fresh:
  assumes "edge_ready \<rho> \<sigma> m s d i ek" "fmlookup (m_edges m) (edge_canonical_key i) = None"
  shows "edge_canonical_key i \<notin> set (adj (m_out m) x)" "edge_canonical_key i \<notin> set (adj (m_in m) x)"
    "fmlookup (m_by_edge m) cid \<noteq> Some (edge_canonical_key i)"
  using assms edges_okD(2-4) [of \<rho> \<sigma> m] by (fastforce simp: edge_ready_def adj_ok_def by_edge_ok_def)+

text \<open>What an operation that places the entry \<open>e\<close> for identity \<open>ek\<close> achieves.\<close>

definition edge_assigns :: "resolver \<Rightarrow> edge_resolver \<Rightarrow> edge_key \<Rightarrow> edge_delta \<Rightarrow> memtable \<Rightarrow> memtable \<Rightarrow> bool" where
  "edge_assigns \<rho> \<sigma> ek nd m m' \<longleftrightarrow> edges_ok \<rho> \<sigma> m' \<and> nodes_ok \<rho> m' \<and>
     (\<forall>k. node_at m' k = node_at m k) \<and>
     (\<forall>ek'. edge_key_storable ek' \<longrightarrow> edelta_at m' ek' = (if ek' = ek then Some nd else edelta_at m ek'))"

lemma m_bytes_edges [simp]:
  "edges_ok \<rho> \<sigma> (m\<lparr>m_bytes := b\<rparr>) = edges_ok \<rho> \<sigma> m" "edge_at (m\<lparr>m_bytes := b\<rparr>) ek = edge_at m ek"
  by (simp_all add: edges_ok_def edge_entry_ok_def by_edge_ok_def born_edges_ok_def edge_at_def)

lemma put_edge_assigns:
  assumes "edge_ready \<rho> \<sigma> m s d i ek" "edges_ok \<rho> \<sigma> (put_edge (edge_canonical_key i) e os is bs born m)"
    "m' = (put_edge (edge_canonical_key i) e os is bs born m)\<lparr>m_bytes := b\<rparr>"
  shows "edge_assigns \<rho> \<sigma> ek (ee_delta e) m m'"
proof -
  have "edelta_at m' ek' = (if ek' = ek then Some (ee_delta e) else edelta_at m ek')" if "edge_key_storable ek'" for ek'
  proof -
    have "nodes_ok \<rho> m" using assms(1) by (simp add: edge_ready_def)
    then have "edge_at (put_edge (edge_canonical_key i) e os is bs born m) ek' = (if ek' = ek then Some e else edge_at m ek')"
      using edge_at_put_edge [OF nodes_okD(1), of \<rho> m i ek'] assms(1) that by (simp add: edge_ready_def)
    then show ?thesis by (simp add: assms(3) edelta_at_def)
  qed
  then show ?thesis using assms by (simp add: edge_assigns_def edge_ready_def)
qed

lemma edge_ready_old:
  assumes "edge_ready \<rho> \<sigma> m s d i ek"
  shows "edge_at m ek = fmlookup (m_edges m) (edge_canonical_key i)"
  using assms edge_at_interned [OF nodes_okD(1)] unfolding edge_ready_def by blast

lemma edge_ready_entry:
  assumes "edge_ready \<rho> \<sigma> m s d i ek" "ee_identity e = i" "ee_src e = s" "ee_dst e = d"
    "ee_core e = None \<Longrightarrow> edge_canonical_key i \<in> set (adj os s) \<and> edge_canonical_key i \<in> set (adj is d)"
    "\<And>cid. ee_core e = Some cid \<Longrightarrow> \<sigma> ek = Some cid \<and> fmlookup bs cid = Some (edge_canonical_key i)"
    "ee_synthetic e \<noteq> None \<Longrightarrow> \<sigma> ek = None"
    "ed_tombstoned (ee_delta e) \<Longrightarrow> ee_delta e = ed_tombstone \<and> ee_core e = None"
  shows "edge_entry_ok \<rho> \<sigma> (put_edge (edge_canonical_key i) e os is bs born m) (edge_canonical_key i) e"
proof -
  have "fst ek = names_of (m_interner m) (esrc i)" "fst (snd (snd ek)) = names_of (m_interner m) (edst i)"
    using assms(1) by (auto simp: edge_ready_def edge_names_def)
  then show ?thesis using assms by (auto simp: edge_entry_ok_def edge_ready_def)
qed

definition merged_edge :: "(str \<times> Value) option \<Rightarrow> bool \<Rightarrow> (str \<times> Value) list \<Rightarrow> edge_delta \<Rightarrow> edge_delta" where
  "merged_edge key rep ps old = apply_edge_patches key rep ps (old\<lparr>ed_tombstoned := False\<rparr>)"

lemma merged_edge_alive [simp]: "\<not> ed_tombstoned (merged_edge key rep ps old)"
  by (cases key) (auto simp: merged_edge_def apply_edge_patches_def Let_def ed_insert_all_fields)

lemma upsert_edge_at_assigns:
  assumes r: "edge_ready \<rho> \<sigma> m s d i ek" and "efits m" and core: "\<sigma> ek = None"
  shows "edge_assigns \<rho> \<sigma> ek (merged_edge key rep ps (old_edge m ek)) m (upsert_edge_at lay s d i key rep ps m)"
proof (cases "fmlookup (m_edges m) (edge_canonical_key i)")
  case None
  let ?c = "edge_canonical_key i"
  let ?e = "\<lparr>ee_identity = i, ee_src = s, ee_dst = d,
      ee_synthetic = Some (m_edge_base m + of_nat (length (m_born_edges m))), ee_core = None,
      ee_delta = merged_edge key rep ps ed_default\<rparr>"
  note f = edge_ready_fresh [OF r None]
  have "edges_ok \<rho> \<sigma> (put_edge ?c ?e (push_at s ?c (m_out m)) (push_at d ?c (m_in m)) (m_by_edge m) (m_born_edges m @ [?c]) m)"
  proof (rule put_edge_ok)
    show "edge_entry_ok \<rho> \<sigma> (put_edge ?c ?e (push_at s ?c (m_out m)) (push_at d ?c (m_in m)) (m_by_edge m)
        (m_born_edges m @ [?c]) m) ?c ?e"
      by (rule edge_ready_entry [OF r]) (simp_all add: core)
  qed (use r f None assms(2) in \<open>auto simp: edge_ready_def by_step_def born_step_def efits_def intro: adj_step_push\<close>)
  moreover have "upsert_edge_at lay s d i key rep ps m = (put_edge ?c ?e (push_at s ?c (m_out m)) (push_at d ?c (m_in m))
      (m_by_edge m) (m_born_edges m @ [?c]) m)\<lparr>m_bytes := m_bytes (upsert_edge_at lay s d i key rep ps m)\<rparr>"
    using None by (simp add: upsert_edge_at_def Let_def upd_edge_def put_edge_def merged_edge_def)
  moreover have "merged_edge key rep ps (old_edge m ek) = ee_delta ?e"
    using None edge_ready_old [OF r] by (simp add: old_edge_def edelta_at_def)
  ultimately show ?thesis using put_edge_assigns [OF r] by metis
next
  case (Some e)
  let ?c = "edge_canonical_key i"
  let ?e = "e\<lparr>ee_delta := merged_edge key rep ps (ee_delta e)\<rparr>"
  note st = edge_ready_stored [OF r Some]
  have "edges_ok \<rho> \<sigma> (put_edge ?c ?e (m_out m) (m_in m) (m_by_edge m) (m_born_edges m) m)"
  proof (rule put_edge_ok)
    show "edge_entry_ok \<rho> \<sigma> (put_edge ?c ?e (m_out m) (m_in m) (m_by_edge m) (m_born_edges m) m) ?c ?e"
      by (rule edge_ready_entry [OF r]) (use st core in \<open>auto simp: edge_entry_ok_def\<close>)
    show "by_step ?c ?e (m_by_edge m) (m_by_edge m)"
      using r Some edges_okD(4) [of \<rho> \<sigma> m] by (fastforce simp: by_step_def by_edge_ok_def edge_ready_def)
  qed (use r Some in \<open>auto simp: edge_ready_def born_step_def\<close>)
  moreover have "upsert_edge_at lay s d i key rep ps m = (put_edge ?c ?e (m_out m) (m_in m) (m_by_edge m)
      (m_born_edges m) m)\<lparr>m_bytes := m_bytes (upsert_edge_at lay s d i key rep ps m)\<rparr>"
    using Some by (simp add: upsert_edge_at_def Let_def upd_edge_def put_edge_def merged_edge_def)
  moreover have "merged_edge key rep ps (old_edge m ek) = ee_delta ?e"
    using Some edge_ready_old [OF r] by (simp add: old_edge_def edelta_at_def)
  ultimately show ?thesis using put_edge_assigns [OF r] by metis
qed

lemma delete_edge_at_assigns:
  assumes r: "edge_ready \<rho> \<sigma> m s d i ek"
  shows "edge_assigns \<rho> \<sigma> ek ed_tombstone m (delete_edge_at lay s d i m)"
proof (cases "fmlookup (m_edges m) (edge_canonical_key i)")
  case None
  let ?c = "edge_canonical_key i"
  let ?e = "\<lparr>ee_identity = i, ee_src = s, ee_dst = d, ee_synthetic = None, ee_core = None, ee_delta = ed_tombstone\<rparr>"
  note f = edge_ready_fresh [OF r None]
  have "edges_ok \<rho> \<sigma> (put_edge ?c ?e (push_at s ?c (m_out m)) (push_at d ?c (m_in m)) (m_by_edge m) (m_born_edges m) m)"
  proof (rule put_edge_ok)
    show "edge_entry_ok \<rho> \<sigma> (put_edge ?c ?e (push_at s ?c (m_out m)) (push_at d ?c (m_in m)) (m_by_edge m)
        (m_born_edges m) m) ?c ?e"
      by (rule edge_ready_entry [OF r]) simp_all
  qed (use r f None in \<open>auto simp: edge_ready_def by_step_def born_step_def intro: adj_step_push\<close>)
  moreover have "delete_edge_at lay s d i m = (put_edge ?c ?e (push_at s ?c (m_out m)) (push_at d ?c (m_in m))
      (m_by_edge m) (m_born_edges m) m)\<lparr>m_bytes := m_bytes (delete_edge_at lay s d i m)\<rparr>"
    using None by (simp add: delete_edge_at_def Let_def put_edge_def)
  moreover have "ed_tombstone = ee_delta ?e" by simp
  ultimately show ?thesis using put_edge_assigns [OF r] by metis
next
  case (Some e)
  let ?c = "edge_canonical_key i"
  let ?e = "e\<lparr>ee_delta := ed_tombstone, ee_core := None\<rparr>"
  define os where "os = (case ee_core e of None \<Rightarrow> m_out m | Some _ \<Rightarrow> push_new_at s ?c (m_out m))"
  define ins where "ins = (case ee_core e of None \<Rightarrow> m_in m | Some _ \<Rightarrow> push_new_at d ?c (m_in m))"
  define bs where "bs = (case ee_core e of None \<Rightarrow> m_by_edge m | Some cid \<Rightarrow> fmdrop cid (m_by_edge m))"
  note st = edge_ready_stored [OF r Some]
  have by_core: "fmlookup (m_by_edge m) cid = Some ?c \<Longrightarrow> ee_core e = Some cid" for cid
    using r Some edges_okD(4) [of \<rho> \<sigma> m] by (fastforce simp: by_edge_ok_def edge_ready_def)
  have "edges_ok \<rho> \<sigma> (put_edge ?c ?e os ins bs (m_born_edges m) m)"
  proof (rule put_edge_ok)
    show "edge_entry_ok \<rho> \<sigma> (put_edge ?c ?e os ins bs (m_born_edges m) m) ?c ?e"
    proof (rule edge_ready_entry [OF r])
      show "?c \<in> set (adj os s) \<and> ?c \<in> set (adj ins d)"
        using st by (cases "ee_core e") (auto simp: os_def ins_def edge_entry_ok_def)
    qed (use st in \<open>auto simp: edge_entry_ok_def\<close>)
    show "by_step ?c ?e (m_by_edge m) bs"
      using by_core st(4) by (cases "ee_core e") (auto simp: by_step_def bs_def edge_entry_ok_def)
    show "adj_step ?c (ee_src ?e) (m_out m) os" "adj_step ?c (ee_dst ?e) (m_in m) ins"
      using st by (cases "ee_core e"; simp add: os_def ins_def adj_step_push_new)+
  qed (use r Some in \<open>auto simp: edge_ready_def born_step_def\<close>)
  moreover have "delete_edge_at lay s d i m =
      (put_edge ?c ?e os ins bs (m_born_edges m) m)\<lparr>m_bytes := m_bytes (delete_edge_at lay s d i m)\<rparr>"
    using Some by (cases "ee_core e") (simp_all add: delete_edge_at_def Let_def put_edge_def os_def ins_def bs_def)
  moreover have "ed_tombstone = ee_delta ?e" by simp
  ultimately show ?thesis using put_edge_assigns [OF r] by metis
qed

lemma patch_core_edge_at_assigns:
  assumes r: "edge_ready \<rho> \<sigma> m s d i ek" and core: "\<sigma> ek = Some cid"
  shows "edge_assigns \<rho> \<sigma> ek (merged_edge key rep ps (old_edge m ek)) m (patch_core_edge_at lay s d i key cid rep ps m)"
proof -
  let ?c = "edge_canonical_key i" and ?old = "fmlookup (m_edges m) (edge_canonical_key i)"
  define e0 where "e0 = (case ?old of Some e \<Rightarrow> e | None \<Rightarrow>
    \<lparr>ee_identity = i, ee_src = s, ee_dst = d, ee_synthetic = None, ee_core = Some cid, ee_delta = ed_default\<rparr>)"
  let ?e = "e0\<lparr>ee_core := Some cid, ee_delta := merged_edge key rep ps (ee_delta e0)\<rparr>"
  have m: "edges_ok \<rho> \<sigma> m" using r by (simp add: edge_ready_def)
  have e0: "ee_identity e0 = i" "ee_src e0 = s" "ee_dst e0 = d" "ee_synthetic e0 = None"
    using edge_ready_stored [OF r] core r by (auto simp: e0_def edge_entry_ok_def edge_ready_def split: option.splits)
  have only: "fmlookup (m_by_edge m) cid = Some c' \<Longrightarrow> c' = ?c" for c'
  proof -
    assume "fmlookup (m_by_edge m) cid = Some c'"
    then obtain e' where e': "fmlookup (m_edges m) c' = Some e'" "ee_core e' = Some cid"
      using edges_okD(4) [OF m] by (auto simp: by_edge_ok_def)
    have ok: "edge_entry_ok \<rho> \<sigma> m c' e'" using edges_okD(6) [OF m e'(1)] .
    then have "edge_names (m_interner m) (ee_identity e') = ek"
      using edge_resolver_okD(2) [OF edges_okD(1) [OF m] core] e'(2) by (auto simp: edge_entry_ok_def)
    then have "ee_identity e' = i"
      using edge_names_inj [of "m_interner m"] ok r nodes_okD(1) by (auto simp: edge_entry_ok_def edge_ready_def)
    then show "c' = ?c" using ok by (simp add: edge_entry_ok_def)
  qed
  have by_core: "fmlookup (m_by_edge m) x = Some ?c \<Longrightarrow> x = cid" for x
    using edges_okD(4) [OF m] edge_ready_stored(1,4) [OF r] core r by (fastforce simp: by_edge_ok_def edge_entry_ok_def edge_ready_def)
  have "edges_ok \<rho> \<sigma> (put_edge ?c ?e (m_out m) (m_in m) (fmupd cid ?c (m_by_edge m)) (m_born_edges m) m)"
  proof (rule put_edge_ok)
    show "edge_entry_ok \<rho> \<sigma> (put_edge ?c ?e (m_out m) (m_in m) (fmupd cid ?c (m_by_edge m)) (m_born_edges m) m) ?c ?e"
      by (rule edge_ready_entry [OF r]) (use e0 core in auto)
    show "by_step ?c ?e (m_by_edge m) (fmupd cid ?c (m_by_edge m))"
      unfolding by_step_def
    proof (intro conjI allI impI)
      fix x c' assume "c' \<noteq> ?c"
      then show "fmlookup (fmupd cid ?c (m_by_edge m)) x = Some c' \<longleftrightarrow> fmlookup (m_by_edge m) x = Some c'"
        using only [of c'] by (cases "x = cid") auto
    next
      fix x assume "fmlookup (fmupd cid ?c (m_by_edge m)) x = Some ?c"
      then show "ee_core ?e = Some x" using by_core [of x] by (cases "x = cid") simp_all
    qed
    show "\<And>x. ?old = Some x \<Longrightarrow> ee_src x = ee_src ?e \<and> ee_dst x = ee_dst ?e"
      using edge_ready_stored(2,3) [OF r] e0 by simp
    show "born_step ?c ?e m (m_born_edges m)" using e0(4) by (cases ?old) (auto simp: born_step_def e0_def)
  qed (use m in simp_all)
  moreover have "patch_core_edge_at lay s d i key cid rep ps m =
      (put_edge ?c ?e (m_out m) (m_in m) (fmupd cid ?c (m_by_edge m)) (m_born_edges m) m)
        \<lparr>m_bytes := m_bytes (patch_core_edge_at lay s d i key cid rep ps m)\<rparr>"
    by (cases ?old) (simp_all add: patch_core_edge_at_def Let_def upd_edge_def put_edge_def merged_edge_def e0_def)
  moreover have "merged_edge key rep ps (old_edge m ek) = ee_delta ?e"
    using edge_ready_old [OF r] by (simp add: old_edge_def edelta_at_def e0_def split: option.splits)
  ultimately show ?thesis using put_edge_assigns [OF r] by metis
qed

section \<open>Endpoints\<close>

definition fits2 :: "memtable \<Rightarrow> bool" where
  "fits2 m \<longleftrightarrow> unat (m_base m) + length (m_born m) + 1 < 2 ^ 64"

lemma resolves_extends:
  assumes "extends \<rho> m m'" "key_ok k" "resolves \<rho> m k r"
  shows "resolves \<rho> m' k r"
proof (cases "r = \<rho> k")
  case False
  then have r: "\<rho> k = None" "r = Option.bind (node_at m k) ne_synthetic" using assms(3) by (auto simp: resolves_def)
  then obtain d where "r = Some d" using False by fastforce
  then have "dense_of \<rho> m k = Some d" using r by (simp add: dense_of_def)
  then have "dense_of \<rho> m' k = Some d" using extends_dense [OF assms(1,2)] by blast
  then show ?thesis using r \<open>r = Some d\<close> by (simp add: resolves_def dense_of_def)
qed (simp add: resolves_def)

lemma dense_of_None:
  assumes "nodes_ok \<rho> m" "key_ok k"
  shows "dense_of \<rho> m k = None \<longleftrightarrow> \<rho> k = None \<and> node_at m k = None"
proof (cases "node_at m k")
  case None
  then show ?thesis by (cases "\<rho> k") (simp_all add: dense_of_def)
next
  case (Some e)
  note e = node_at_Some [OF assms Some]
  obtain d where "entry_dense \<rho> (m_interner m) e = Some d"
    using nodes_okD(6) [OF assms(1) e(3)] unfolding node_entry_ok_def by blast
  then show ?thesis using Some e(2) by (cases "\<rho> k") (simp_all add: dense_of_def entry_dense_def)
qed

text \<open>An endpoint absent below this level and in it is born with an empty delta; otherwise the memtable
  only learns the names.\<close>

lemma endpoint_spec:
  assumes ok: "nodes_ok \<rho> m" and rm: "room (n + 2) m" and k: "key_ok (l, p, v)" and ft: "fits m"
    and r: "resolves \<rho> m (l, p, v) r" and e: "endpoint_dense_or_create lay l p v r m = (d, m')"
  shows "nodes_ok \<rho> m'" "extends \<rho> m m'" "dense_of \<rho> m' (l, p, v) = Some d" "room n m'"
    "m_base m' = m_base m" "length (m_born m') \<le> length (m_born m) + 1"
    "key_ok k' \<Longrightarrow> delta_at m' k' = (if k' = (l, p, v) \<and> dense_of \<rho> m k' = None then Some nd_default else delta_at m k')"
proof -
  let ?k = "(l, p, v)"
  have "nodes_ok \<rho> m' \<and> extends \<rho> m m' \<and> dense_of \<rho> m' ?k = Some d \<and> room n m' \<and> m_base m' = m_base m \<and>
    length (m_born m') \<le> length (m_born m) + 1 \<and> (\<forall>k'. key_ok k' \<longrightarrow>
      delta_at m' k' = (if k' = ?k \<and> dense_of \<rho> m k' = None then Some nd_default else delta_at m k'))"
  proof (cases r)
    case (Some d')
    then have "d' = d" "m' = m" using e by (simp_all add: endpoint_dense_or_create_def)
    moreover have "dense_of \<rho> m ?k = Some d'" using r Some by (auto simp: resolves_def dense_of_def split: option.splits)
    moreover have "room n m" using rm by (simp add: room_def)
    ultimately show ?thesis using ok extends_refl [OF ok] by auto
  next
    case None
    then have rho: "\<rho> ?k = None" using r by (auto simp: resolves_def)
    obtain i m1 where im: "intern_node l p v m = (i, m1)" by fastforce
    have v: "value_storable v" and rm2: "room 2 m" using k rm by (simp_all add: key_ok_def room_def)
    note n = intern_node_ok [OF ok rm2 v im]
    have rn: "room n m1" using intern_node_spec(5) [OF im rm] .
    have x1: "extends \<rho> m m1" using extends_intern [OF ok n(5)] n(6) by simp
    show ?thesis
    proof (cases "node_at m ?k")
      case (Some en)
      then obtain d' where d': "dense_of \<rho> m ?k = Some d'" using dense_of_None [OF ok k] by fastforce
      then have "ne_synthetic en = Some d'" using rho Some by (simp add: dense_of_def)
      then have "m' = m1" "d = d'" using e None n(7) Some by (simp_all add: endpoint_dense_or_create_def im)
      moreover have "delta_at m1 k' = delta_at m k'" if "key_ok k'" for k'
        using node_at_grow [OF ok n(5) that] n(6) by (simp add: delta_at_def)
      moreover have "m_base m1 = m_base m" "m_born m1 = m_born m" by (subst n(6), simp)+
      ultimately show ?thesis using n(1) x1 extends_dense [OF x1 k d'] rn d' by auto
    next
      case none: None
      have nd: "d = m_base m1 + of_nat (length (m_born m1))" and m': "m' = m1\<lparr>m_bytes := m_bytes m1 + of_nat (length (node_canonical_key i)) + size_NodeEntry lay,
          m_born := m_born m1 @ [node_canonical_key i], m_by_dense := fmupd d (node_canonical_key i) (m_by_dense m1),
          m_born_labels := count_at (nlabel i) (m_born_labels m1),
          m_nodes := fmupd (node_canonical_key i) (fresh_entry i\<lparr>ne_synthetic := Some d\<rparr>) (m_nodes m1)\<rparr>"
        using e None n(7) none by (auto simp: endpoint_dense_or_create_def im Let_def)
      have "d |\<notin>| m_tombs m1"
        using by_dense_next [OF n(1)] tomb_dense [OF n(1)] ft n(10) nd unfolding fits_def by blast
      then have tm: "mark nd_default d (m_tombs m1) = m_tombs m1" by (simp add: mark_absent)
      have m'': "m' = (set_delta \<rho> i nd_default m1)\<lparr>m_bytes := m_bytes m'\<rparr>"
        using n(3,7) none rho nd tm
        by (simp add: m' set_delta_def put_entry_def push_born_def fresh_entry_def Let_def)
      then have as: "assigns \<rho> ?k nd_default m m'"
        unfolding assigns_def using n(2,3,5,6,8) by metis
      note eff = assigns_effect [OF ok ft k delta_ok_default(1) as]
      have x: "extends \<rho> m m'" using extends_assigns [OF ok as] .
      have "fmlookup (m_nodes m') (node_canonical_key i) = Some (fresh_entry i\<lparr>ne_synthetic := Some d\<rparr>)" by (simp add: m')
      then have "node_at m' ?k = Some (fresh_entry i\<lparr>ne_synthetic := Some d\<rparr>)"
        using node_at_interned [of m' i ?k] n(2,3) grows_ok [OF n(5)] by (simp add: m')
      then have "dense_of \<rho> m' ?k = Some d" using rho by (simp add: dense_of_def)
      moreover have "dense_of \<rho> m ?k = None" using dense_of_None [OF ok k] rho none by simp
      moreover have "room n m'" using rn by (simp add: m' room_def)
      moreover have "m_base m' = m_base m" "m_born m' = m_born m @ [node_canonical_key i]"
        unfolding m' by (subst n(6), simp)+
      ultimately show ?thesis using eff x by auto
    qed
  qed
  then show "nodes_ok \<rho> m'" "extends \<rho> m m'" "dense_of \<rho> m' ?k = Some d" "room n m'"
    "m_base m' = m_base m" "length (m_born m') \<le> length (m_born m) + 1"
    "key_ok k' \<Longrightarrow> delta_at m' k' = (if k' = ?k \<and> dense_of \<rho> m k' = None then Some nd_default else delta_at m k')"
    by blast+
qed

lemma born_endpoint_spec:
  assumes ok: "nodes_ok \<rho> m" and rm: "room (n + 2) m" and k: "key_ok (l, p, v)"
    and r: "resolves \<rho> m (l, p, v) r" and e: "born_endpoint_dense l p v r m = (x, m')"
  shows "nodes_ok \<rho> m'" "extends \<rho> m m'" "x = dense_of \<rho> m (l, p, v)" "room n m'"
    "key_ok k' \<Longrightarrow> node_at m' k' = node_at m k'"
proof -
  have "nodes_ok \<rho> m' \<and> extends \<rho> m m' \<and> x = dense_of \<rho> m (l, p, v) \<and> room n m' \<and>
      (\<forall>k'. key_ok k' \<longrightarrow> node_at m' k' = node_at m k')"
  proof (cases r)
    case (Some d)
    then have "x = Some d" "m' = m" using e by (simp_all add: born_endpoint_dense_def)
    moreover have "dense_of \<rho> m (l, p, v) = Some d" using r Some by (auto simp: resolves_def dense_of_def split: option.splits)
    ultimately show ?thesis using ok extends_refl [OF ok] rm by (simp add: room_def)
  next
    case None
    then have rho: "\<rho> (l, p, v) = None" using r by (auto simp: resolves_def)
    obtain i m1 where im: "intern_node l p v m = (i, m1)" by fastforce
    have v: "value_storable v" and rm2: "room 2 m" using k rm by (simp_all add: key_ok_def room_def)
    note n = intern_node_ok [OF ok rm2 v im]
    have "x = dense_of \<rho> m (l, p, v)" "m' = m1" using e None n(7) rho by (simp_all add: born_endpoint_dense_def im dense_of_def)
    moreover have "node_at m1 k' = node_at m k'" if "key_ok k'" for k' using node_at_grow [OF ok n(5) that] n(6) by simp
    moreover have "extends \<rho> m m1" using extends_intern [OF ok n(5)] n(6) by simp
    ultimately show ?thesis using n(1) intern_node_spec(5) [OF im rm] by blast
  qed
  then show "nodes_ok \<rho> m'" "extends \<rho> m m'" "x = dense_of \<rho> m (l, p, v)" "room n m'"
    "key_ok k' \<Longrightarrow> node_at m' k' = node_at m k'" by blast+
qed

lemma edge_ready_intern:
  assumes "nodes_ok \<rho> m" "edges_ok \<rho> \<sigma> m" "room 6 m" "edge_key_storable (src, rt, dst, ek)"
    "intern_edge_identity src rt dst ek m = (i, m')" "dense_of \<rho> m src = Some s" "dense_of \<rho> m dst = Some d"
  shows "edge_ready \<rho> \<sigma> m' s d i (src, rt, dst, ek)" "extends \<rho> m m'" "key_ok k \<Longrightarrow> node_at m' k = node_at m k"
    "edge_key_storable e' \<Longrightarrow> edge_at m' e' = edge_at m e'" "m_born_edges m' = m_born_edges m" "m_edge_base m' = m_edge_base m"
proof -
  have "room (0 + 6) m" using assms(3) by (simp only: add_0)
  note sp = intern_edge_identity_spec [OF assms(5) this]
  have x: "extends \<rho> m m'" using extends_intern [OF assms(1) sp(1)] sp(2) by simp
  show "extends \<rho> m m'" by (fact x)
  have k: "key_ok src" "key_ok dst" using assms(4) by (simp_all add: edge_key_storable_def)
  have "nodes_ok \<rho> m'" using nodes_ok_grow [OF assms(1) sp(1)] sp(2) by simp
  then show "edge_ready \<rho> \<sigma> m' s d i (src, rt, dst, ek)"
    using edges_ok_extends [OF assms(2) x] sp(3,4) extends_dense [OF x k(1) assms(6)] extends_dense [OF x k(2) assms(7)]
      assms(4) edge_names_storable [of i "m_interner m'"] by (simp add: edge_ready_def)
  show "key_ok k \<Longrightarrow> node_at m' k = node_at m k" using node_at_grow [OF assms(1) sp(1)] sp(2) by simp
  show "edge_key_storable e' \<Longrightarrow> edge_at m' e' = edge_at m e'"
    using edge_at_grow [OF assms(2) nodes_okD(1) [OF assms(1)] sp(1) _ _ refl] x by (simp add: extends_def)
  show "m_born_edges m' = m_born_edges m" "m_edge_base m' = m_edge_base m" using x by (simp_all add: extends_def)
qed

lemma edge_at_extends:
  assumes "nodes_ok \<rho> m" "edges_ok \<rho> \<sigma> m" "extends \<rho> m m'" "edge_key_storable ek"
  shows "edge_at m' ek = edge_at m ek"
  using edge_at_grow [OF assms(2) nodes_okD(1) [OF assms(1)] _ assms(4) _ refl] assms(3) by (simp add: extends_def)

lemma edge_prologue_spec:
  assumes ok: "nodes_ok \<rho> m" "edges_ok \<rho> \<sigma> m" and rm: "room 10 m" and ft: "fits2 m"
    and ek: "edge_key_storable (src, rt, dst, key)" and r: "resolves \<rho> m src rs" "resolves \<rho> m dst rd"
    and e: "edge_prologue lay src rt dst rs rd key m = (s, d, i, m')"
  shows "edge_ready \<rho> \<sigma> m' s d i (src, rt, dst, key)" "efits m' = efits m"
    "edge_key_storable e' \<Longrightarrow> edge_at m' e' = edge_at m e'"
    "key_ok k \<Longrightarrow> delta_at m' k = (if k \<in> {src, dst} \<and> dense_of \<rho> m k = None then Some nd_default else delta_at m k)"
proof -
  obtain sl sp sv where src: "src = (sl, sp, sv)" by (metis prod_cases3)
  obtain dl dp dv where dst: "dst = (dl, dp, dv)" by (metis prod_cases3)
  obtain s' m1 where 1: "endpoint_dense_or_create lay sl sp sv rs m = (s', m1)" by fastforce
  obtain d' m2 where 2: "endpoint_dense_or_create lay dl dp dv rd m1 = (d', m2)" by fastforce
  obtain i' m3 where 3: "intern_edge_identity src rt dst key m2 = (i', m3)" by fastforce
  have eq: "s' = s" "d' = d" "i' = i" "m3 = m'" using e 1 2 3 src dst by (simp_all add: edge_prologue_def)
  have k: "key_ok src" "key_ok dst" using ek by (simp_all add: edge_key_storable_def)
  have "room (8 + 2) m" using rm by simp
  note s = endpoint_spec [OF ok(1) this k(1) [unfolded src] _ r(1) [unfolded src] 1, folded src]
  have f: "fits m" using ft by (simp add: fits_def fits2_def)
  have f1: "fits m1" using ft s(5,6) [OF f] by (simp add: fits_def fits2_def)
  have "room (6 + 2) m1" using s(4) [OF f] by simp
  note d = endpoint_spec [OF s(1) [OF f] this k(2) [unfolded dst] f1
      resolves_extends [OF s(2) [OF f] k(2) r(2), unfolded dst] 2, folded dst]
  have x2: "extends \<rho> m m2" using extends_trans [OF s(2) [OF f] d(2)] .
  have ds: "dense_of \<rho> m2 src = Some s" using extends_dense [OF d(2) k(1) s(3) [OF f]] eq by simp
  have dd: "dense_of \<rho> m2 dst = Some d" using d(3) eq by simp
  note i = edge_ready_intern [OF d(1) edges_ok_extends [OF ok(2) x2] d(4) ek 3 ds dd, unfolded eq]
  show "edge_ready \<rho> \<sigma> m' s d i (src, rt, dst, key)" by (fact i(1))
  show "efits m' = efits m" using i(5,6) x2 by (simp add: efits_def extends_def)
  show "edge_key_storable e' \<Longrightarrow> edge_at m' e' = edge_at m e'"
    using i(4) edge_at_extends [OF ok x2] by simp
  assume kk: "key_ok k"
  have "dense_of \<rho> m1 k = None \<longleftrightarrow> dense_of \<rho> m k = None \<and> k \<noteq> src" if "k = dst"
    using dense_of_None [OF s(1) [OF f] kk] dense_of_None [OF ok(1) kk] s(7) [OF f kk] by (auto simp: delta_at_def)
  then show "delta_at m' k = (if k \<in> {src, dst} \<and> dense_of \<rho> m k = None then Some nd_default else delta_at m k)"
    using i(3) [OF kk] d(7) [OF kk] s(7) [OF f kk] by (auto simp: delta_at_def)
qed

end
