(* ===== verification/Memtable_Replay.thy ===== *)
theory Memtable_Replay
  imports Memtable_Edges
begin

text \<open>
  Resolving and applying whole logs: \<^verbatim>\<open>resolve_op\<close> of \<^verbatim>\<open>slater/src/server/write.rs\<close> and
  \<^verbatim>\<open>resolve_with_l0\<close> and the replay loops of \<^verbatim>\<open>slater/src/delta_writer.rs\<close>. The probes of the core
  generation are parameters: the index probe of a business key and the adjacency probe for an
  existing core edge. Replaying a log computes the fold of the operations' effects over an abstract
  pair of maps, and preserves the whole invariant.
\<close>

section \<open>Resolution\<close>

datatype key_resolution = Unique u64 | Absent | Ambiguous | Unindexed

definition unique_id :: "key_resolution \<Rightarrow> u64 option" where
  "unique_id r = (case r of Unique d \<Rightarrow> Some d | _ \<Rightarrow> None)"

type_synonym core_edge_probe = "u64 \<Rightarrow> str \<Rightarrow> u64 \<Rightarrow> (str \<times> Value) option \<Rightarrow> u64 option"

definition resolve_op :: "(node_key \<Rightarrow> key_resolution) \<Rightarrow> core_edge_probe \<Rightarrow> wal_op \<Rightarrow> op_resolution" where
  "resolve_op probe find_core op =
     (case wal_node_key op of Some k \<Rightarrow> ResNode (unique_id (probe k))
      | None \<Rightarrow> (case wal_edge_keys op of
          Some (src, reltype, dst) \<Rightarrow>
            (let s = unique_id (probe src); d = unique_id (probe dst);
                 e = (case op of UpsertEdge _ _ _ _ _ _ _ _ _ _ \<Rightarrow>
                        (case (s, d) of (Some s', Some d') \<Rightarrow> find_core s' reltype d' (edge_identity_key op) | _ \<Rightarrow> None)
                      | _ \<Rightarrow> None)
             in ResEdge s d e)
        | None \<Rightarrow> ResNode None))"

fun born_in_levels :: "memtable list \<Rightarrow> node_key \<Rightarrow> u64 option" where
  "born_in_levels [] k = None"
| "born_in_levels (m # ms) k = (case k of (l, p, v) \<Rightarrow>
     case born_synthetic_for_identity m l p v of Some d \<Rightarrow> Some d | None \<Rightarrow> born_in_levels ms k)"

definition resolve_with_l0 :: "wal_op \<Rightarrow> op_resolution \<Rightarrow> memtable list \<Rightarrow> op_resolution" where
  "resolve_with_l0 op base l0 =
     (case base of
        ResNode None \<Rightarrow> ResNode (Option.bind (wal_node_key op) (born_in_levels l0))
      | ResNode (Some d) \<Rightarrow> ResNode (Some d)
      | ResEdge s d e \<Rightarrow> (case wal_edge_keys op of
          Some (src, _, dst) \<Rightarrow>
            ResEdge (case s of Some x \<Rightarrow> Some x | None \<Rightarrow> born_in_levels l0 src)
                    (case d of Some x \<Rightarrow> Some x | None \<Rightarrow> born_in_levels l0 dst) e
        | None \<Rightarrow> base))"

text \<open>Replaying records into a memtable.\<close>

fun apply_all :: "layout \<Rightarrow> (wal_op \<Rightarrow> op_resolution) \<Rightarrow> wal_op list \<Rightarrow> memtable \<Rightarrow> memtable option" where
  "apply_all lay resolve [] m = Some m"
| "apply_all lay resolve (op # ops) m =
     Option.bind (apply_op lay op (resolve op) m) (apply_all lay resolve ops)"

section \<open>The resolver of a stack of levels\<close>

definition level_resolver :: "(node_key \<Rightarrow> key_resolution) \<Rightarrow> memtable list \<Rightarrow> resolver" where
  "level_resolver probe l0 k = (if key_ok k
     then (case unique_id (probe k) of Some d \<Rightarrow> Some d | None \<Rightarrow> born_in_levels l0 k) else None)"

definition edge_probe :: "(node_key \<Rightarrow> key_resolution) \<Rightarrow> core_edge_probe \<Rightarrow> edge_resolver" where
  "edge_probe probe find_core ek = (case ek of (src, rt, dst, key) \<Rightarrow>
     case (unique_id (probe src), unique_id (probe dst)) of
       (Some s, Some d) \<Rightarrow> find_core s rt d key | _ \<Rightarrow> None)"

lemma resolution_node:
  "wal_node_key op = Some k \<Longrightarrow> key_ok k \<Longrightarrow>
   resolve_with_l0 op (resolve_op probe find_core op) l0 = ResNode (level_resolver probe l0 k)"
  by (simp add: resolve_with_l0_def resolve_op_def level_resolver_def split: option.splits)

lemma resolution_edge:
  assumes "wal_edge_keys op = Some (s, rt, d)" "key_ok s" "key_ok d"
  shows "\<exists>e. resolve_with_l0 op (resolve_op probe find_core op) l0 =
      ResEdge (level_resolver probe l0 s) (level_resolver probe l0 d) e \<and>
    ((\<exists>a b c f g h i j k' l'. op = UpsertEdge a b c f g h i j k' l') \<longrightarrow>
       e = edge_probe probe find_core (s, rt, d, edge_identity_key op))"
  using assms
  by (cases op) (auto simp: resolve_with_l0_def resolve_op_def level_resolver_def edge_probe_def Let_def split: option.splits)

section \<open>The specification\<close>

type_synonym delta_state = "(node_key \<Rightarrow> node_delta option) \<times> (edge_key \<Rightarrow> edge_delta option)"

definition known :: "resolver \<Rightarrow> (node_key \<Rightarrow> node_delta option) \<Rightarrow> node_key \<Rightarrow> bool" where
  "known \<rho> N k \<longleftrightarrow> \<rho> k \<noteq> None \<or> N k \<noteq> None"

definition spec_step :: "resolver \<Rightarrow> wal_op \<Rightarrow> delta_state \<Rightarrow> delta_state" where
  "spec_step \<rho> op S = (case S of (N, E) \<Rightarrow> case op of
     DeleteNode l p v \<Rightarrow> (if known \<rho> N (l, p, v) then N((l, p, v) \<mapsto> nd_tombstone) else N, E)
   | UpsertEdge sl sp sv rt dl dp dv key rep ps \<Rightarrow>
       (\<lambda>k. if k \<in> {(sl, sp, sv), (dl, dp, dv)} \<and> \<not> known \<rho> N k then Some nd_default else N k,
        let ek = ((sl, sp, sv), rt, (dl, dp, dv), key)
        in E(ek \<mapsto> merged_edge key rep ps (case E ek of None \<Rightarrow> ed_default | Some d \<Rightarrow> d)))
   | DeleteEdge sl sp sv rt dl dp dv key \<Rightarrow>
       (N, if known \<rho> N (sl, sp, sv) \<and> known \<rho> N (dl, dp, dv)
           then E(((sl, sp, sv), rt, (dl, dp, dv), key) \<mapsto> ed_tombstone) else E)
   | _ \<Rightarrow> (case wal_node_key op of None \<Rightarrow> S
       | Some k \<Rightarrow> (N(k \<mapsto> node_effect op (case N k of None \<Rightarrow> nd_default | Some d \<Rightarrow> d)), E)))"

definition agrees :: "memtable \<Rightarrow> delta_state \<Rightarrow> bool" where
  "agrees m S \<longleftrightarrow> (\<forall>k. key_ok k \<longrightarrow> delta_at m k = fst S k) \<and>
     (\<forall>ek. edge_key_storable ek \<longrightarrow> edelta_at m ek = snd S ek)"

lemma agreesD:
  assumes "agrees m S"
  shows "key_ok k \<Longrightarrow> delta_at m k = fst S k" "edge_key_storable ek \<Longrightarrow> edelta_at m ek = snd S ek"
  using assms unfolding agrees_def by blast+

lemma agreesI:
  "(\<And>k. key_ok k \<Longrightarrow> delta_at m k = fst S k) \<Longrightarrow> (\<And>ek. edge_key_storable ek \<Longrightarrow> edelta_at m ek = snd S ek) \<Longrightarrow> agrees m S"
  unfolding agrees_def by blast

definition op_storable :: "wal_op \<Rightarrow> bool" where
  "op_storable op \<longleftrightarrow> (case wal_node_key op of Some k \<Rightarrow> key_ok k | None \<Rightarrow>
     (case wal_edge_keys op of Some (s, rt, d) \<Rightarrow> edge_key_storable (s, rt, d, edge_identity_key op) | None \<Rightarrow> True))"

text \<open>Room in the name table and in the two id spaces for \<open>n\<close> more operations.\<close>

definition capacity :: "nat \<Rightarrow> memtable \<Rightarrow> bool" where
  "capacity n m \<longleftrightarrow> length (inames (m_interner m)) + 10 * n \<le> 2 ^ 32 \<and>
     unat (m_base m) + length (m_born m) + 2 * n < 2 ^ 64 \<and> unat (m_edge_base m) + length (m_born_edges m) + n < 2 ^ 64"

section \<open>Growth\<close>

definition grown :: "nat \<Rightarrow> nat \<Rightarrow> nat \<Rightarrow> memtable \<Rightarrow> memtable \<Rightarrow> bool" where
  "grown a b c m m' \<longleftrightarrow> length (inames (m_interner m')) \<le> length (inames (m_interner m)) + a \<and>
     m_base m' = m_base m \<and> length (m_born m') \<le> length (m_born m) + b \<and>
     m_edge_base m' = m_edge_base m \<and> length (m_born_edges m') \<le> length (m_born_edges m) + c"

lemma grown_trans: "grown a b c m m' \<Longrightarrow> grown a' b' c' m' m'' \<Longrightarrow> grown (a + a') (b + b') (c + c') m m''"
  by (simp add: grown_def)

lemma grown_mono: "grown a b c m m' \<Longrightarrow> a \<le> a' \<Longrightarrow> b \<le> b' \<Longrightarrow> c \<le> c' \<Longrightarrow> grown a' b' c' m m'"
  by (simp add: grown_def)

lemma capacity_grown: "capacity (Suc n) m \<Longrightarrow> grown 10 2 1 m m' \<Longrightarrow> capacity n m'"
  by (simp add: capacity_def grown_def)

lemma intern_node_grown: "intern_node l p v m = (i, m') \<Longrightarrow> grown 2 0 0 m m'"
  using intern_growth [of l "m_interner m"] intern_growth [of p "snd (intern l (m_interner m))"]
  by (auto simp: intern_node_def grown_def split: prod.splits)

lemma intern_edge_grown: "intern_edge_identity src rt dst key m = (i, m') \<Longrightarrow> grown 6 0 0 m m'"
proof -
  assume a: "intern_edge_identity src rt dst key m = (i, m')"
  obtain sl sp sv dl dp dv where sd: "src = (sl, sp, sv)" "dst = (dl, dp, dv)" by (metis prod_cases3)
  obtain s m1 where 1: "intern_node sl sp sv m = (s, m1)" by fastforce
  obtain r t where 2: "intern rt (m_interner m1) = (r, t)" by fastforce
  obtain d m2 where 3: "intern_node dl dp dv (m1\<lparr>m_interner := t\<rparr>) = (d, m2)" by fastforce
  have "grown 1 0 0 m1 (m1\<lparr>m_interner := t\<rparr>)" using intern_growth [of rt "m_interner m1"] 2 by (simp add: grown_def)
  from grown_trans [OF grown_trans [OF intern_node_grown [OF 1] this] intern_node_grown [OF 3]]
  have g: "grown 5 0 0 m m2" by simp
  have "grown 1 0 0 m2 m'"
    using a sd 1 2 3 intern_growth [of _ "m_interner m2"]
    by (cases key) (auto simp: intern_edge_identity_def grown_def split: prod.splits, metis snd_conv)
  from grown_trans [OF g this] show ?thesis by simp
qed

lemma endpoint_grown: "endpoint_dense_or_create lay l p v r m = (d, m') \<Longrightarrow> grown 2 1 0 m m'"
  using intern_node_grown [of l p v m]
  by (auto simp: endpoint_dense_or_create_def Let_def grown_def split: option.splits prod.splits)

lemma born_endpoint_grown: "born_endpoint_dense l p v r m = (x, m') \<Longrightarrow> grown 2 0 0 m m'"
  using intern_node_grown [of l p v m]
  by (auto simp: born_endpoint_dense_def grown_def split: option.splits prod.splits)

lemma upd_grown [simp]:
  "grown a b c m (upd_delta x f m') = grown a b c m m'" "grown a b c m (upd_edge x g m') = grown a b c m m'"
  "grown a b c m (m'\<lparr>m_bytes := n\<rparr>) = grown a b c m m'"
  by (simp_all add: grown_def upd_delta_def upd_edge_def split: option.splits)

lemma upd_counters [simp]:
  "m_interner (upd_edge x f m) = m_interner m" "m_base (upd_edge x f m) = m_base m" "m_born (upd_edge x f m) = m_born m"
  "m_edge_base (upd_edge x f m) = m_edge_base m" "m_born_edges (upd_edge x f m) = m_born_edges m"
  by (simp_all add: upd_edge_def split: option.splits)

lemma edge_bodies_grown:
  "grown 0 0 1 m (upsert_edge_at lay s d i key rep ps m)" "grown 0 0 1 m (delete_edge_at lay s d i m)"
  "grown 0 0 1 m (patch_core_edge_at lay s d i key cid rep ps m)"
  by (auto simp: grown_def upsert_edge_at_def delete_edge_at_def patch_core_edge_at_def Let_def split: option.splits)

lemma edge_prologue_grown: "edge_prologue lay src rt dst rs rd key m = (s, d, i, m') \<Longrightarrow> grown 10 2 0 m m'"
proof -
  assume a: "edge_prologue lay src rt dst rs rd key m = (s, d, i, m')"
  obtain sl sp sv dl dp dv where sd: "src = (sl, sp, sv)" "dst = (dl, dp, dv)" by (metis prod_cases3)
  obtain s' m1 where 1: "endpoint_dense_or_create lay sl sp sv rs m = (s', m1)" by fastforce
  obtain d' m2 where 2: "endpoint_dense_or_create lay dl dp dv rd m1 = (d', m2)" by fastforce
  have 3: "intern_edge_identity src rt dst key m2 = (i, m')" using a sd 1 2 by (auto simp: edge_prologue_def split: prod.splits)
  from grown_trans [OF grown_trans [OF endpoint_grown [OF 1] endpoint_grown [OF 2]] intern_edge_grown [OF 3]]
  show ?thesis by (simp add: numeral_2_eq_2)
qed

lemma delete_edge_grown: "grown 10 2 1 m (delete_edge_keyed lay src rt dst rs rd key m)"
proof -
  obtain sl sp sv dl dp dv where sd: "src = (sl, sp, sv)" "dst = (dl, dp, dv)" by (metis prod_cases3)
  obtain xs m1 where 1: "born_endpoint_dense sl sp sv rs m = (xs, m1)" by fastforce
  obtain xd m2 where 2: "born_endpoint_dense dl dp dv rd m1 = (xd, m2)" by fastforce
  obtain i m3 where 3: "intern_edge_identity src rt dst key m2 = (i, m3)" by fastforce
  note g1 = born_endpoint_grown [OF 1] and g2 = grown_trans [OF born_endpoint_grown [OF 1] born_endpoint_grown [OF 2]]
  note g3 = grown_trans [OF grown_trans [OF g2 intern_edge_grown [OF 3]] edge_bodies_grown(2)]
  have "grown 10 2 1 m m1" by (rule grown_mono [OF g1]) simp_all
  moreover have "grown 10 2 1 m m2" by (rule grown_mono [OF g2]) simp_all
  moreover have "grown 10 2 1 m (delete_edge_at lay s d i m3)" for s d by (rule grown_mono [OF g3]) simp_all
  ultimately show ?thesis using 1 2 3 sd by (auto simp: delete_edge_keyed_def split: option.splits)
qed

lemma assigns_grown: "assigns \<rho> k nd m m' \<Longrightarrow> grown 2 1 0 m m'"
  by (auto simp: assigns_def grown_def set_delta_def Let_def put_entry_def push_born_def split: option.splits)

section \<open>One operation\<close>

text \<open>The resolution an operation is applied with.\<close>

definition resolved_by :: "resolver \<Rightarrow> edge_resolver \<Rightarrow> wal_op \<Rightarrow> op_resolution \<Rightarrow> bool" where
  "resolved_by \<rho> \<sigma> op res \<longleftrightarrow>
     (case wal_node_key op of Some k \<Rightarrow> res = ResNode (\<rho> k)
      | None \<Rightarrow> (case wal_edge_keys op of
          Some (s, rt, d) \<Rightarrow> (\<exists>e. res = ResEdge (\<rho> s) (\<rho> d) e \<and>
            (case op of UpsertEdge _ _ _ _ _ _ _ _ _ _ \<Rightarrow> e = \<sigma> (s, rt, d, edge_identity_key op) | _ \<Rightarrow> True))
        | None \<Rightarrow> True))"

lemma capacity_room:
  assumes "memtable_ok \<rho> \<sigma> m" "capacity (Suc n) m"
  shows "room 2 m" "room 10 m" "fits m" "fits2 m" "efits m"
  using assms nodes_okD(1) [of \<rho> m]
  by (simp_all add: memtable_ok_def capacity_def room_def fits_def fits2_def efits_def)

lemma edge_assignsD:
  assumes "edge_assigns \<rho> \<sigma> ek nd m m'"
  shows "edges_ok \<rho> \<sigma> m'" "nodes_ok \<rho> m'" "node_at m' k = node_at m k"
    "edge_key_storable e \<Longrightarrow> edelta_at m' e = (if e = ek then Some nd else edelta_at m e)"
  using assms unfolding edge_assigns_def by blast+

lemma agrees_old: "agrees m S \<Longrightarrow> key_ok k \<Longrightarrow> old_delta m k = (case fst S k of None \<Rightarrow> nd_default | Some d \<Rightarrow> d)"
  by (simp add: agreesD(1) old_delta_def)

lemma agrees_known:
  "memtable_ok \<rho> \<sigma> m \<Longrightarrow> agrees m S \<Longrightarrow> key_ok k \<Longrightarrow> known \<rho> (fst S) k \<longleftrightarrow> dense_of \<rho> m k \<noteq> None"
  using dense_of_None [of \<rho> m k] agreesD(1) [of m S k] by (auto simp: known_def memtable_ok_def delta_at_def)

lemma node_step:
  assumes ok: "memtable_ok \<rho> \<sigma> m" and cap: "capacity (Suc n) m" and ag: "agrees m S"
    and k: "wal_node_key op = Some k" "key_ok k"
  shows "\<exists>m'. apply_op lay op (ResNode (\<rho> k)) m = Some m' \<and> memtable_ok \<rho> \<sigma> m' \<and> capacity n m' \<and>
    agrees m' (spec_step \<rho> op S)"
proof -
  obtain N E where S: "S = (N, E)" by fastforce
  have nok: "nodes_ok \<rho> m" and eok: "edges_ok \<rho> \<sigma> m" using ok by (simp_all add: memtable_ok_def)
  note c = capacity_room [OF ok cap]
  have r: "resolves \<rho> m k (\<rho> k)" by (simp add: resolves_def)
  show ?thesis
  proof (cases "(\<exists>l p v. op = DeleteNode l p v) \<and> \<not> known \<rho> N k")
    case True
    then obtain l p v where op: "op = DeleteNode l p v" "k = (l, p, v)" using k by auto
    have na: "\<rho> k = None" "node_at m k = None"
      using True agreesD(1) [OF ag k(2)] by (auto simp: known_def S delta_at_def)
    obtain i m1 where im: "intern_node l p v m = (i, m1)" by fastforce
    have v: "value_storable v" using k(2) op by (simp add: key_ok_def)
    note n = intern_node_ok [OF nok c(1) v im]
    have x: "extends \<rho> m m1" using extends_intern [OF nok n(5)] n(6) by simp
    have "apply_op lay op (ResNode (\<rho> k)) m = Some m1" using delete_node_absent [OF nok c(1) v] op na im by simp
    moreover have "memtable_ok \<rho> \<sigma> m1" using n(1) edges_ok_extends [OF eok x] by (simp add: memtable_ok_def)
    moreover have "capacity n m1" by (rule capacity_grown [OF cap grown_mono [OF intern_node_grown [OF im]]]) simp_all
    moreover have "agrees m1 (spec_step \<rho> op S)"
    proof (rule agreesI)
      fix k' assume k': "key_ok k'"
      show "delta_at m1 k' = fst (spec_step \<rho> op S) k'"
        using agreesD(1) [OF ag k'] True op node_at_grow [OF nok n(5) k'] n(6) by (simp add: S spec_step_def delta_at_def)
    next
      fix ek assume ek: "edge_key_storable ek"
      show "edelta_at m1 ek = snd (spec_step \<rho> op S) ek"
        using agreesD(2) [OF ag ek] op edge_at_extends [OF nok eok x ek] by (simp add: S spec_step_def edelta_at_def)
    qed
    ultimately show ?thesis by blast
  next
    case False
    then have "\<exists>m'. apply_op lay op (ResNode (\<rho> k)) m = Some m' \<and> assigns \<rho> k (node_effect op (old_delta m k)) m m'"
      using agreesD(1) [OF ag k(2)] by (intro node_op_assigns [OF nok c(1,3) k r]) (auto simp: known_def S delta_at_def)
    then obtain m' where m': "apply_op lay op (ResNode (\<rho> k)) m = Some m'" "assigns \<rho> k (node_effect op (old_delta m k)) m m'"
      by blast
    note e = assigns_effect [OF nok c(3) k(2) node_effect_ok [OF old_delta_ok [OF nok k(2)]] m'(2)]
    have x: "extends \<rho> m m'" using extends_assigns [OF nok m'(2)] .
    have "memtable_ok \<rho> \<sigma> m'" using e(1) edges_ok_extends [OF eok x] by (simp add: memtable_ok_def)
    moreover have "capacity n m'" by (rule capacity_grown [OF cap grown_mono [OF assigns_grown [OF m'(2)]]]) simp_all
    moreover have "agrees m' (spec_step \<rho> op S)"
    proof -
      have "spec_step \<rho> op S = (N(k \<mapsto> node_effect op (old_delta m k)), E)"
        using k False agrees_old [OF ag k(2)] by (cases op) (auto simp: spec_step_def S)
      then show ?thesis
        using e(2) agreesD [OF ag] edge_at_extends [OF nok eok x] by (intro agreesI) (simp_all add: S edelta_at_def)
    qed
    ultimately show ?thesis using m'(1) by blast
  qed
qed

lemma upsert_edge_step:
  assumes ok: "memtable_ok \<rho> \<sigma> m" and cap: "capacity (Suc n) m" and ag: "agrees m S"
    and ek: "edge_key_storable (src, rt, dst, key)" and sd: "src = (sl, sp, sv)" "dst = (dl, dp, dv)"
  shows "\<exists>m'. apply_op lay (UpsertEdge sl sp sv rt dl dp dv key rep ps) (ResEdge (\<rho> src) (\<rho> dst) (\<sigma> (src, rt, dst, key))) m
      = Some m' \<and> memtable_ok \<rho> \<sigma> m' \<and> capacity n m' \<and> agrees m' (spec_step \<rho> (UpsertEdge sl sp sv rt dl dp dv key rep ps) S)"
proof -
  obtain N E where S: "S = (N, E)" by fastforce
  have nok: "nodes_ok \<rho> m" and eok: "edges_ok \<rho> \<sigma> m" using ok by (simp_all add: memtable_ok_def)
  note c = capacity_room [OF ok cap]
  let ?ek = "(src, rt, dst, key)"
  have r: "resolves \<rho> m src (\<rho> src)" "resolves \<rho> m dst (\<rho> dst)" by (simp_all add: resolves_def)
  obtain s d i m3 where p: "edge_prologue lay src rt dst (\<rho> src) (\<rho> dst) key m = (s, d, i, m3)" by (metis prod_cases4)
  note pr = edge_prologue_spec [OF nok eok c(2,4) ek r p]
  have old: "old_edge m3 ?ek = (case E ?ek of None \<Rightarrow> ed_default | Some d \<Rightarrow> d)"
    using pr(3) [OF ek] agreesD(2) [OF ag ek] by (simp add: old_edge_def edelta_at_def S)
  define m' where "m' = (case \<sigma> ?ek of None \<Rightarrow> upsert_edge_at lay s d i key rep ps m3
    | Some cid \<Rightarrow> patch_core_edge_at lay s d i key cid rep ps m3)"
  have as: "edge_assigns \<rho> \<sigma> ?ek (merged_edge key rep ps (old_edge m3 ?ek)) m3 m'"
    using upsert_edge_at_assigns [OF pr(1)] patch_core_edge_at_assigns [OF pr(1)] pr(2) c(5)
    by (auto simp: m'_def split: option.splits)
  have "grown 10 2 1 m m'"
  proof -
    have "grown 0 0 1 m3 m'" using edge_bodies_grown by (auto simp: m'_def split: option.splits)
    from grown_trans [OF edge_prologue_grown [OF p] this] show ?thesis by simp
  qed
  then have "capacity n m'" by (rule capacity_grown [OF cap])
  moreover have "apply_op lay (UpsertEdge sl sp sv rt dl dp dv key rep ps) (ResEdge (\<rho> src) (\<rho> dst) (\<sigma> ?ek)) m = Some m'"
    using p sd by (auto simp: m'_def upsert_edge_keyed_def patch_core_edge_keyed_def split: option.splits)
  moreover have "memtable_ok \<rho> \<sigma> m'" using edge_assignsD(1,2) [OF as] by (simp add: memtable_ok_def)
  moreover have "agrees m' (spec_step \<rho> (UpsertEdge sl sp sv rt dl dp dv key rep ps) S)"
  proof (rule agreesI)
    fix k assume k: "key_ok k"
    have "delta_at m' k = delta_at m3 k" by (simp add: edge_assignsD(3) [OF as] delta_at_def)
    also have "\<dots> = (if k \<in> {src, dst} \<and> dense_of \<rho> m k = None then Some nd_default else delta_at m k)" using pr(4) [OF k] .
    finally show "delta_at m' k = fst (spec_step \<rho> (UpsertEdge sl sp sv rt dl dp dv key rep ps) S) k"
      using agrees_known [OF ok ag k] agreesD(1) [OF ag k] sd by (auto simp: spec_step_def S)
  next
    fix e assume e: "edge_key_storable e"
    have "edelta_at m' e = (if e = ?ek then Some (merged_edge key rep ps (old_edge m3 ?ek)) else edelta_at m3 e)"
      using edge_assignsD(4) [OF as e] .
    then show "edelta_at m' e = snd (spec_step \<rho> (UpsertEdge sl sp sv rt dl dp dv key rep ps) S) e"
      using pr(3) [OF e] agreesD(2) [OF ag e] old sd by (simp add: spec_step_def S edelta_at_def Let_def)
  qed
  ultimately show ?thesis by blast
qed

lemma delete_edge_step:
  assumes ok: "memtable_ok \<rho> \<sigma> m" and cap: "capacity (Suc n) m" and ag: "agrees m S"
    and ek: "edge_key_storable (src, rt, dst, key)" and sd: "src = (sl, sp, sv)" "dst = (dl, dp, dv)"
  shows "\<exists>m'. apply_op lay (DeleteEdge sl sp sv rt dl dp dv key) (ResEdge (\<rho> src) (\<rho> dst) x) m
      = Some m' \<and> memtable_ok \<rho> \<sigma> m' \<and> capacity n m' \<and> agrees m' (spec_step \<rho> (DeleteEdge sl sp sv rt dl dp dv key) S)"
proof -
  obtain N E where S: "S = (N, E)" by fastforce
  have nok: "nodes_ok \<rho> m" and eok: "edges_ok \<rho> \<sigma> m" using ok by (simp_all add: memtable_ok_def)
  note c = capacity_room [OF ok cap]
  let ?ek = "(src, rt, dst, key)" and ?op = "DeleteEdge sl sp sv rt dl dp dv key"
  have k: "key_ok src" "key_ok dst" using ek by (simp_all add: edge_key_storable_def)
  have r: "resolves \<rho> m src (\<rho> src)" "resolves \<rho> m dst (\<rho> dst)" by (simp_all add: resolves_def)
  obtain xs m1 where 1: "born_endpoint_dense sl sp sv (\<rho> src) m = (xs, m1)" by fastforce
  obtain xd m2 where 2: "born_endpoint_dense dl dp dv (\<rho> dst) m1 = (xd, m2)" by fastforce
  have "room (8 + 2) m" using c(2) by simp
  note s = born_endpoint_spec [OF nok this k(1) [unfolded sd] r(1) [unfolded sd(1)] 1 [unfolded sd], folded sd]
  have "room (6 + 2) m1" using s(4) by simp
  note d = born_endpoint_spec [OF s(1) this k(2) [unfolded sd] resolves_extends [OF s(2) k(2) r(2), unfolded sd(2)]
      2 [unfolded sd], folded sd]
  have x2: "extends \<rho> m m2" using extends_trans [OF s(2) d(2)] .
  have xd: "xd = dense_of \<rho> m dst"
    using d(3) s(5) [OF k(2)] by (cases "\<rho> dst") (simp_all add: dense_of_def)
  define m' where "m' = delete_edge_keyed lay src rt dst (\<rho> src) (\<rho> dst) key m"
  have ap: "apply_op lay ?op (ResEdge (\<rho> src) (\<rho> dst) x) m = Some m'" using sd by (simp add: m'_def)
  have cp: "capacity n m'" unfolding m'_def by (rule capacity_grown [OF cap delete_edge_grown])
  have kn: "known \<rho> N src \<longleftrightarrow> xs \<noteq> None" "known \<rho> N dst \<longleftrightarrow> xd \<noteq> None"
    using agrees_known [OF ok ag] k s(3) xd by (simp_all add: S)
  have keep: "memtable_ok \<rho> \<sigma> y \<and> agrees y S" if "nodes_ok \<rho> y" "extends \<rho> m y" "\<And>k. key_ok k \<Longrightarrow> node_at y k = node_at m k" for y
    using that edges_ok_extends [OF eok that(2)] edge_at_extends [OF nok eok that(2)] agreesD [OF ag]
    by (auto simp: memtable_ok_def delta_at_def edelta_at_def intro!: agreesI)
  show ?thesis
  proof (cases "xs = None \<or> xd = None")
    case True
    then have "spec_step \<rho> ?op S = S" using kn sd by (auto simp: spec_step_def S)
    moreover have "m' = m1 \<or> m' = m2" using True 1 2 sd by (auto simp: m'_def delete_edge_keyed_def split: option.splits)
    ultimately show ?thesis using keep [OF s(1,2,5)] keep [OF d(1) x2] d(5) s(5) ap cp by auto
  next
    case False
    then obtain s' d' where x: "xs = Some s'" "xd = Some d'" by auto
    obtain i m3 where 3: "intern_edge_identity src rt dst key m2 = (i, m3)" by fastforce
    have ds: "dense_of \<rho> m2 src = Some s'" "dense_of \<rho> m2 dst = Some d'"
      using extends_dense [OF x2 k(1)] extends_dense [OF x2 k(2)] s(3) xd x by metis+
    note i = edge_ready_intern [OF d(1) edges_ok_extends [OF eok x2] d(4) ek 3 ds]
    have m': "m' = delete_edge_at lay s' d' i m3" using 1 2 3 x sd by (simp add: m'_def delete_edge_keyed_def)
    note as = edge_assignsD [OF delete_edge_at_assigns [OF i(1), of lay], folded m']
    have "agrees m' (spec_step \<rho> ?op S)"
    proof (rule agreesI)
      fix k' assume k': "key_ok k'"
      show "delta_at m' k' = fst (spec_step \<rho> ?op S) k'"
        using as(3) i(3) [OF k'] d(5) [OF k'] s(5) [OF k'] agreesD(1) [OF ag k'] by (simp add: delta_at_def spec_step_def S)
    next
      fix e assume e: "edge_key_storable e"
      show "edelta_at m' e = snd (spec_step \<rho> ?op S) e"
        using as(4) [OF e] i(4) [OF e] edge_at_extends [OF nok eok x2 e] agreesD(2) [OF ag e] kn x sd
        by (simp add: spec_step_def S edelta_at_def)
    qed
    then show ?thesis using ap cp as(1,2) by (simp add: memtable_ok_def)
  qed
qed

lemma op_step:
  assumes "memtable_ok \<rho> \<sigma> m" "capacity (Suc n) m" "agrees m S" "op_storable op" "resolved_by \<rho> \<sigma> op res"
  shows "\<exists>m'. apply_op lay op res m = Some m' \<and> memtable_ok \<rho> \<sigma> m' \<and> capacity n m' \<and> agrees m' (spec_step \<rho> op S)"
proof (cases "wal_node_key op")
  case (Some k)
  then show ?thesis using node_step [OF assms(1-3) Some] assms(4,5) by (simp add: op_storable_def resolved_by_def)
next
  case None
  then show ?thesis
    using assms(4,5) upsert_edge_step [OF assms(1-3) _ refl refl] delete_edge_step [OF assms(1-3) _ refl refl]
    by (cases op) (auto simp: op_storable_def resolved_by_def)
qed

lemma apply_all_refines:
  assumes "memtable_ok \<rho> \<sigma> m" "capacity (length ops) m" "agrees m S" "list_all op_storable ops"
    "list_all (\<lambda>op. resolved_by \<rho> \<sigma> op (resolve op)) ops"
  shows "\<exists>m'. apply_all lay resolve ops m = Some m' \<and> memtable_ok \<rho> \<sigma> m' \<and> agrees m' (fold (spec_step \<rho>) ops S)"
  using assms
proof (induction ops arbitrary: m S)
  case (Cons op ops)
  obtain m1 where m1: "apply_op lay op (resolve op) m = Some m1" "memtable_ok \<rho> \<sigma> m1" "capacity (length ops) m1"
    "agrees m1 (spec_step \<rho> op S)"
    using op_step [OF Cons.prems(1) _ Cons.prems(3), of "length ops" op "resolve op" lay] Cons.prems(2,4,5) by auto
  then show ?case using Cons.IH [OF m1(2,3,4)] Cons.prems(4,5) by simp
qed simp

lemma resolution_resolved:
  assumes "op_storable op"
  shows "resolved_by (level_resolver probe l0) (edge_probe probe find_core) op
    (resolve_with_l0 op (resolve_op probe find_core op) l0)"
proof (cases "wal_node_key op")
  case (Some k)
  then show ?thesis using assms by (simp add: resolved_by_def op_storable_def resolution_node)
next
  case None
  then obtain s rt d where k: "wal_edge_keys op = Some (s, rt, d)" by (cases op) auto
  then have "key_ok s" "key_ok d" using assms None by (simp_all add: op_storable_def edge_key_storable_def)
  from resolution_edge [OF k this, of probe find_core l0] show ?thesis
    using None k by (cases op) (auto simp: resolved_by_def)
qed

lemma with_bases_memtable_ok:
  assumes "resolver_ok \<rho> b" "edge_resolver_ok \<sigma> eb"
  shows "memtable_ok \<rho> \<sigma> (with_bases b eb)"
proof -
  have "edges_ok \<rho> \<sigma> (with_bases b eb)"
    using assms(2) by (simp add: edges_ok_def with_bases_def adj_ok_def adj_def by_edge_ok_def born_edges_ok_def
        unat_u64_less [THEN less_imp_le, simplified])
  then show ?thesis using with_bases_ok [OF assms(1)] by (simp add: memtable_ok_def)
qed

lemma with_bases_agrees: "agrees (with_bases b eb) (Map.empty, Map.empty)"
  by (rule agreesI) (auto simp: delta_at_def node_at_def edelta_at_def edge_at_def with_bases_def split: prod.splits)

section \<open>Stacked levels\<close>

text \<open>The levels of a writer, newest first, as flushing leaves them: each was filled while the ones below
  it resolved keys, and the next level starts its ids where this one stopped.\<close>

fun stack_ok :: "(node_key \<Rightarrow> key_resolution) \<Rightarrow> memtable list \<Rightarrow> u64 \<Rightarrow> bool" where
  "stack_ok probe [] base \<longleftrightarrow> resolver_ok (level_resolver probe []) base"
| "stack_ok probe (m # ms) base \<longleftrightarrow> stack_ok probe ms (m_base m) \<and> nodes_ok (level_resolver probe ms) m \<and>
     base = m_base m + of_nat (length (m_born m)) \<and> fits m"

lemma born_synthetic_node_at:
  "born_synthetic_for_identity m l p v = Option.bind (node_at m (l, p, v)) ne_synthetic"
  by (simp add: born_synthetic_for_identity_def node_at_def split: Option.bind_split)

lemma level_resolver_Cons:
  assumes "nodes_ok (level_resolver probe ms) m"
  shows "level_resolver probe (m # ms) k =
    (case level_resolver probe ms k of Some d \<Rightarrow> Some d
     | None \<Rightarrow> if key_ok k then Option.bind (node_at m k) ne_synthetic else None)"
proof (cases "key_ok k \<and> unique_id (probe k) = None \<and> Option.bind (node_at m k) ne_synthetic \<noteq> None")
  case True
  then obtain e where e: "node_at m k = Some e" "ne_synthetic e \<noteq> None" by (auto simp: Option.bind_eq_Some_conv)
  note s = node_at_Some [OF assms conjunct1 [OF True] e(1)]
  have "level_resolver probe ms k = None"
    using nodes_okD(6) [OF assms s(3)] s(2) e(2) by (auto simp: node_entry_ok_def)
  then show ?thesis using True by (auto simp: level_resolver_def born_synthetic_node_at split: prod.splits)
next
  case False
  then show ?thesis
    by (auto simp: level_resolver_def born_synthetic_node_at split: prod.splits option.splits)
qed

lemma synthetic_inj:
  assumes "nodes_ok \<rho> m" "key_ok k" "key_ok k'" "Option.bind (node_at m k) ne_synthetic = Some d"
    "Option.bind (node_at m k') ne_synthetic = Some d"
  shows "k = k'" "unat (m_base m) \<le> unat d" "unat d < unat (m_base m) + length (m_born m)"
proof -
  obtain e e' where e: "node_at m k = Some e" "ne_synthetic e = Some d" "node_at m k' = Some e'" "ne_synthetic e' = Some d"
    using assms(4,5) by (auto simp: Option.bind_eq_Some_conv)
  note s = node_at_Some [OF assms(1,2) e(1)] and s' = node_at_Some [OF assms(1,3) e(3)]
  obtain i where i: "i < length (m_born m)" "node_canonical_key (ne_identity e) = m_born m ! i" "unat d = unat (m_base m) + i"
    using synthetic_range [OF nodes_okD(4) [OF assms(1)] s(3) e(2)] by blast
  obtain i' where i': "node_canonical_key (ne_identity e') = m_born m ! i'" "unat d = unat (m_base m) + i'"
    using synthetic_range [OF nodes_okD(4) [OF assms(1)] s'(3) e(4)] by blast
  have "e = e'" using i i' s(3) s'(3) by (metis add_left_cancel option.inject)
  then show "k = k'" using s(2) s'(2) by simp
  show "unat (m_base m) \<le> unat d" "unat d < unat (m_base m) + length (m_born m)" using i by simp_all
qed

lemma stack_resolver_ok: "stack_ok probe ms base \<Longrightarrow> resolver_ok (level_resolver probe ms) base"
proof (induction ms arbitrary: base)
  case (Cons m ms)
  let ?r = "level_resolver probe ms" and ?r' = "level_resolver probe (m # ms)"
  have ok: "nodes_ok ?r m" and b: "base = m_base m + of_nat (length (m_born m))" and f: "fits m"
    using Cons.prems by simp_all
  have r: "resolver_ok ?r (m_base m)" using Cons.IH Cons.prems by simp
  have ub: "unat base = unat (m_base m) + length (m_born m)" using next_id f b by (simp add: fits_def)
  note c = level_resolver_Cons [OF ok]
  have low: "?r k = Some d \<Longrightarrow> unat d < unat (m_base m)" for k d using resolver_okD(1) [OF r] by (simp add: word_less_nat_alt)
  have two: "?r' k = Some d \<Longrightarrow> ?r k = Some d \<or> key_ok k \<and> ?r k = None \<and> Option.bind (node_at m k) ne_synthetic = Some d" for k d
    by (simp add: c split: option.splits if_splits)
  show ?case
    unfolding resolver_ok_def
  proof (intro allI impI conjI)
    fix k d assume k: "?r' k = Some d"
    show "d < base"
      using two [OF k] low synthetic_inj(3) [OF ok] ub by (fastforce simp: word_less_nat_alt)
    fix k' assume k': "?r' k' = Some d"
    show "k' = k"
    proof (cases "unat d < unat (m_base m)")
      case True
      then have "?r k = Some d" "?r k' = Some d"
        using two [OF k] two [OF k'] synthetic_inj(2) [OF ok] by (meson leD)+
      then show ?thesis using resolver_okD(2) [OF r] by blast
    next
      case False
      then show ?thesis using two [OF k] two [OF k'] low synthetic_inj(1) [OF ok] by blast
    qed
  qed
qed simp

section \<open>Properties of replay\<close>


definition ex_probe :: "node_key \<Rightarrow> key_resolution" where
  "ex_probe k = (if k = ex_person 1 then Unique 3 else Absent)"

definition ex_ops :: "wal_op list" where
  "ex_ops = [ex_op 2, UpsertEdge (ascii ''Person'') (ascii ''id'') (VInt 1) (ascii ''KNOWS'')
     (ascii ''Person'') (ascii ''id'') (VInt 2) None False []]"

lemma ex_probe_ok: "resolver_ok (level_resolver ex_probe []) 5" "edge_resolver_ok (edge_probe ex_probe (\<lambda>_ _ _ _. None)) 7"
proof -
  have "level_resolver ex_probe [] k = (if k = ex_person 1 then Some 3 else None)" for k
    using ex_key_ok by (auto simp: level_resolver_def ex_probe_def unique_id_def)
  then show "resolver_ok (level_resolver ex_probe []) 5" by (simp add: resolver_ok_def ex_person_def)
  have "edge_probe ex_probe (\<lambda>_ _ _ _. None) ek = None" for ek
    by (auto simp: edge_probe_def split: prod.splits option.splits)
  then show "edge_resolver_ok (edge_probe ex_probe (\<lambda>_ _ _ _. None)) 7" by (simp add: edge_resolver_ok_def)
qed

lemma ex_ops_storable: "list_all op_storable ex_ops"
  by (simp add: ex_ops_def ex_op_def op_storable_def key_ok_def edge_key_storable_def value_storable_def MAX_VALUE_DEPTH_def)


text \<open>C13: In a stack of levels each of which was filled above the previous ones, a business key has one
  dense id, two keys never share one, and every id lies below the base the next level starts from:
  the resolution the writer uses over its sealed levels is a valid resolver for the next level.\<close>

theorem stacked_levels_share_no_id:
  assumes "stack_ok probe levels base"
  shows "resolver_ok (level_resolver probe levels) base"
  using assms by (rule stack_resolver_ok)

theorem stacked_levels_share_no_id_witness:
  "resolver_ok (level_resolver ex_probe [ex_mem]) 6"
proof (rule stacked_levels_share_no_id)
  have "level_resolver ex_probe [] = ex_resolver"
    using ex_key_ok by (auto simp: level_resolver_def ex_probe_def ex_resolver_def unique_id_def)
  moreover have "m_base ex_mem = 5" "m_born ex_mem \<noteq> []" "length (m_born ex_mem) = 1" by code_simp+
  ultimately show "stack_ok ex_probe [ex_mem] 6"
    using ex_mem_ok ex_resolver_ok by (simp add: fits_def)
qed


end
