(* ===== verification/Delta_Snapshot.thy ===== *)
theory Delta_Snapshot
  imports Memtable_Replay
begin

text \<open>
  The read side of the delta: the trait \<^verbatim>\<open>LevelRead\<close>, its implementation by the memtable and the
  multi-level \<^verbatim>\<open>DeltaSnapshot\<close> of \<^verbatim>\<open>slater-delta/src/memtable.rs\<close>. A trait object is a record of
  its methods; a snapshot is the active memtable over a list of sealed levels, newest first. The
  locale \<open>level_reads\<close> is the contract of a level, interpreted on the memtable.
\<close>

section \<open>Levels\<close>

record level_read =
  lv_is_empty :: bool
  lv_node_delta_count :: nat
  lv_edge_delta_count :: nat
  lv_synthetic_base :: u64
  lv_edge_synthetic_base :: u64
  lv_born_count :: u64
  lv_born_edge_count :: u64
  lv_tombstoned_ids :: "u64 list"
  lv_born_count_with_label :: "str \<Rightarrow> u64"
  lv_has_edge_tombstones :: bool
  lv_born_edge_count_with_reltype :: "str \<Rightarrow> u64"
  lv_born_labels :: "str list"
  lv_born_edge_reltypes :: "str list"
  lv_node_patch :: "u64 \<Rightarrow> node_delta option"
  lv_node_tombstoned :: "u64 \<Rightarrow> bool option"
  lv_node_identity :: "u64 \<Rightarrow> node_key option"
  lv_born_ids_with_label :: "str \<Rightarrow> u64 list"
  lv_ids_with_added_label :: "str \<Rightarrow> u64 list"
  lv_ids_with_removed_label :: "str \<Rightarrow> u64 list"
  lv_label_overlay_ids :: "u64 list"
  lv_has_label_overlay :: bool
  lv_born_synthetic_for_identity :: "node_key \<Rightarrow> u64 option"
  lv_born_ids_in_index_eq :: "str \<Rightarrow> str \<Rightarrow> Value \<Rightarrow> u64 list"
  lv_born_ids_in_index_range :: "str \<Rightarrow> str \<Rightarrow> Value option \<Rightarrow> bool \<Rightarrow> Value option \<Rightarrow> bool \<Rightarrow> u64 list"
  lv_core_ids_patched_on_index :: "str \<Rightarrow> str \<Rightarrow> u64 list"
  lv_out_edges :: "u64 \<Rightarrow> delta_edge list"
  lv_in_edges :: "u64 \<Rightarrow> delta_edge list"
  lv_edge_delta :: "u64 \<Rightarrow> edge_delta option"
  lv_node_dense_ids :: "u64 list"
  lv_adj_out_nodes :: "u64 list"
  lv_edge_ids :: "u64 list"
  lv_core_patched_edges :: "(u64 \<times> u64 \<times> u64 \<times> str) list"

definition core_patched_edges :: "memtable \<Rightarrow> (u64 \<times> u64 \<times> u64 \<times> str) list" where
  "core_patched_edges m = List.map_filter (\<lambda>(cid, c). map_option (\<lambda>e. (cid, ee_src e, ee_dst e,
     name_or_empty m (ereltype (ee_identity e)))) (fmlookup (m_edges m) c)) (sorted_list_of_fmap (m_by_edge m))"

definition edge_ids :: "memtable \<Rightarrow> u64 list" where
  "edge_ids m = map (\<lambda>i. m_edge_base m + of_nat i) [0..<length (m_born_edges m)] @
     sorted_list_of_fset (fmdom (m_by_edge m))"

definition as_level :: "memtable \<Rightarrow> level_read" where
  "as_level m = \<lparr>
     lv_is_empty = mem_is_empty m,
     lv_node_delta_count = node_delta_count m,
     lv_edge_delta_count = edge_delta_count m,
     lv_synthetic_base = m_base m,
     lv_edge_synthetic_base = m_edge_base m,
     lv_born_count = born_count m,
     lv_born_edge_count = born_edge_count m,
     lv_tombstoned_ids = tombstoned_ids m,
     lv_born_count_with_label = born_count_with_label m,
     lv_has_edge_tombstones = has_edge_tombstones m,
     lv_born_edge_count_with_reltype = born_edge_count_with_reltype m,
     lv_born_labels = born_labels m,
     lv_born_edge_reltypes = born_edge_reltypes m,
     lv_node_patch = node_patch m,
     lv_node_tombstoned = (\<lambda>d. map_option nd_tombstoned (node_patch m d)),
     lv_node_identity = node_identity_by_dense m,
     lv_born_ids_with_label = born_ids_with_label m,
     lv_ids_with_added_label = ids_with_added_label m,
     lv_ids_with_removed_label = ids_with_removed_label m,
     lv_label_overlay_ids = label_overlay_ids m,
     lv_has_label_overlay = has_label_overlay m,
     lv_born_synthetic_for_identity = (\<lambda>(l, p, v). born_synthetic_for_identity m l p v),
     lv_born_ids_in_index_eq = born_ids_in_index_eq m,
     lv_born_ids_in_index_range = born_ids_in_index_range m,
     lv_core_ids_patched_on_index = core_ids_patched_on_index m,
     lv_out_edges = out_edges m,
     lv_in_edges = in_edges m,
     lv_edge_delta = edge_delta_by_id m,
     lv_node_dense_ids = sorted_list_of_fset (fmdom (m_by_dense m)),
     lv_adj_out_nodes = sorted_list_of_fset (fmdom (m_out m)),
     lv_edge_ids = edge_ids m,
     lv_core_patched_edges = core_patched_edges m\<rparr>"

section \<open>Snapshots\<close>

record delta_snapshot =
  ds_mem :: memtable
  ds_l0 :: "level_read list"

definition snapshot_empty :: delta_snapshot where
  "snapshot_empty = \<lparr>ds_mem = with_bases 0 0, ds_l0 = []\<rparr>"

definition from_memtable :: "memtable \<Rightarrow> delta_snapshot" where
  "from_memtable m = \<lparr>ds_mem = m, ds_l0 = []\<rparr>"

definition with_levels :: "memtable \<Rightarrow> level_read list \<Rightarrow> delta_snapshot" where
  "with_levels m l0 = \<lparr>ds_mem = m, ds_l0 = l0\<rparr>"

definition levels_newest_first :: "delta_snapshot \<Rightarrow> level_read list" where
  "levels_newest_first s = as_level (ds_mem s) # ds_l0 s"

definition levels_oldest_first :: "delta_snapshot \<Rightarrow> level_read list" where
  "levels_oldest_first s = rev (ds_l0 s) @ [as_level (ds_mem s)]"

definition snap_is_empty :: "delta_snapshot \<Rightarrow> bool" where
  "snap_is_empty s \<longleftrightarrow> mem_is_empty (ds_mem s) \<and> list_all lv_is_empty (ds_l0 s)"

text \<open>\<^verbatim>\<open>sort_unstable\<close> and \<^verbatim>\<open>dedup\<close> of the ids the levels list.\<close>

definition sort_dedup :: "'a::linorder list \<Rightarrow> 'a list" where
  "sort_dedup xs = remdups_adj (sort xs)"

definition snap_node_dense_ids :: "delta_snapshot \<Rightarrow> u64 list" where
  "snap_node_dense_ids s = sort_dedup (concat (map lv_node_dense_ids (levels_oldest_first s)))"

definition edge_dense_ids :: "delta_snapshot \<Rightarrow> u64 list" where
  "edge_dense_ids s = sort_dedup (concat (map lv_edge_ids (levels_oldest_first s)))"

definition snap_adj_out_nodes :: "delta_snapshot \<Rightarrow> u64 list" where
  "snap_adj_out_nodes s = sort_dedup (concat (map lv_adj_out_nodes (levels_oldest_first s)))"

definition snap_core_patched_edges :: "delta_snapshot \<Rightarrow> (u64 \<times> u64 \<times> u64 \<times> str) list" where
  "snap_core_patched_edges s = sorted_list_of_fmap (fminsert_all
     (concat (map lv_core_patched_edges (levels_oldest_first s))) fmempty)"

fun fold_levels :: "node_delta option \<Rightarrow> node_delta option list \<Rightarrow> node_delta option" where
  "fold_levels acc [] = acc"
| "fold_levels acc (None # ds) = fold_levels acc ds"
| "fold_levels None (Some d # ds) = fold_levels (Some d) ds"
| "fold_levels (Some a) (Some d # ds) = fold_levels (Some (fold_newer a d)) ds"

definition snap_node_patch :: "delta_snapshot \<Rightarrow> u64 \<Rightarrow> node_delta option" where
  "snap_node_patch s d =
     (if ds_l0 s = [] then node_patch (ds_mem s) d
      else fold_levels None (map (\<lambda>l. lv_node_patch l d) (levels_oldest_first s)))"

fun first_some :: "('a \<Rightarrow> 'b option) \<Rightarrow> 'a list \<Rightarrow> 'b option" where
  "first_some f [] = None"
| "first_some f (x # xs) = (case f x of Some y \<Rightarrow> Some y | None \<Rightarrow> first_some f xs)"

definition is_tombstoned :: "delta_snapshot \<Rightarrow> u64 \<Rightarrow> bool" where
  "is_tombstoned s d = (case first_some (\<lambda>l. lv_node_tombstoned l d) (levels_newest_first s) of
     Some t \<Rightarrow> t | None \<Rightarrow> False)"

definition has_tombstones :: "delta_snapshot \<Rightarrow> bool" where
  "has_tombstones s =
     (if ds_l0 s = [] then tombstoned_ids (ds_mem s) \<noteq> []
      else list_ex (\<lambda>l. lv_tombstoned_ids l \<noteq> []) (levels_newest_first s))"

definition snap_has_edge_tombstones :: "delta_snapshot \<Rightarrow> bool" where
  "snap_has_edge_tombstones s =
     (if ds_l0 s = [] then has_edge_tombstones (ds_mem s)
      else list_ex lv_has_edge_tombstones (levels_newest_first s))"

definition snap_node_delta_count :: "delta_snapshot \<Rightarrow> nat" where
  "snap_node_delta_count s = sum_list (map lv_node_delta_count (levels_newest_first s))"

definition snap_edge_delta_count :: "delta_snapshot \<Rightarrow> nat" where
  "snap_edge_delta_count s = sum_list (map lv_edge_delta_count (levels_newest_first s))"

definition snap_synthetic_base :: "delta_snapshot \<Rightarrow> u64" where
  "snap_synthetic_base s = fold min (map lv_synthetic_base (ds_l0 s)) (m_base (ds_mem s))"

definition snap_born_count :: "delta_snapshot \<Rightarrow> u64" where
  "snap_born_count s = sum_list (map lv_born_count (levels_newest_first s))"

definition snap_born_count_with_label :: "delta_snapshot \<Rightarrow> str \<Rightarrow> u64" where
  "snap_born_count_with_label s label = sum_list (map (\<lambda>l. lv_born_count_with_label l label) (levels_newest_first s))"

definition snap_born_edge_count_with_reltype :: "delta_snapshot \<Rightarrow> str \<Rightarrow> u64" where
  "snap_born_edge_count_with_reltype s rt =
     sum_list (map (\<lambda>l. lv_born_edge_count_with_reltype l rt) (levels_newest_first s))"

definition snap_born_labels :: "delta_snapshot \<Rightarrow> str list" where
  "snap_born_labels s = sort_dedup (concat (map lv_born_labels (levels_newest_first s)))"

definition snap_born_edge_reltypes :: "delta_snapshot \<Rightarrow> str list" where
  "snap_born_edge_reltypes s = sort_dedup (concat (map lv_born_edge_reltypes (levels_newest_first s)))"

definition edge_counts_are_exact :: "delta_snapshot \<Rightarrow> bool" where
  "edge_counts_are_exact s \<longleftrightarrow>
     length (filter (\<lambda>l. 0 < lv_born_edge_count l) (levels_newest_first s)) \<le> 1 \<and> \<not> snap_has_edge_tombstones s"

definition effective_tombstoned_ids :: "delta_snapshot \<Rightarrow> u64 list" where
  "effective_tombstoned_ids s = sort (filter (is_tombstoned s)
     (remdups (concat (map lv_tombstoned_ids (levels_newest_first s)))))"

definition snap_node_identity_by_dense :: "delta_snapshot \<Rightarrow> u64 \<Rightarrow> node_key option" where
  "snap_node_identity_by_dense s d = first_some (\<lambda>l. lv_node_identity l d) (levels_newest_first s)"

definition snap_born_ids_with_label :: "delta_snapshot \<Rightarrow> str \<Rightarrow> u64 list" where
  "snap_born_ids_with_label s label =
     (if ds_l0 s = [] then born_ids_with_label (ds_mem s) label
      else concat (map (\<lambda>l. lv_born_ids_with_label l label) (levels_oldest_first s)))"

definition snap_ids_with_added_label :: "delta_snapshot \<Rightarrow> str \<Rightarrow> u64 list" where
  "snap_ids_with_added_label s label =
     sort_dedup (concat (map (\<lambda>l. lv_ids_with_added_label l label) (levels_newest_first s)))"

definition snap_ids_with_removed_label :: "delta_snapshot \<Rightarrow> str \<Rightarrow> u64 list" where
  "snap_ids_with_removed_label s label =
     sort_dedup (concat (map (\<lambda>l. lv_ids_with_removed_label l label) (levels_newest_first s)))"

definition snap_label_overlay_ids :: "delta_snapshot \<Rightarrow> u64 list" where
  "snap_label_overlay_ids s = sort_dedup (concat (map lv_label_overlay_ids (levels_newest_first s)))"

definition snap_has_label_overlay :: "delta_snapshot \<Rightarrow> bool" where
  "snap_has_label_overlay s \<longleftrightarrow> list_ex lv_has_label_overlay (levels_newest_first s)"

definition snap_born_synthetic_for_identity :: "delta_snapshot \<Rightarrow> node_key \<Rightarrow> u64 option" where
  "snap_born_synthetic_for_identity s k =
     first_some (\<lambda>l. lv_born_synthetic_for_identity l k) (levels_newest_first s)"

definition snap_born_ids_in_index_eq :: "delta_snapshot \<Rightarrow> str \<Rightarrow> str \<Rightarrow> Value \<Rightarrow> u64 list" where
  "snap_born_ids_in_index_eq s label prop key =
     (if ds_l0 s = [] then born_ids_in_index_eq (ds_mem s) label prop key
      else concat (map (\<lambda>l. lv_born_ids_in_index_eq l label prop key) (levels_oldest_first s)))"

definition snap_born_ids_in_index_range ::
    "delta_snapshot \<Rightarrow> str \<Rightarrow> str \<Rightarrow> Value option \<Rightarrow> bool \<Rightarrow> Value option \<Rightarrow> bool \<Rightarrow> u64 list" where
  "snap_born_ids_in_index_range s label prop lo li hi hinc =
     (if ds_l0 s = [] then born_ids_in_index_range (ds_mem s) label prop lo li hi hinc
      else concat (map (\<lambda>l. lv_born_ids_in_index_range l label prop lo li hi hinc) (levels_oldest_first s)))"

section \<open>The moved-value overlay of the range indexes\<close>

datatype index_state = ICore | IPatched Value | IAbsent

definition effective_index_state :: "delta_snapshot \<Rightarrow> u64 \<Rightarrow> str \<Rightarrow> index_state" where
  "effective_index_state s d prop =
     (case snap_node_patch s d of None \<Rightarrow> ICore
      | Some nd \<Rightarrow>
        if nd_tombstoned nd then ICore
        else (case fmlookup (nd_patches nd) prop of Some v \<Rightarrow> IPatched v
              | None \<Rightarrow>
                if nd_replaced nd \<or> prop |\<in>| nd_removed nd
                then (case snap_node_identity_by_dense s d of
                        Some (_, kname, _) \<Rightarrow> if kname = prop then ICore else IAbsent
                      | None \<Rightarrow> IAbsent)
                else ICore))"

definition core_hit_survives :: "delta_snapshot \<Rightarrow> u64 \<Rightarrow> str \<Rightarrow> (Value \<Rightarrow> bool) \<Rightarrow> bool" where
  "core_hit_survives s d prop p =
     (case effective_index_state s d prop of ICore \<Rightarrow> True | IPatched v \<Rightarrow> p v | IAbsent \<Rightarrow> False)"

definition core_hit_survives_eq :: "delta_snapshot \<Rightarrow> u64 \<Rightarrow> str \<Rightarrow> Value \<Rightarrow> bool" where
  "core_hit_survives_eq s d prop key = core_hit_survives s d prop (\<lambda>v. cmp_key v key = OEqual)"

definition core_hit_survives_range ::
    "delta_snapshot \<Rightarrow> u64 \<Rightarrow> str \<Rightarrow> Value option \<Rightarrow> bool \<Rightarrow> Value option \<Rightarrow> bool \<Rightarrow> bool" where
  "core_hit_survives_range s d prop lo li hi hinc =
     core_hit_survives s d prop (\<lambda>v. value_in_range v lo li hi hinc)"

definition moved_core_ids_in_index :: "delta_snapshot \<Rightarrow> str \<Rightarrow> str \<Rightarrow> (Value \<Rightarrow> bool) \<Rightarrow> u64 list" where
  "moved_core_ids_in_index s label prop p =
     filter (\<lambda>d. case effective_index_state s d prop of IPatched v \<Rightarrow> p v | _ \<Rightarrow> False)
       (sort_dedup (concat (map (\<lambda>l. lv_core_ids_patched_on_index l label prop) (levels_newest_first s))))"

definition moved_core_ids_in_index_eq :: "delta_snapshot \<Rightarrow> str \<Rightarrow> str \<Rightarrow> Value \<Rightarrow> u64 list" where
  "moved_core_ids_in_index_eq s label prop key = moved_core_ids_in_index s label prop (\<lambda>v. cmp_key v key = OEqual)"

definition moved_core_ids_in_index_range ::
    "delta_snapshot \<Rightarrow> str \<Rightarrow> str \<Rightarrow> Value option \<Rightarrow> bool \<Rightarrow> Value option \<Rightarrow> bool \<Rightarrow> u64 list" where
  "moved_core_ids_in_index_range s label prop lo li hi hinc =
     moved_core_ids_in_index s label prop (\<lambda>v. value_in_range v lo li hi hinc)"

section \<open>Edges across levels\<close>

definition snap_edge_synthetic_base :: "delta_snapshot \<Rightarrow> u64" where
  "snap_edge_synthetic_base s = fold min (map lv_edge_synthetic_base (ds_l0 s)) (m_edge_base (ds_mem s))"

definition snap_born_edge_count :: "delta_snapshot \<Rightarrow> u64" where
  "snap_born_edge_count s = sum_list (map lv_born_edge_count (levels_newest_first s))"

definition edge_dedup_key :: "delta_edge \<Rightarrow> str \<times> u64 \<times> byte list" where
  "edge_dedup_key e = (de_reltype e, de_other e,
     case de_key e of None \<Rightarrow> [] | Some (name, v) \<Rightarrow> name @ write_value v)"

fun keep_first :: "(str \<times> u64 \<times> byte list) set \<Rightarrow> delta_edge list \<Rightarrow> delta_edge list" where
  "keep_first seen [] = []"
| "keep_first seen (e # es) =
     (if edge_dedup_key e \<in> seen then keep_first seen es
      else e # keep_first (insert (edge_dedup_key e) seen) es)"

definition merge_edges :: "delta_snapshot \<Rightarrow> u64 \<Rightarrow> bool \<Rightarrow> delta_edge list" where
  "merge_edges s node outgoing =
     (let read = (\<lambda>l. if outgoing then lv_out_edges l node else lv_in_edges l node)
      in if ds_l0 s = [] then read (as_level (ds_mem s))
         else keep_first {} (concat (map read (levels_newest_first s))))"

definition snap_out_edges :: "delta_snapshot \<Rightarrow> u64 \<Rightarrow> delta_edge list" where
  "snap_out_edges s node = merge_edges s node True"

definition snap_in_edges :: "delta_snapshot \<Rightarrow> u64 \<Rightarrow> delta_edge list" where
  "snap_in_edges s node = merge_edges s node False"

fun find_edge_patch :: "edge_delta option list \<Rightarrow> str \<Rightarrow> Value option" where
  "find_edge_patch [] prop = None"
| "find_edge_patch (None # ds) prop = find_edge_patch ds prop"
| "find_edge_patch (Some d # ds) prop =
     (if ed_tombstoned d then None
      else case fmlookup (ed_patches d) prop of Some v \<Rightarrow> Some v
        | None \<Rightarrow> if ed_replaced d then None else find_edge_patch ds prop)"

definition edge_patch_value :: "delta_snapshot \<Rightarrow> u64 \<Rightarrow> str \<Rightarrow> Value option" where
  "edge_patch_value s i prop = find_edge_patch (map (\<lambda>l. lv_edge_delta l i) (levels_newest_first s)) prop"

fun fold_edge_levels :: "edge_delta \<Rightarrow> edge_delta option list \<Rightarrow> edge_delta" where
  "fold_edge_levels acc [] = acc"
| "fold_edge_levels acc (None # ds) = fold_edge_levels acc ds"
| "fold_edge_levels acc (Some d # ds) = fold_edge_levels (fold_delta_edge acc d) ds"

definition snap_edge_delta :: "delta_snapshot \<Rightarrow> u64 \<Rightarrow> (str, Value) fmap \<times> bool" where
  "snap_edge_delta s i =
     (let d = fold_edge_levels ed_default (map (\<lambda>l. lv_edge_delta l i) (levels_oldest_first s))
      in (ed_patches d, ed_replaced d))"

definition edge_patches :: "delta_snapshot \<Rightarrow> u64 \<Rightarrow> (str, Value) fmap" where
  "edge_patches s i = fst (snap_edge_delta s i)"

definition edge_replaced :: "delta_snapshot \<Rightarrow> u64 \<Rightarrow> bool" where
  "edge_replaced s i = snd (snap_edge_delta s i)"

section \<open>The contract of a level\<close>

lemma fold_newer_tombstoned [simp]: "nd_tombstoned (fold_newer a d) = nd_tombstoned d"
  by (simp add: fold_newer_def Let_def nd_tombstone_def)

lemma fold_levels_snoc:
  "fold_levels acc (xs @ [None]) = fold_levels acc xs"
  "fold_levels acc (xs @ [Some d]) = Some (case fold_levels acc xs of None \<Rightarrow> d | Some a \<Rightarrow> fold_newer a d)"
  by (induction acc xs rule: fold_levels.induct) (auto split: option.splits)

lemma fold_levels_None: "fold_levels None xs = None \<longleftrightarrow> set xs \<subseteq> {None}"
proof (induction xs rule: rev_induct)
  case (snoc x xs)
  then show ?case by (cases x) (auto simp: fold_levels_snoc)
qed simp

lemma first_some_None: "first_some f xs = None \<longleftrightarrow> (\<forall>x \<in> set xs. f x = None)"
  by (induction xs) (auto split: option.splits)

lemma first_some_SomeD: "first_some f xs = Some y \<Longrightarrow> \<exists>x \<in> set xs. f x = Some y"
  by (induction xs) (auto split: option.splits)

text \<open>What the snapshot relies on: the flag read agrees with the delta read, the tombstone list is the
  flag's, deltas keep their invariant, and the patched-on-index list is what the deltas and identities
  of core ids say.\<close>

locale level_reads =
  fixes view :: "'m \<Rightarrow> level_read"
    and ok :: "'m \<Rightarrow> bool"
  assumes tomb_flag: "ok m \<Longrightarrow> lv_node_tombstoned (view m) d = map_option nd_tombstoned (lv_node_patch (view m) d)"
    and tomb_ids: "ok m \<Longrightarrow> d \<in> set (lv_tombstoned_ids (view m)) \<longleftrightarrow> lv_node_tombstoned (view m) d = Some True"
    and delta_fine: "ok m \<Longrightarrow> lv_node_patch (view m) d = Some nd \<Longrightarrow> delta_ok nd"
    and has_identity: "ok m \<Longrightarrow> lv_node_patch (view m) d \<noteq> None \<longleftrightarrow> lv_node_identity (view m) d \<noteq> None"
    and patched: "ok m \<Longrightarrow> d \<in> set (lv_core_ids_patched_on_index (view m) label prop) \<longleftrightarrow>
      d < lv_synthetic_base (view m) \<and> (\<exists>nd k v. lv_node_patch (view m) d = Some nd \<and>
        lv_node_identity (view m) d = Some (label, k, v) \<and> prop |\<in>| fmdom (nd_patches nd))"
begin

text \<open>The newest level that knows an id decides its flag, as the fold does.\<close>

lemma first_flag_is_folds:
  assumes "list_all ok ms"
  shows "first_some (\<lambda>l. lv_node_tombstoned l d) (map view ms) =
    map_option nd_tombstoned (fold_levels None (map (\<lambda>l. lv_node_patch l d) (rev (map view ms))))"
  using assms
proof (induction ms)
  case (Cons m ms)
  have "lv_node_tombstoned (view m) d = map_option nd_tombstoned (lv_node_patch (view m) d)"
    using Cons.prems tomb_flag by simp
  then show ?case
    using Cons by (cases "lv_node_patch (view m) d") (auto simp: fold_levels_snoc split: option.splits)
qed simp

lemma flagged_listed:
  assumes "list_all ok ms" "first_some (\<lambda>l. lv_node_tombstoned l d) (map view ms) = Some True"
  shows "\<exists>m \<in> set ms. d \<in> set (lv_tombstoned_ids (view m))"
  using first_some_SomeD [OF assms(2)] assms(1) tomb_ids by (fastforce simp: list_all_iff)

text \<open>A patch in the fold was made in some level, and a level knows every id it patches by its key.\<close>

lemma fold_patch_source:
  assumes "list_all ok ms" "fold_levels None (map (\<lambda>l. lv_node_patch l d) (rev (map view ms))) = Some nd"
    and "prop |\<in>| fmdom (nd_patches nd)"
  shows "\<exists>m \<in> set ms. \<exists>nd'. lv_node_patch (view m) d = Some nd' \<and> prop |\<in>| fmdom (nd_patches nd')"
  using assms
proof (induction ms arbitrary: nd)
  case (Cons m ms)
  show ?case
  proof (cases "lv_node_patch (view m) d")
    case None
    then show ?thesis using Cons by (auto simp: fold_levels_snoc)
  next
    case (Some nd')
    show ?thesis
    proof (cases "prop |\<in>| fmdom (nd_patches nd')")
      case True
      then show ?thesis using Some by auto
    next
      case False
      with Some Cons.prems(2,3) obtain a where a: "fold_levels None (map (\<lambda>l. lv_node_patch l d) (rev (map view ms))) = Some a"
        "nd = fold_newer a nd'"
        by (auto simp: fold_levels_snoc split: option.splits)
      then have "prop |\<in>| fmdom (nd_patches a)"
        using Cons.prems(3) False by (auto simp: fold_newer_def Let_def nd_tombstone_def nd_default_def split: if_splits)
      then show ?thesis using Cons a(1) by auto
    qed
  qed
qed simp

lemma fold_delta_fine:
  assumes "list_all ok ms" "fold_levels None (map (\<lambda>l. lv_node_patch l d) (rev (map view ms))) = Some nd"
  shows "delta_ok nd"
  using assms
proof (induction ms arbitrary: nd)
  case (Cons m ms)
  then show ?case
    using delta_fine [of m d]
    by (cases "lv_node_patch (view m) d") (auto simp: fold_levels_snoc delta_ok_fold split: option.splits)
qed simp

end

text \<open>The memtable keeps the contract.\<close>

definition level_ok :: "memtable \<Rightarrow> bool" where
  "level_ok m \<longleftrightarrow> (\<exists>\<rho>. nodes_ok \<rho> m)"

lemma dense_ids_where_set:
  "d \<in> set (dense_ids_where m p) \<longleftrightarrow>
   (\<exists>c e. fmlookup (m_by_dense m) d = Some c \<and> fmlookup (m_nodes m) c = Some e \<and> p d e)"
  by (force simp: dense_ids_where_def sorted_list_of_fmap_def fmlookup_dom_iff image_iff split: option.splits)

interpretation mem_level: level_reads as_level level_ok
proof
  fix m d nd label pname
  assume "level_ok m"
  then obtain \<rho> where ok: "nodes_ok \<rho> m" by (auto simp: level_ok_def)
  show "lv_node_tombstoned (as_level m) d = map_option nd_tombstoned (lv_node_patch (as_level m) d)"
    by (simp add: as_level_def)
  show "d \<in> set (lv_tombstoned_ids (as_level m)) \<longleftrightarrow> lv_node_tombstoned (as_level m) d = Some True"
    using nodes_okD(5) [OF ok]
    by (auto simp: as_level_def tombstoned_ids_def sorted_list_of_fset.rep_eq tallies_ok_def node_patch_def
        is_tombstoned_ck_def split: option.splits Option.bind_splits)
  show "delta_ok nd" if "lv_node_patch (as_level m) d = Some nd"
    using that nodes_okD(6) [OF ok]
    by (auto simp: as_level_def node_patch_def node_entry_ok_def Option.bind_eq_Some_conv)
  show "lv_node_patch (as_level m) d \<noteq> None \<longleftrightarrow> lv_node_identity (as_level m) d \<noteq> None"
    by (auto simp: as_level_def node_patch_def node_identity_by_dense_def split: Option.bind_splits)
  show "d \<in> set (lv_core_ids_patched_on_index (as_level m) label pname) \<longleftrightarrow>
      d < lv_synthetic_base (as_level m) \<and> (\<exists>nd k v. lv_node_patch (as_level m) d = Some nd \<and>
        lv_node_identity (as_level m) d = Some (label, k, v) \<and> pname |\<in>| fmdom (nd_patches nd))"
  proof -
    have "interner_name (m_interner m) (nlabel (ne_identity e)) = Some label \<longleftrightarrow>
      name_or_empty m (nlabel (ne_identity e)) = label" if "fmlookup (m_nodes m) c = Some e" for c e
      using nodes_okD(6) [OF ok that] by (auto simp: node_entry_ok_def interned_def name_or_empty_def split: option.splits)
    then show ?thesis
      by (auto simp: as_level_def core_ids_patched_on_index_def dense_ids_where_set node_patch_def
          node_identity_by_dense_def Option.bind_eq_Some_conv)
  qed
qed

section \<open>Stacks of memtables\<close>

text \<open>A snapshot whose sealed levels are memtables too, as a writer publishes it.\<close>

definition stack_snapshot :: "memtable \<Rightarrow> memtable list \<Rightarrow> delta_snapshot" where
  "stack_snapshot m ms = with_levels m (map as_level ms)"

lemma stack_levels:
  "levels_newest_first (stack_snapshot m ms) = map as_level (m # ms)"
  "levels_oldest_first (stack_snapshot m ms) = rev (map as_level (m # ms))"
  by (simp_all add: stack_snapshot_def with_levels_def levels_newest_first_def levels_oldest_first_def rev_map)

lemma stack_node_patch:
  "snap_node_patch (stack_snapshot m ms) d =
   fold_levels None (map (\<lambda>l. lv_node_patch l d) (rev (map as_level (m # ms))))"
  by (cases ms; cases "node_patch m d")
    (simp_all add: snap_node_patch_def stack_levels, simp_all add: stack_snapshot_def with_levels_def as_level_def)

lemma stack_tombstoned:
  assumes "list_all level_ok (m # ms)"
  shows "is_tombstoned (stack_snapshot m ms) d \<longleftrightarrow>
    (\<exists>nd. snap_node_patch (stack_snapshot m ms) d = Some nd \<and> nd_tombstoned nd)"
  using mem_level.first_flag_is_folds [OF assms, of d]
  by (auto simp: is_tombstoned_def stack_levels stack_node_patch split: option.splits)

lemma stack_effective_ids:
  assumes "list_all level_ok (m # ms)"
  shows "set (effective_tombstoned_ids (stack_snapshot m ms)) = {d. is_tombstoned (stack_snapshot m ms) d}"
    "distinct (effective_tombstoned_ids (stack_snapshot m ms))"
    "sorted (effective_tombstoned_ids (stack_snapshot m ms))"
proof -
  have "\<exists>l \<in> set (map as_level (m # ms)). d \<in> set (lv_tombstoned_ids l)" if "is_tombstoned (stack_snapshot m ms) d" for d
    using mem_level.flagged_listed [OF assms, of d] that
    by (auto simp: is_tombstoned_def stack_levels split: option.splits)
  then show "set (effective_tombstoned_ids (stack_snapshot m ms)) = {d. is_tombstoned (stack_snapshot m ms) d}"
    by (auto simp: effective_tombstoned_ids_def stack_levels)
qed (simp_all add: effective_tombstoned_ids_def)

lemma stack_level_ok: "stack_ok probe ms base \<Longrightarrow> list_all level_ok ms"
  by (induction ms arbitrary: base) (auto simp: level_ok_def)

text \<open>In a stack, every id a level answers for resolves from the identity the level reports.\<close>

lemma level_identity:
  assumes "nodes_ok \<rho> m" "node_identity_by_dense m d = Some k"
  shows "key_ok k" "dense_of \<rho> m k = Some d"
proof -
  obtain c e where "fmlookup (m_by_dense m) d = Some c" "fmlookup (m_nodes m) c = Some e"
    using assms(2) by (auto simp: node_identity_by_dense_def Option.bind_eq_Some_conv)
  with read_stored_id [OF assms(1) this(1)] assms(2) show "key_ok k" "dense_of \<rho> m k = Some d" by auto
qed

lemma stack_identity:
  assumes "stack_ok probe ms base" "m \<in> set ms" "node_identity_by_dense m d = Some k"
  shows "level_resolver probe ms k = Some d"
  using assms
proof (induction ms arbitrary: base)
  case (Cons n ms)
  then have ok: "nodes_ok (level_resolver probe ms) n" by simp
  note c = level_resolver_Cons [OF ok]
  show ?case
  proof (cases "m = n")
    case True
    then show ?thesis
      using level_identity [OF ok, of d k] Cons.prems(3) by (auto simp: c dense_of_def split: option.splits)
  next
    case False
    then have "level_resolver probe ms k = Some d" using Cons.IH [of "m_base n"] Cons.prems by auto
    then show ?thesis by (simp add: c)
  qed
qed simp

lemma stack_identity_unique:
  assumes "stack_ok probe ms base" "m \<in> set ms" "m' \<in> set ms"
    and "node_identity_by_dense m d = Some k" "node_identity_by_dense m' d = Some k'"
  shows "k = k'"
  using stack_identity [OF assms(1,2,4)] stack_identity [OF assms(1,3,5)] stack_resolver_ok [OF assms(1)]
  by (metis resolver_okD(2))

lemma stack_id_bound:
  assumes "stack_ok probe ms base" "m \<in> set ms" "node_patch m d = Some nd"
  shows "d < base"
proof -
  have "node_identity_by_dense m d \<noteq> None"
    using assms(3) by (auto simp: node_patch_def node_identity_by_dense_def Option.bind_eq_Some_conv)
  then obtain k where "node_identity_by_dense m d = Some k" by blast
  then show ?thesis using stack_identity [OF assms(1,2)] stack_resolver_ok [OF assms(1)] resolver_okD(1) by blast
qed

text \<open>Its synthetic base is the oldest level's, its ids tile from there to the top.\<close>

fun stack_core :: "memtable list \<Rightarrow> u64 \<Rightarrow> u64" where
  "stack_core [] base = base"
| "stack_core (m # ms) base = stack_core ms (m_base m)"

lemma stack_tiles:
  assumes "stack_ok probe ms base"
  shows "unat base = unat (stack_core ms base) + sum_list (map (\<lambda>m. length (m_born m)) ms) \<and>
    (\<forall>m \<in> set ms. stack_core ms base \<le> m_base m)"
  using assms
proof (induction ms arbitrary: base)
  case (Cons n ms)
  have "unat base = unat (m_base n) + length (m_born n)"
    using Cons.prems next_id [of n] by (simp add: fits_def)
  then show ?case using Cons.IH [of "m_base n"] Cons.prems by (auto simp: word_le_nat_alt)
qed simp

lemma stack_core_base: "ms \<noteq> [] \<Longrightarrow> stack_core ms base \<in> m_base ` set ms"
proof (induction ms arbitrary: base)
  case (Cons m ms)
  then show ?case by (cases ms) auto
qed simp

lemma stack_synthetic_base:
  assumes "stack_ok probe (m # ms) base"
  shows "snap_synthetic_base (stack_snapshot m ms) = stack_core (m # ms) base"
proof -
  have "snap_synthetic_base (stack_snapshot m ms) = Min (m_base ` set (m # ms))"
    using Min.set_eq_fold [of "m_base m" "map m_base ms"]
    by (simp add: snap_synthetic_base_def stack_snapshot_def with_levels_def as_level_def comp_def)
  moreover have "Min (m_base ` set (m # ms)) = stack_core (m # ms) base"
    by (rule Min_eqI) (use stack_tiles [OF assms] stack_core_base [of "m # ms"] in auto)
  ultimately show ?thesis by simp
qed

lemma stack_born_count:
  "snap_born_count (stack_snapshot m ms) = of_nat (sum_list (map (\<lambda>m. length (m_born m)) (m # ms)))"
proof -
  have "sum_list (map (\<lambda>m. of_nat (length (m_born m)) :: u64) ms) = of_nat (sum_list (map (\<lambda>m. length (m_born m)) ms))"
    for ms :: "memtable list"
    by (induction ms) simp_all
  from this [of "m # ms"] show ?thesis
    by (simp add: snap_born_count_def stack_levels as_level_def born_count_def comp_def)
qed

section \<open>Edge properties across levels\<close>

lemma fold_edge_levels_snoc:
  "fold_edge_levels acc (xs @ [None]) = fold_edge_levels acc xs"
  "fold_edge_levels acc (xs @ [Some d]) = fold_delta_edge (fold_edge_levels acc xs) d"
  by (induction acc xs rule: fold_edge_levels.induct) auto

lemma find_edge_patch_fold:
  "find_edge_patch ds p = fmlookup (ed_patches (fold_edge_levels ed_default (rev ds))) p"
  by (induction ds p rule: find_edge_patch.induct)
    (auto simp: fold_edge_levels_snoc fold_delta_edge_def ed_default_def ed_tombstone_def split: option.splits)

section \<open>An example stack\<close>

text \<open>The level above the example level, in which the node born there is deleted.\<close>

lemma single_op_level:
  assumes "resolver_ok \<rho> base" "\<rho> k = Some d" "key_ok k" "wal_node_key op = Some k"
  shows "nodes_ok \<rho> (the (apply_op ex_layout op (ResNode (Some d)) (with_bases base 0)))"
proof -
  note ok = with_bases_ok [OF assms(1), of 0]
  have r: "resolves \<rho> (with_bases base 0) k (Some d)" by (simp add: resolves_def assms(2))
  have room: "room 2 (with_bases base 0)" "fits (with_bases base 0)"
    using interner_new_ok unat_u64_less [of base] by (simp_all add: room_def fits_def with_bases_def interner_new_def)
  from node_op_assigns [OF ok room assms(4,3) r, of ex_layout]
  obtain m' where m': "apply_op ex_layout op (ResNode (Some d)) (with_bases base 0) = Some m'"
    "assigns \<rho> k (node_effect op (old_delta (with_bases base 0) k)) (with_bases base 0) m'"
    by auto
  then show ?thesis
    using assigns_effect(1) [OF ok room(2) assms(3) node_effect_ok [OF old_delta_ok [OF ok assms(3)]] m'(2)] by simp
qed

definition ex_upper :: memtable where
  "ex_upper = the (apply_op ex_layout (DeleteNode (ascii ''Person'') (ascii ''id'') (VInt 2)) (ResNode (Some 5)) (with_bases 6 0))"

lemma ex_stack_resolver: "level_resolver ex_probe [ex_mem] (ex_person 2) = Some 5"
proof -
  have "born_in_levels [ex_mem] (ex_person 2) = Some 5" by code_simp
  moreover have "ex_person 2 \<noteq> ex_person 1" by (simp add: ex_person_def)
  ultimately show ?thesis using ex_key_ok by (simp add: level_resolver_def ex_probe_def unique_id_def)
qed

lemma ex_stack_below: "stack_ok ex_probe [ex_mem] 6"
proof -
  have "level_resolver ex_probe [] = ex_resolver"
    using ex_key_ok by (auto simp: level_resolver_def ex_probe_def ex_resolver_def unique_id_def)
  moreover have "m_base ex_mem = 5" "m_born ex_mem \<noteq> []" "length (m_born ex_mem) = 1" by code_simp+
  ultimately show ?thesis using ex_mem_ok ex_resolver_ok by (simp add: fits_def)
qed

lemma ex_stack: "stack_ok ex_probe [ex_upper, ex_mem] 6"
proof -
  let ?op = "DeleteNode (ascii ''Person'') (ascii ''id'') (VInt 2)"
  have "wal_node_key ?op = Some (ex_person 2)" by (simp add: ex_person_def)
  from single_op_level [OF stack_resolver_ok [OF ex_stack_below] ex_stack_resolver ex_key_ok this]
  have "nodes_ok (level_resolver ex_probe [ex_mem]) ex_upper" by (simp add: ex_upper_def)
  moreover have "m_base ex_upper = 6" "m_born ex_upper = []" by code_simp+
  ultimately show ?thesis using ex_stack_below by (simp add: fits_def)
qed
section \<open>Properties of the snapshot\<close>

text \<open>C19: Over a stack of levels the deletion test a reader runs, which stops at the newest level that
  knows the id, agrees with the delta folded over all levels; and the list of effectively deleted ids
  is exactly the ids the test holds of, ascending and without repetition, so a node deleted in an old
  level and written again in a newer one is not in it.\<close>

theorem tombstone_reads_agree:
  assumes "stack_ok probe (m # ms) base"
  shows "(is_tombstoned (stack_snapshot m ms) d \<longleftrightarrow>
      (\<exists>nd. snap_node_patch (stack_snapshot m ms) d = Some nd \<and> nd_tombstoned nd)) \<and>
    set (effective_tombstoned_ids (stack_snapshot m ms)) = {d. is_tombstoned (stack_snapshot m ms) d} \<and>
    distinct (effective_tombstoned_ids (stack_snapshot m ms)) \<and>
    sorted (effective_tombstoned_ids (stack_snapshot m ms))"
  using stack_tombstoned stack_effective_ids stack_level_ok [OF assms] by auto

theorem tombstone_reads_agree_witness:
  "is_tombstoned (stack_snapshot ex_upper [ex_mem]) 5 \<and>
   set (effective_tombstoned_ids (stack_snapshot ex_upper [ex_mem])) = {d. is_tombstoned (stack_snapshot ex_upper [ex_mem]) d}"
proof -
  have "map_option nd_tombstoned (snap_node_patch (stack_snapshot ex_upper [ex_mem]) 5) = Some True" by code_simp
  then show ?thesis using tombstone_reads_agree [OF ex_stack, of 5] by auto
qed

text \<open>C22: The value a reader finds for one property of an edge by searching the levels from the newest
  down, stopping at a deletion or a replacement, is the one in the property map folded from the oldest
  level up, for every stack of levels and every edge id.\<close>

theorem edge_patch_value_is_fold:
  "edge_patch_value s i p = fmlookup (edge_patches s i) p"
  by (simp add: edge_patch_value_def edge_patches_def snap_edge_delta_def find_edge_patch_fold levels_newest_first_def
      levels_oldest_first_def Let_def rev_map)


end
