(* ===== verification/Merged_View.thy ===== *)
theory Merged_View
  imports Delta_Snapshot
begin

text \<open>
  Reads of the merged graph: the delta overlaid on an immutable core, as the property, label and
  adjacency readers of \<^verbatim>\<open>slater/src/exec.rs\<close> and \<^verbatim>\<open>exec/access.rs\<close>, the index seeks of
  \<^verbatim>\<open>exec/scan.rs\<close> and the live counts of \<^verbatim>\<open>read_view.rs\<close> compute them. The readers of the core
  generation and its segment stack are parameters (\<open>core_view\<close>), taken to succeed; the overlay
  code itself is modelled whole.
\<close>

section \<open>The core\<close>

record adj_edge =
  ae_reltype :: u32
  ae_neighbour :: u64
  ae_edge :: u64

record seg_adj =
  sa_removed :: bool
  sa_reltype :: str
  sa_other :: u64
  sa_edge :: u64

record seg_row =
  sr_tombstoned :: bool
  sr_props :: "(str \<times> Value) list"
  sr_labels :: "str list"

record core_view =
  cv_node_count :: u64
  cv_edge_count :: u64
  cv_label_id :: "str \<Rightarrow> u32 option"
  cv_label_name :: "u32 \<Rightarrow> str option"
  cv_reltype_id :: "str \<Rightarrow> u32 option"
  cv_node_props :: "u64 \<Rightarrow> (str, Value) fmap"
  cv_node_labels :: "u64 \<Rightarrow> u32 list"
  cv_edge_props :: "u64 \<Rightarrow> (str, Value) fmap"
  cv_node_row :: "u64 \<Rightarrow> seg_row option"
  cv_edge_row :: "u64 \<Rightarrow> seg_row option"
  cv_out :: "u64 \<Rightarrow> adj_edge list"
  cv_in :: "u64 \<Rightarrow> adj_edge list"
  cv_seg_out :: "(u64 \<Rightarrow> seg_adj list) list"
  cv_seg_in :: "(u64 \<Rightarrow> seg_adj list) list"
  cv_label_node_count :: "u32 \<Rightarrow> u64"
  cv_label_node_delta :: "str \<Rightarrow> int"
  cv_node_count_delta :: int

section \<open>Properties and labels\<close>

definition identity_key_value :: "delta_snapshot \<Rightarrow> u64 \<Rightarrow> str \<Rightarrow> Value" where
  "identity_key_value s i key = (case snap_node_identity_by_dense s i of
     Some (_, kname, kval) \<Rightarrow> if kname = key then kval else VNull | None \<Rightarrow> VNull)"

definition node_prop_below :: "core_view \<Rightarrow> delta_snapshot \<Rightarrow> u64 \<Rightarrow> str \<Rightarrow> Value" where
  "node_prop_below core s i key =
     (case cv_node_row core i of
        Some row \<Rightarrow> if sr_tombstoned row then VNull
          else (case map_of (sr_props row) key of Some v \<Rightarrow> v | None \<Rightarrow> VNull)
      | None \<Rightarrow>
        if \<not> snap_is_empty s \<and> cv_node_count core \<le> i then identity_key_value s i key
        else (case fmlookup (cv_node_props core i) key of Some v \<Rightarrow> v | None \<Rightarrow> VNull))"

definition node_prop_raw :: "core_view \<Rightarrow> delta_snapshot \<Rightarrow> u64 \<Rightarrow> str \<Rightarrow> Value" where
  "node_prop_raw core s i key =
     (if snap_is_empty s then node_prop_below core s i key
      else case snap_node_patch s i of None \<Rightarrow> node_prop_below core s i key
        | Some nd \<Rightarrow>
          (case fmlookup (nd_patches nd) key of Some v \<Rightarrow> v
           | None \<Rightarrow> if nd_replaced nd \<or> key |\<in>| nd_removed nd then identity_key_value s i key
                    else node_prop_below core s i key))"

fun overlay_named :: "(str \<times> Value) list \<Rightarrow> str \<Rightarrow> Value \<Rightarrow> (str \<times> Value) list" where
  "overlay_named [] name v = [(name, v)]"
| "overlay_named ((k, w) # ps) name v = (if k = name then (k, v) # ps else (k, w) # overlay_named ps name v)"

fun overlay_all :: "(str \<times> Value) list \<Rightarrow> (str \<times> Value) list \<Rightarrow> (str \<times> Value) list" where
  "overlay_all named [] = named"
| "overlay_all named ((name, v) # ps) = overlay_all (overlay_named named name v) ps"

definition overlay_node_props :: "core_view \<Rightarrow> delta_snapshot \<Rightarrow> u64 \<Rightarrow> (str \<times> Value) list \<Rightarrow> (str \<times> Value) list" where
  "overlay_node_props core s i named =
     (if snap_is_empty s then named
      else let nd = snap_node_patch s i;
               replaced = (case nd of None \<Rightarrow> False | Some d \<Rightarrow> nd_replaced d);
               born = (cv_node_count core \<le> i);
               named1 = (if replaced then [] else named);
               named2 = (if born \<or> replaced
                         then (case snap_node_identity_by_dense s i of
                                 Some (_, kname, kval) \<Rightarrow> overlay_named named1 kname kval | None \<Rightarrow> named1)
                         else named1)
           in case nd of None \<Rightarrow> named2
              | Some d \<Rightarrow> overlay_all (filter (\<lambda>(k, _). k |\<notin>| nd_removed d) named2) (sorted_list_of_fmap (nd_patches d)))"

fun add_labels :: "core_view \<Rightarrow> u32 list \<Rightarrow> str list \<Rightarrow> u32 list" where
  "add_labels core ids [] = ids"
| "add_labels core ids (l # ls) = add_labels core
     (case cv_label_id core l of None \<Rightarrow> ids | Some lid \<Rightarrow> if lid \<in> set ids then ids else ids @ [lid]) ls"

definition label_ids_below :: "core_view \<Rightarrow> delta_snapshot \<Rightarrow> u64 \<Rightarrow> u32 list" where
  "label_ids_below core s i =
     (case cv_node_row core i of
        Some row \<Rightarrow> if sr_tombstoned row then [] else List.map_filter (cv_label_id core) (sr_labels row)
      | None \<Rightarrow>
        if cv_node_count core \<le> i
        then (case Option.bind (snap_node_identity_by_dense s i) (\<lambda>(label, _, _). cv_label_id core label) of
                None \<Rightarrow> [] | Some lid \<Rightarrow> [lid])
        else cv_node_labels core i)"

definition node_label_ids :: "core_view \<Rightarrow> delta_snapshot \<Rightarrow> u64 \<Rightarrow> u32 list" where
  "node_label_ids core s i =
     (let ids = label_ids_below core s i
      in if snap_is_empty s then ids
         else case snap_node_patch s i of None \<Rightarrow> ids
           | Some nd \<Rightarrow>
             let removed = List.map_filter (cv_label_id core) (sorted_list_of_fset (nd_dropped nd));
                 kept = (if nd_dropped nd = {||} then ids else filter (\<lambda>x. x \<notin> set removed) ids)
             in add_labels core kept (sorted_list_of_fset (nd_added nd)))"

definition edge_prop_raw :: "core_view \<Rightarrow> delta_snapshot \<Rightarrow> u64 \<Rightarrow> str \<Rightarrow> Value" where
  "edge_prop_raw core s i key =
     (let below = (case cv_edge_row core i of
            Some row \<Rightarrow> if sr_tombstoned row then VNull
              else (case map_of (sr_props row) key of Some v \<Rightarrow> v | None \<Rightarrow> VNull)
          | None \<Rightarrow> if \<not> snap_is_empty s \<and> cv_edge_count core \<le> i then VNull
              else (case fmlookup (cv_edge_props core i) key of Some v \<Rightarrow> v | None \<Rightarrow> VNull))
      in if snap_is_empty s then below
         else case edge_patch_value s i key of Some v \<Rightarrow> v
           | None \<Rightarrow> if edge_replaced s i then VNull else below)"

section \<open>Adjacency\<close>

text \<open>The segment overlay: removals of a segment drop the born edges of the segments before it, and are
  collected for the core list.\<close>

fun segment_overlay ::
    "core_view \<Rightarrow> (u64 \<Rightarrow> seg_adj list) list \<Rightarrow> u64 \<Rightarrow> u64 set \<times> adj_edge list \<Rightarrow> u64 set \<times> adj_edge list" where
  "segment_overlay core [] node acc = acc"
| "segment_overlay core (frag # segs) node (core_removed, born) =
     (let es = frag node;
          removed = set (map sa_edge (filter sa_removed es));
          this_born = List.map_filter (\<lambda>e. if sa_removed e then None
            else map_option (\<lambda>rt. \<lparr>ae_reltype = rt, ae_neighbour = sa_other e, ae_edge = sa_edge e\<rparr>)
              (cv_reltype_id core (sa_reltype e))) es
      in segment_overlay core segs node
           (core_removed \<union> removed, filter (\<lambda>a. ae_edge a \<notin> removed) born @ this_born))"

definition delta_overlay :: "core_view \<Rightarrow> delta_edge list \<Rightarrow> (u32 \<times> u64) set \<times> adj_edge list" where
  "delta_overlay core es =
     (set (List.map_filter (\<lambda>e. if de_tombstoned e then map_option (\<lambda>rt. (rt, de_other e)) (cv_reltype_id core (de_reltype e))
         else None) es),
      List.map_filter (\<lambda>e. if de_tombstoned e then None
         else (case (cv_reltype_id core (de_reltype e), de_edge_id e) of
                 (Some rt, Some eid) \<Rightarrow> Some \<lparr>ae_reltype = rt, ae_neighbour = de_other e, ae_edge = eid\<rparr>
               | _ \<Rightarrow> None)) es)"

text \<open>The surviving edges in the order they are handed out: core, segment-born, delta-born.\<close>

definition adj_survivors :: "core_view \<Rightarrow> delta_snapshot \<Rightarrow> u64 \<Rightarrow> bool \<Rightarrow> u32 list option \<Rightarrow> adj_edge list" where
  "adj_survivors core s node outgoing reltypes =
     (let (core_removed, seg_born) = segment_overlay core (if outgoing then cv_seg_out core else cv_seg_in core) node ({}, []);
          has_delta = (\<not> snap_is_empty s);
          (suppress, delta_born) = (if has_delta
             then delta_overlay core (if outgoing then snap_out_edges s node else snap_in_edges s node) else ({}, []));
          rt_keep = (\<lambda>a. case reltypes of None \<Rightarrow> True | Some rts \<Rightarrow> ae_reltype a \<in> set rts);
          delta_keep = (\<lambda>a. \<not> has_delta \<or> (ae_reltype a, ae_neighbour a) \<notin> suppress \<and> \<not> is_tombstoned s (ae_neighbour a))
      in (if node < cv_node_count core
          then filter (\<lambda>a. rt_keep a \<and> ae_edge a \<notin> core_removed \<and> delta_keep a)
                 (if outgoing then cv_out core node else cv_in core node)
          else []) @
         filter (\<lambda>a. rt_keep a \<and> delta_keep a) seg_born @
         filter (\<lambda>a. rt_keep a \<and> \<not> is_tombstoned s (ae_neighbour a)) delta_born)"

text \<open>Handing them out in chunks to a callback that may stop the stream: the buffer is flushed when it
  is full, and once more at the end.\<close>

fun emit_chunks :: "nat \<Rightarrow> ('a list \<Rightarrow> 's \<Rightarrow> bool \<times> 's) \<Rightarrow> 'a list \<Rightarrow> 'a list \<Rightarrow> 's \<Rightarrow> bool \<times> 's" where
  "emit_chunks chunk emit buf [] st = (if buf \<noteq> [] then emit buf st else (True, st))"
| "emit_chunks chunk emit buf (a # as) st =
     (if chunk \<le> length (buf @ [a])
      then (case emit (buf @ [a]) st of (False, st') \<Rightarrow> (False, st') | (True, st') \<Rightarrow> emit_chunks chunk emit [] as st')
      else emit_chunks chunk emit (buf @ [a]) as st)"

definition for_each_adj_overlaid ::
    "core_view \<Rightarrow> delta_snapshot \<Rightarrow> u64 \<Rightarrow> bool \<Rightarrow> u32 list option \<Rightarrow> nat \<Rightarrow> (adj_edge list \<Rightarrow> 's \<Rightarrow> bool \<times> 's) \<Rightarrow> 's \<Rightarrow> bool \<times> 's" where
  "for_each_adj_overlaid core s node outgoing reltypes chunk emit st =
     emit_chunks chunk emit [] (adj_survivors core s node outgoing reltypes) st"

definition ADJ_STREAM_CHUNK :: nat where
  "ADJ_STREAM_CHUNK = 8192"

definition read_adj_overlaid_filtered :: "core_view \<Rightarrow> delta_snapshot \<Rightarrow> u64 \<Rightarrow> bool \<Rightarrow> u32 list option \<Rightarrow> adj_edge list" where
  "read_adj_overlaid_filtered core s node outgoing reltypes =
     snd (for_each_adj_overlaid core s node outgoing reltypes ADJ_STREAM_CHUNK (\<lambda>c out. (True, out @ c)) [])"

definition read_adj_overlaid :: "core_view \<Rightarrow> delta_snapshot \<Rightarrow> u64 \<Rightarrow> bool \<Rightarrow> adj_edge list" where
  "read_adj_overlaid core s node outgoing = read_adj_overlaid_filtered core s node outgoing None"

definition any_adj_overlaid :: "core_view \<Rightarrow> delta_snapshot \<Rightarrow> u64 \<Rightarrow> bool \<Rightarrow> bool" where
  "any_adj_overlaid core s node outgoing =
     snd (for_each_adj_overlaid core s node outgoing None 1
       (\<lambda>batch found. if batch \<noteq> [] then (False, True) else (True, found)) False)"

definition edge_matches :: "core_view \<Rightarrow> delta_snapshot \<Rightarrow> u32 \<Rightarrow> u64 \<Rightarrow> (str \<times> Value) option \<Rightarrow> adj_edge \<Rightarrow> bool" where
  "edge_matches core s reltype dst key a \<longleftrightarrow> ae_reltype a = reltype \<and> ae_neighbour a = dst \<and>
     (case key of None \<Rightarrow> True | Some (p, v) \<Rightarrow> write_value (edge_prop_raw core s (ae_edge a) p) = write_value v)"

fun first_match :: "(adj_edge \<Rightarrow> bool) \<Rightarrow> adj_edge list \<Rightarrow> u64 option \<Rightarrow> bool \<times> u64 option" where
  "first_match p [] hit = (True, hit)"
| "first_match p (a # as) hit = (if p a then (False, Some (ae_edge a)) else first_match p as hit)"

definition find_outgoing_edge_keyed_overlaid ::
    "core_view \<Rightarrow> delta_snapshot \<Rightarrow> u64 \<Rightarrow> u32 \<Rightarrow> u64 \<Rightarrow> (str \<times> Value) option \<Rightarrow> u64 option" where
  "find_outgoing_edge_keyed_overlaid core s src reltype dst key =
     snd (for_each_adj_overlaid core s src True (Some [reltype]) 1 (first_match (edge_matches core s reltype dst key)) None)"

definition find_outgoing_edge_overlaid :: "core_view \<Rightarrow> delta_snapshot \<Rightarrow> u64 \<Rightarrow> u32 \<Rightarrow> u64 \<Rightarrow> u64 option" where
  "find_outgoing_edge_overlaid core s src reltype dst = find_outgoing_edge_keyed_overlaid core s src reltype dst None"

section \<open>Live counts\<close>

text \<open>\<^verbatim>\<open>as i64\<close> on a \<^verbatim>\<open>u64\<close> is the signed reading of the same bits.\<close>

definition live_node_count :: "core_view \<Rightarrow> delta_snapshot \<Rightarrow> u64" where
  "live_node_count core s =
     of_int (max 0 (sint (cv_node_count core + snap_born_count s) + cv_node_count_delta core -
       int (length (effective_tombstoned_ids s))))"

definition had_label :: "core_view \<Rightarrow> delta_snapshot \<Rightarrow> u32 \<Rightarrow> str \<Rightarrow> u64 \<Rightarrow> bool" where
  "had_label core s lid label d =
     (if d < cv_node_count core then lid \<in> set (cv_node_labels core d)
      else (case snap_node_identity_by_dense s d of Some (l, _, _) \<Rightarrow> l = label | None \<Rightarrow> False))"

definition live_label_node_count :: "core_view \<Rightarrow> delta_snapshot \<Rightarrow> u32 \<Rightarrow> u64" where
  "live_label_node_count core s lid =
     (case cv_label_name core lid of None \<Rightarrow> 0
      | Some label \<Rightarrow>
        of_int (max 0 (sint (cv_label_node_count core lid) + cv_label_node_delta core label +
          sint (snap_born_count_with_label s label) +
          int (length (filter (\<lambda>d. \<not> had_label core s lid label d) (snap_ids_with_added_label s label))) -
          int (length (filter (had_label core s lid label) (snap_ids_with_removed_label s label))) -
          int (length (filter (had_label core s lid label) (effective_tombstoned_ids s))))))"

section \<open>Index seeks\<close>

text \<open>\<^verbatim>\<open>binary_search\<close> and \<^verbatim>\<open>insert\<close> into an ascending list.\<close>

definition insert_ascending :: "u64 \<Rightarrow> u64 list \<Rightarrow> u64 list" where
  "insert_ascending i ids = (if i \<in> set ids then ids else insort i ids)"

text \<open>The core stack is a singleton when no segment sits on the base generation; a row of the stack can
  be a tombstone.\<close>

definition is_singleton :: "core_view \<Rightarrow> bool" where
  "is_singleton core \<longleftrightarrow> cv_seg_out core = []"

definition row_tombstoned :: "core_view \<Rightarrow> u64 \<Rightarrow> bool" where
  "row_tombstoned core i = (case cv_node_row core i of None \<Rightarrow> False | Some row \<Rightarrow> sr_tombstoned row)"

definition suppress_tombstoned_in_place :: "core_view \<Rightarrow> delta_snapshot \<Rightarrow> u64 list \<Rightarrow> u64 list" where
  "suppress_tombstoned_in_place core s ids =
     (if snap_is_empty s \<and> is_singleton core then ids
      else filter (\<lambda>i. \<not> (is_tombstoned s i \<or> \<not> is_singleton core \<and> row_tombstoned core i)) ids)"

text \<open>The overlay of an index seek: \<open>hits\<close> is the ascending answer of the core's index and segments,
  \<open>label_prop\<close> what the index is over when the catalogue names it.\<close>

definition range_eq_candidates ::
    "core_view \<Rightarrow> delta_snapshot \<Rightarrow> u64 list \<Rightarrow> (str \<times> str) option \<Rightarrow> Value \<Rightarrow> u64 list" where
  "range_eq_candidates core s hits label_prop key = suppress_tombstoned_in_place core s
     (if snap_is_empty s then hits
      else case label_prop of None \<Rightarrow> hits
        | Some (label, pname) \<Rightarrow>
          fold insert_ascending (moved_core_ids_in_index_eq s label pname key)
            (filter (\<lambda>x. core_hit_survives_eq s x pname key) hits) @
          snap_born_ids_in_index_eq s label pname key)"

definition range_range_candidates ::
    "core_view \<Rightarrow> delta_snapshot \<Rightarrow> u64 list \<Rightarrow> (str \<times> str) option \<Rightarrow> (Value \<times> bool) option \<Rightarrow> (Value \<times> bool) option \<Rightarrow> u64 list" where
  "range_range_candidates core s hits label_prop lo hi = suppress_tombstoned_in_place core s
     (if snap_is_empty s then hits
      else case label_prop of None \<Rightarrow> hits
        | Some (label, pname) \<Rightarrow>
          let lo_v = map_option fst lo; lo_i = (case lo of None \<Rightarrow> True | Some (_, b) \<Rightarrow> b);
              hi_v = map_option fst hi; hi_i = (case hi of None \<Rightarrow> True | Some (_, b) \<Rightarrow> b)
          in fold insert_ascending (moved_core_ids_in_index_range s label pname lo_v lo_i hi_v hi_i)
               (filter (\<lambda>x. core_hit_survives_range s x pname lo_v lo_i hi_v hi_i) hits) @
             snap_born_ids_in_index_range s label pname lo_v lo_i hi_v hi_i)"

section \<open>Property reads\<close>

lemma map_of_overlay_named: "map_of (overlay_named ps n v) = (map_of ps)(n \<mapsto> v)"
  by (induction ps n v rule: overlay_named.induct) auto

lemma map_of_overlay_all:
  "map_of (overlay_all named ps) k = (case map_of (rev ps) k of Some v \<Rightarrow> Some v | None \<Rightarrow> map_of named k)"
  by (induction named ps rule: overlay_all.induct)
    (auto simp: map_of_overlay_named map_add_def split: option.splits)

lemma map_of_sorted_list_of_fmap: "map_of (sorted_list_of_fmap f) = fmlookup f"
  unfolding sorted_list_of_fmap_def by (rule map_of_map_keys) (simp add: sorted_list_of_fset.rep_eq fmdom.rep_eq)

lemma map_of_rev_sorted_list_of_fmap: "map_of (rev (sorted_list_of_fmap f)) = fmlookup f"
proof -
  have "distinct (map fst (sorted_list_of_fmap f))"
    by (simp add: sorted_list_of_fmap_def comp_def sorted_list_of_fset.rep_eq)
  then have "map_of (rev (sorted_list_of_fmap f)) = map_of (sorted_list_of_fmap f)"
    by (intro map_of_inject_set [THEN iffD2]) (auto simp: rev_map [symmetric])
  then show ?thesis by (simp add: map_of_sorted_list_of_fmap)
qed

lemma map_of_filter_key: "map_of (filter (\<lambda>(k, _). P k) ps) k = (if P k then map_of ps k else None)"
  by (induction ps) auto

section \<open>Streams\<close>

lemma emit_chunks_collect:
  "snd (emit_chunks chunk (\<lambda>c out. (True, out @ c)) buf xs st) = st @ buf @ xs"
  by (induction xs arbitrary: buf st) auto

lemma emit_singly_any:
  "snd (emit_chunks 1 (\<lambda>batch found. if batch \<noteq> [] then (False, True) else (True, found)) [] xs st) = (st \<or> xs \<noteq> [])"
  by (cases xs) auto

lemma emit_singly_first:
  "snd (emit_chunks 1 (first_match p) [] xs None) = map_option ae_edge (find p xs)"
  by (induction xs) auto

section \<open>Counts\<close>

lemma card_below_u64: "card {d :: u64. d < n} = unat n"
proof -
  have "bij_betw unat {d :: u64. d < n} {..<unat n}"
  proof (rule bij_betw_imageI)
    show "inj_on unat {d. d < n}" by (rule inj_onI) (simp add: word_unat_eq_iff)
    show "unat ` {d. d < n} = {..<unat n}"
    proof (safe)
      fix k assume "k < unat n"
      moreover from this have "k < 2 ^ 64" using unat_u64_less [of n] by linarith
      ultimately show "k \<in> unat ` {d. d < n}"
        by (intro image_eqI [of _ _ "of_nat k"]) (auto simp: unat_of_nat_u64 word_less_nat_alt)
    qed (auto simp: word_less_nat_alt)
  qed
  then show ?thesis by (simp add: bij_betw_same_card)
qed

lemma sint_small:
  assumes "unat (x :: u64) < 2 ^ 63"
  shows "sint x = int (unat x)"
proof -
  have "int (unat x) < 2 ^ 63" using assms by (metis of_nat_less_iff of_nat_numeral of_nat_power)
  then have "uint x < 2 ^ 63" by simp
  moreover have "sint x = signed_take_bit 63 (uint x)" by (simp only: sint_uint) simp
  moreover have "0 \<le> uint x" by (rule uint_ge_0)
  ultimately have "sint x = uint x" using signed_take_bit_int_eq_self [of 63 "uint x"] by linarith
  then show ?thesis by (simp only: of_nat_unat)
qed

lemma live_ids_card:
  assumes "stack_ok probe (m # ms) base"
  shows "card {d. d < base \<and> \<not> is_tombstoned (stack_snapshot m ms) d} =
    unat base - length (effective_tombstoned_ids (stack_snapshot m ms))"
    "length (effective_tombstoned_ids (stack_snapshot m ms)) \<le> unat base"
proof -
  let ?s = "stack_snapshot m ms"
  note lv = stack_level_ok [OF assms]
  let ?T = "{d. is_tombstoned ?s d}"
  have sub: "?T \<subseteq> {d. d < base}"
  proof
    fix d assume "d \<in> ?T"
    then obtain nd where "fold_levels None (map (\<lambda>l. lv_node_patch l d) (rev (map as_level (m # ms)))) = Some nd"
      using stack_tombstoned [OF lv] by (auto simp: stack_node_patch)
    then have "\<not> set (map (\<lambda>l. lv_node_patch l d) (rev (map as_level (m # ms)))) \<subseteq> {None}"
      by (metis fold_levels_None option.distinct(1))
    then obtain n where "n \<in> set (m # ms)" "node_patch n d \<noteq> None" by (force simp: as_level_def)
    then show "d \<in> {d. d < base}" using stack_id_bound [OF assms] by blast
  qed
  have T: "card ?T = length (effective_tombstoned_ids ?s)"
    using stack_effective_ids [OF lv] by (metis distinct_card)
  have fin: "finite {d :: u64. d < base}" by simp
  have "{d. d < base \<and> \<not> is_tombstoned ?s d} = {d. d < base} - ?T" by auto
  then show "card {d. d < base \<and> \<not> is_tombstoned ?s d} = unat base - length (effective_tombstoned_ids ?s)"
    using card_Diff_subset [OF finite_subset [OF sub fin] sub] by (simp add: T card_below_u64)
  show "length (effective_tombstoned_ids ?s) \<le> unat base"
    using card_mono [OF fin sub] by (simp add: T card_below_u64)
qed

section \<open>Seeks\<close>

text \<open>The value of an indexed property that a reader of the merged graph sees for a core node, given the
  value its core row has.\<close>

definition effective_value :: "Value option \<Rightarrow> delta_snapshot \<Rightarrow> u64 \<Rightarrow> str \<Rightarrow> Value option" where
  "effective_value cval s d pname =
     (case snap_node_patch s d of None \<Rightarrow> cval
      | Some nd \<Rightarrow> (case fmlookup (nd_patches nd) pname of Some v \<Rightarrow> Some v
         | None \<Rightarrow> if nd_replaced nd \<or> pname |\<in>| nd_removed nd
                  then (case snap_node_identity_by_dense s d of
                          Some (_, k, v) \<Rightarrow> if k = pname then Some v else None | None \<Rightarrow> None)
                  else cval))"

lemma set_insert_ascending: "set (fold insert_ascending is xs) = set xs \<union> set is"
  by (induction "is" arbitrary: xs) (auto simp: insert_ascending_def set_insort_key)

lemma set_sort_dedup [simp]: "set (sort_dedup xs) = set xs"
  by (simp add: sort_dedup_def)

lemma stack_snap_identity:
  assumes "stack_ok probe (m # ms) base" "n \<in> set (m # ms)" "node_identity_by_dense n d = Some k"
  shows "snap_node_identity_by_dense (stack_snapshot m ms) d = Some k"
proof -
  have "snap_node_identity_by_dense (stack_snapshot m ms) d \<noteq> None"
  proof
    assume "snap_node_identity_by_dense (stack_snapshot m ms) d = None"
    then have "lv_node_identity (as_level n) d = None"
      using assms(2) unfolding snap_node_identity_by_dense_def stack_levels first_some_None by auto
    then show False using assms(3) by (simp add: as_level_def)
  qed
  then obtain k' where k': "snap_node_identity_by_dense (stack_snapshot m ms) d = Some k'" by blast
  then obtain n' where "n' \<in> set (m # ms)" "lv_node_identity (as_level n') d = Some k'"
    unfolding snap_node_identity_by_dense_def stack_levels by (fastforce dest!: first_some_SomeD)
  then have "n' \<in> set (m # ms)" "node_identity_by_dense n' d = Some k'" by (simp_all add: as_level_def)
  then show ?thesis using stack_identity_unique [OF assms(1,2) _ assms(3)] k' by blast
qed

lemma patched_is_candidate:
  assumes "stack_ok probe (m # ms) base" "d < stack_core (m # ms) base"
    and "snap_node_patch (stack_snapshot m ms) d = Some nd" "pname |\<in>| fmdom (nd_patches nd)"
    and lab: "\<And>l k v. snap_node_identity_by_dense (stack_snapshot m ms) d = Some (l, k, v) \<Longrightarrow> l = label"
  shows "\<exists>n \<in> set (m # ms). d \<in> set (core_ids_patched_on_index n label pname)"
proof -
  note lv = stack_level_ok [OF assms(1)]
  obtain n nd' where n: "n \<in> set (m # ms)" "lv_node_patch (as_level n) d = Some nd'" "pname |\<in>| fmdom (nd_patches nd')"
    using mem_level.fold_patch_source [OF lv assms(3) [unfolded stack_node_patch] assms(4)] by auto
  have ok: "level_ok n" using lv n(1) by (auto simp: list_all_iff)
  obtain l k v where i: "node_identity_by_dense n d = Some (l, k, v)"
    using mem_level.has_identity [OF ok, of d] n(2) by (auto simp: as_level_def)
  have "l = label" using lab stack_snap_identity [OF assms(1) n(1) i] by blast
  moreover have "d < m_base n" using assms(2) stack_tiles [OF assms(1)] n(1) by (meson order.strict_trans2)
  ultimately have "d \<in> set (lv_core_ids_patched_on_index (as_level n) label pname)"
    using mem_level.patched [OF ok] n(2,3) i by (auto simp: as_level_def)
  then show ?thesis using n(1) by (auto simp: as_level_def)
qed

lemma seek_core_exact:
  assumes "stack_ok probe (m # ms) base" "d < stack_core (m # ms) base" "\<not> is_tombstoned (stack_snapshot m ms) d"
    and "d \<in> set hits \<longleftrightarrow> (\<exists>v. cval = Some v \<and> p v)"
    and "\<And>l k v. snap_node_identity_by_dense (stack_snapshot m ms) d = Some (l, k, v) \<Longrightarrow> l = label \<and> (k = pname \<longrightarrow> cval = Some v)"
  shows "d \<in> set (filter (\<lambda>x. core_hit_survives (stack_snapshot m ms) x pname p) hits) \<or>
      d \<in> set (moved_core_ids_in_index (stack_snapshot m ms) label pname p) \<longleftrightarrow>
    (\<exists>v. effective_value cval (stack_snapshot m ms) d pname = Some v \<and> p v)"
proof -
  let ?s = "stack_snapshot m ms"
  have moved: "d \<in> set (moved_core_ids_in_index ?s label pname p) \<longleftrightarrow>
     (case effective_index_state ?s d pname of IPatched v \<Rightarrow> p v | _ \<Rightarrow> False) \<and>
     (\<exists>n \<in> set (m # ms). d \<in> set (core_ids_patched_on_index n label pname))"
    by (auto simp: moved_core_ids_in_index_def stack_levels as_level_def)
  have live: "\<not> nd_tombstoned nd" if "snap_node_patch ?s d = Some nd" for nd
    using assms(3) that stack_tombstoned [OF stack_level_ok [OF assms(1)]] by blast
  show ?thesis
  proof (cases "snap_node_patch ?s d")
    case None
    then show ?thesis
      using assms(4) by (auto simp: moved effective_index_state_def core_hit_survives_def effective_value_def)
  next
    case (Some nd)
    note nd = Some live [OF Some]
    show ?thesis
    proof (cases "fmlookup (nd_patches nd) pname")
      case (Some v)
      then have "pname |\<in>| fmdom (nd_patches nd)" by (rule fmdomI)
      from patched_is_candidate [OF assms(1,2) nd(1) this] assms(5)
      have "\<exists>n \<in> set (m # ms). d \<in> set (core_ids_patched_on_index n label pname)" by blast
      then show ?thesis using nd Some assms(4)
        by (simp add: moved effective_index_state_def core_hit_survives_def effective_value_def) blast
    next
      case none: None
      show ?thesis
        using nd none assms(4,5)
        by (auto simp: moved effective_index_state_def core_hit_survives_def effective_value_def split: option.splits)
    qed
  qed
qed

text \<open>Born candidates are never below the core's node count.\<close>

lemma born_ids_in_index_above:
  assumes "stack_ok probe (m # ms) base" "n \<in> set (m # ms)" "d \<in> set (born_ids_in_index n label pname p)"
  shows "stack_core (m # ms) base \<le> d"
proof -
  obtain c e where "fmlookup (m_nodes n) c = Some e" "ne_synthetic e = Some d"
    using assms(3) by (fastforce simp: born_ids_in_index_def set_map_filter split: option.splits if_splits)
  moreover have "level_ok n" using stack_level_ok [OF assms(1)] assms(2) by (auto simp: list_all_iff)
  ultimately have "m_base n \<le> d" using synthetic_not_below by (auto simp: level_ok_def)
  then show ?thesis using stack_tiles [OF assms(1)] assms(2) order.trans by blast
qed

lemma stack_born_in_index:
  "set (snap_born_ids_in_index_eq (stack_snapshot m ms) label pname key) =
     (\<Union>n \<in> set (m # ms). set (born_ids_in_index n label pname (\<lambda>v. cmp_key v key = OEqual)))"
  "set (snap_born_ids_in_index_range (stack_snapshot m ms) label pname lo li hi hinc) =
     (\<Union>n \<in> set (m # ms). set (born_ids_in_index n label pname (\<lambda>v. value_in_range v lo li hi hinc)))"
  unfolding snap_born_ids_in_index_eq_def snap_born_ids_in_index_range_def stack_levels
  by (auto simp: as_level_def stack_snapshot_def with_levels_def born_ids_in_index_eq_def born_ids_in_index_range_def)

section \<open>An example core\<close>

text \<open>Five nodes, the one with id 3 a person; two parallel edges from it to node 4.\<close>

definition ex_core :: core_view where
  "ex_core = \<lparr>cv_node_count = 5, cv_edge_count = 7,
     cv_label_id = (\<lambda>l. if l = ascii ''Person'' then Some 0 else if l = ascii ''Admin'' then Some 1 else None),
     cv_label_name = (\<lambda>i. if i = 0 then Some (ascii ''Person'') else if i = 1 then Some (ascii ''Admin'') else None),
     cv_reltype_id = (\<lambda>t. if t = ascii ''KNOWS'' then Some 0 else None),
     cv_node_props = (\<lambda>i. if i = 3 then fmap_of_list [(ascii ''id'', VInt 1), (ascii ''age'', VInt 30)] else fmempty),
     cv_node_labels = (\<lambda>i. if i = 3 then [0] else []),
     cv_edge_props = (\<lambda>i. if i = 2 then fmap_of_list [(ascii ''uuid'', VInt 1)]
       else if i = 3 then fmap_of_list [(ascii ''uuid'', VInt 2)] else fmempty),
     cv_node_row = (\<lambda>_. None), cv_edge_row = (\<lambda>_. None),
     cv_out = (\<lambda>i. if i = 3 then [\<lparr>ae_reltype = 0, ae_neighbour = 4, ae_edge = 2\<rparr>, \<lparr>ae_reltype = 0, ae_neighbour = 4, ae_edge = 3\<rparr>]
       else []),
     cv_in = (\<lambda>i. if i = 4 then [\<lparr>ae_reltype = 0, ae_neighbour = 3, ae_edge = 2\<rparr>, \<lparr>ae_reltype = 0, ae_neighbour = 3, ae_edge = 3\<rparr>]
       else []),
     cv_seg_out = [], cv_seg_in = [], cv_label_node_count = (\<lambda>i. if i = 0 then 1 else 0),
     cv_label_node_delta = (\<lambda>_. 0), cv_node_count_delta = 0\<rparr>"

text \<open>A level that patches the person of the core.\<close>

definition ex_patch :: memtable where
  "ex_patch = the (apply_op ex_layout (ex_op 1) (ResNode (Some 3)) (with_bases 5 0))"

lemma ex_patch_base: "m_base ex_patch = 5" "m_born ex_patch = []"
  by code_simp+

lemma ex_patch_stack: "stack_ok ex_probe [ex_patch] 5"
proof -
  have "wal_node_key (ex_op 1) = Some (ex_person 1)" by (simp add: ex_op_def ex_person_def)
  moreover have "level_resolver ex_probe [] (ex_person 1) = Some 3"
    using ex_key_ok by (simp add: level_resolver_def ex_probe_def unique_id_def)
  ultimately have "nodes_ok (level_resolver ex_probe []) ex_patch"
    unfolding ex_patch_def using single_op_level [OF ex_probe_ok(1) _ ex_key_ok] by blast
  then show ?thesis using ex_patch_base ex_probe_ok(1) by (simp add: fits_def)
qed

section \<open>Properties of the merged view\<close>

text \<open>C20: The two ways a node's property is read agree: the point read of one key, and the key's entry in
  the full property list, for base rows and for born nodes, whatever patches, removals and replacements
  the levels hold. The writer never removes a node's business key.\<close>

theorem property_reads_agree:
  assumes "\<not> snap_is_empty s" "cv_node_row core i = None"
    and "\<And>nd l k v. snap_node_patch s i = Some nd \<Longrightarrow> snap_node_identity_by_dense s i = Some (l, k, v) \<Longrightarrow> k |\<notin>| nd_removed nd"
  shows "(case map_of (overlay_node_props core s i
        (if cv_node_count core \<le> i then [] else sorted_list_of_fmap (cv_node_props core i))) key of
        Some v \<Rightarrow> v | None \<Rightarrow> VNull) = node_prop_raw core s i key"
proof -
  let ?named = "if cv_node_count core \<le> i then [] else sorted_list_of_fmap (cv_node_props core i)"
  note d = overlay_node_props_def node_prop_raw_def node_prop_below_def identity_key_value_def Let_def
    map_of_overlay_named map_of_overlay_all map_of_rev_sorted_list_of_fmap map_of_sorted_list_of_fmap map_of_filter_key
  show ?thesis
  proof (cases "snap_node_patch s i")
    case None
    then show ?thesis using assms(1,2) by (auto simp: d split: option.splits)
  next
    case (Some nd)
    then show ?thesis
      using assms by (cases "fmlookup (nd_patches nd) key") (auto simp: d split: option.splits)
  qed
qed

theorem property_reads_agree_witness:
  "(case map_of (overlay_node_props ex_core (stack_snapshot ex_mem []) 5 []) (ascii ''age'') of Some v \<Rightarrow> v | None \<Rightarrow> VNull) =
   node_prop_raw ex_core (stack_snapshot ex_mem []) 5 (ascii ''age'')"
proof -
  have "nd_removed nd = {||}" if "snap_node_patch (stack_snapshot ex_mem []) 5 = Some nd" for nd
  proof -
    have "map_option nd_removed (snap_node_patch (stack_snapshot ex_mem []) 5) = Some {||}" by code_simp
    then show ?thesis using that by simp
  qed
  moreover have "\<not> snap_is_empty (stack_snapshot ex_mem [])" "cv_node_row ex_core 5 = None" "cv_node_count ex_core = 5"
    by code_simp+
  ultimately show ?thesis
    using property_reads_agree [of "stack_snapshot ex_mem []" ex_core 5 "ascii ''age''"] by auto
qed

text \<open>C21: Streaming a node's edges in chunks loses and reorders nothing: the collecting reader returns
  exactly the surviving edges, the existence probe holds exactly when there is one, and the keyed probe
  returns the first that matches, although both stop the stream early.\<close>

theorem adjacency_stream_is_list:
  "read_adj_overlaid_filtered core s node outgoing rts = adj_survivors core s node outgoing rts \<and>
   any_adj_overlaid core s node outgoing = (adj_survivors core s node outgoing None \<noteq> []) \<and>
   find_outgoing_edge_keyed_overlaid core s src rt dst key =
     map_option ae_edge (find (edge_matches core s rt dst key) (adj_survivors core s src True (Some [rt])))"
  using emit_singly_any [of "adj_survivors core s node outgoing None" False]
    emit_singly_first [of "edge_matches core s rt dst key" "adj_survivors core s src True (Some [rt])"]
  by (simp add: read_adj_overlaid_filtered_def any_adj_overlaid_def find_outgoing_edge_keyed_overlaid_def
      for_each_adj_overlaid_def emit_chunks_collect)

text \<open>C18: The live node count computed from counters alone is the number of ids below the merged bound
  that a scan would not suppress, for every stack of levels over a core without segments.\<close>

theorem live_node_count_exact:
  assumes "stack_ok probe (m # ms) base" "cv_node_count core = stack_core (m # ms) base"
    and "cv_node_count_delta core = 0" "unat base < 2 ^ 63"
  shows "unat (live_node_count core (stack_snapshot m ms)) = card {d. d < base \<and> \<not> is_tombstoned (stack_snapshot m ms) d}"
proof -
  let ?s = "stack_snapshot m ms"
  have "unat base = unat (cv_node_count core) + sum_list (map (\<lambda>m. length (m_born m)) (m # ms))"
    using stack_tiles [OF assms(1)] assms(2) by simp
  then have "of_nat (unat base) = of_nat (unat (cv_node_count core)) + snap_born_count ?s"
    by (simp only: stack_born_count of_nat_add)
  then have "base = cv_node_count core + snap_born_count ?s" by simp
  then have "sint (cv_node_count core + snap_born_count ?s) = int (unat base)"
    using sint_small assms(4) by simp
  then have "max 0 (sint (cv_node_count core + snap_born_count ?s) + cv_node_count_delta core -
      int (length (effective_tombstoned_ids ?s))) = int (unat base - length (effective_tombstoned_ids ?s))"
    using live_ids_card(2) [OF assms(1)] assms(3) by linarith
  then have "live_node_count core ?s = of_nat (unat base - length (effective_tombstoned_ids ?s))"
    by (simp only: live_node_count_def of_int_of_nat_eq)
  moreover have "unat base - length (effective_tombstoned_ids ?s) < 2 ^ 64" using assms(4) by simp
  ultimately show ?thesis by (simp only: live_ids_card(1) [OF assms(1)] unat_of_nat_u64)
qed

theorem live_node_count_exact_witness:
  "unat (live_node_count ex_core (stack_snapshot ex_upper [ex_mem])) =
   card {d. d < 6 \<and> \<not> is_tombstoned (stack_snapshot ex_upper [ex_mem]) d}"
proof (rule live_node_count_exact [OF ex_stack])
  have "m_base ex_mem = 5" by code_simp
  then show "cv_node_count ex_core = stack_core [ex_upper, ex_mem] 6" by (simp add: ex_core_def)
qed (simp_all add: ex_core_def)



section \<open>Where the overlay departs from the merged graph\<close>

text \<open>A node born in one level and written again in a newer one is both below the newer level's base, so a
  moved hit, and a born hit of the older level: an index seek returns it twice.\<close>

lemma index_seek_duplicates_flushed_born_node:
  "range_eq_candidates ex_core
     (stack_snapshot (the (apply_op ex_layout (ex_op 2) (ResNode (Some 5)) (with_bases 6 0))) [ex_mem])
     [] (Some (ascii ''Person'', ascii ''age'')) (VInt 40) = [5, 5]"
  by code_simp

text \<open>A core node with two labels patched through the key of one is not found by a seek on an index of
  the other, although it has the label and the value.\<close>

lemma index_seek_misses_second_label:
  "let core = ex_core\<lparr>cv_node_labels := (\<lambda>_. [0, 1])\<rparr>; s = stack_snapshot ex_patch []
   in range_eq_candidates core s [] (Some (ascii ''Admin'', ascii ''age'')) (VInt 40) = [] \<and>
      node_label_ids core s 3 = [0, 1] \<and> node_prop_raw core s 3 (ascii ''age'') = VInt 40"
  by code_simp

text \<open>A label added in a sealed level and dropped in a newer one is still counted.\<close>

lemma label_count_counts_dropped_label:
  "let add = the (apply_op ex_layout (SetNodeLabels (ascii ''Person'') (ascii ''id'') (VInt 1) [ascii ''Admin''] [])
         (ResNode (Some 3)) (with_bases 5 0));
       drop = the (apply_op ex_layout (SetNodeLabels (ascii ''Person'') (ascii ''id'') (VInt 1) [] [ascii ''Admin''])
         (ResNode (Some 3)) (with_bases 5 0));
       s = stack_snapshot drop [add]
   in live_label_node_count ex_core s 1 = 1 \<and> node_label_ids ex_core s 3 = [0]"
  by code_simp

text \<open>Deleting one of two parallel core edges by its key hides both.\<close>

lemma keyed_delete_hides_parallel_edges:
  "let s = stack_snapshot (delete_edge_keyed ex_layout (ex_person 1) (ascii ''KNOWS'') (ex_person 9) (Some 3) (Some 4)
        (Some (ascii ''uuid'', VInt 1)) (with_bases 5 7)) []
   in map ae_edge (cv_out ex_core 3) = [2, 3] \<and>
      edge_prop_raw ex_core s 3 (ascii ''uuid'') = VInt 2 \<and> read_adj_overlaid ex_core s 3 True = []"
  by code_simp

end
