(* ===== verification/Merge_Levels.thy ===== *)
theory Merge_Levels
  imports Delta_Snapshot "HOL-Library.Product_Lexorder"
begin

text \<open>
  Merging a run of sealed levels into one, \<^verbatim>\<open>Memtable::merge_levels\<close> of
  \<^verbatim>\<open>slater-delta/src/memtable.rs\<close>: the levels are folded by business identity, oldest first, and the
  folded state is replayed through the ordinary mutators of a fresh memtable. The node reads of the
  merged level are those of the run.
\<close>

section \<open>Folded entries\<close>

record folded_node =
  fn_label :: str
  fn_key :: str
  fn_value :: Value
  fn_delta :: node_delta
  fn_dense :: u64

record folded_edge =
  fe_src :: node_key
  fe_reltype :: str
  fe_dst :: node_key
  fe_edge_key :: "(str \<times> Value) option"
  fe_delta :: edge_delta
  fe_src_dense :: u64
  fe_dst_dense :: u64
  fe_born :: "u64 option"
  fe_core :: "u64 option"

definition node_name_key :: "node_key \<Rightarrow> byte list" where
  "node_name_key k = (case k of (label, key, v) \<Rightarrow>
     write_uvarint (of_nat (length label)) @ label @ write_uvarint (of_nat (length key)) @ key @ write_value v)"

definition edge_name_key :: "node_key \<Rightarrow> str \<Rightarrow> node_key \<Rightarrow> (str \<times> Value) option \<Rightarrow> byte list" where
  "edge_name_key src reltype dst edge_key =
     node_name_key src @ write_uvarint (of_nat (length reltype)) @ reltype @ node_name_key dst @
     (case edge_key of None \<Rightarrow> []
      | Some (name, v) \<Rightarrow> write_uvarint (of_nat (length name)) @ name @ write_value v)"

section \<open>Folding the run\<close>

text \<open>The node entries of a level that have a dense id, with their identity by name.\<close>

definition level_nodes :: "memtable \<Rightarrow> (node_key \<times> u64 \<times> node_delta) list" where
  "level_nodes seg = List.map_filter (\<lambda>(dense, c). map_option
       (\<lambda>e. ((name_or_empty seg (nlabel (ne_identity e)), name_or_empty seg (nkey (ne_identity e)),
              nvalue (ne_identity e)), dense, ne_delta e)) (fmlookup (m_nodes seg) c))
     (sorted_list_of_fmap (m_by_dense seg))"

definition fold_node :: "node_key \<times> u64 \<times> node_delta \<Rightarrow> (byte list, folded_node) fmap \<Rightarrow> (byte list, folded_node) fmap" where
  "fold_node x acc = (case x of (k, dense, delta) \<Rightarrow>
     let f = (case fmlookup acc (node_name_key k) of Some f \<Rightarrow> f
              | None \<Rightarrow> (case k of (label, key, v) \<Rightarrow>
                  \<lparr>fn_label = label, fn_key = key, fn_value = v, fn_delta = nd_default, fn_dense = dense\<rparr>))
     in fmupd (node_name_key k) (f\<lparr>fn_dense := dense, fn_delta := fold_newer (fn_delta f) delta\<rparr>) acc)"

definition names_by :: "memtable \<Rightarrow> node_identity \<Rightarrow> node_key" where
  "names_by seg i = (name_or_empty seg (nlabel i), name_or_empty seg (nkey i), nvalue i)"

definition fold_edge :: "memtable \<Rightarrow> edge_entry \<Rightarrow> (byte list, folded_edge) fmap \<Rightarrow> (byte list, folded_edge) fmap" where
  "fold_edge seg entry acc =
     (let i = ee_identity entry; src = names_by seg (esrc i); rt = name_or_empty seg (ereltype i); dst = names_by seg (edst i);
          key = map_option (\<lambda>(sid, v). (name_or_empty seg sid, v)) (ekey i);
          ek = edge_name_key src rt dst key;
          f = (case fmlookup acc ek of Some f \<Rightarrow> f
               | None \<Rightarrow> \<lparr>fe_src = src, fe_reltype = rt, fe_dst = dst, fe_edge_key = key, fe_delta = ed_default,
                   fe_src_dense = ee_src entry, fe_dst_dense = ee_dst entry, fe_born = None, fe_core = None\<rparr>)
      in fmupd ek (f\<lparr>fe_src_dense := ee_src entry, fe_dst_dense := ee_dst entry,
           fe_born := (case fe_born f of None \<Rightarrow> ee_synthetic entry | Some b \<Rightarrow> Some b),
           fe_core := (case fe_core f of None \<Rightarrow> ee_core entry | Some b \<Rightarrow> Some b),
           fe_delta := fold_delta_edge (fe_delta f) (ee_delta entry)\<rparr>) acc)"

definition fold_nodes :: "memtable list \<Rightarrow> (byte list, folded_node) fmap" where
  "fold_nodes newest_first = fold fold_node (concat (map level_nodes (rev newest_first))) fmempty"

definition fold_edges :: "memtable list \<Rightarrow> (byte list, folded_edge) fmap" where
  "fold_edges newest_first = fold (\<lambda>seg. fold (fold_edge seg) (edge_values seg)) (rev newest_first) fmempty"

section \<open>Replaying the folded state\<close>

definition replay_folded_node :: "layout \<Rightarrow> folded_node \<Rightarrow> u64 option \<Rightarrow> memtable \<Rightarrow> memtable" where
  "replay_folded_node lay f resolved m =
     (let d = fn_delta f; l = fn_label f; k = fn_key f; v = fn_value f
      in if nd_tombstoned d then delete_node lay l k v resolved m
         else let m1 = (if nd_replaced d then replace_node lay l k v resolved (sorted_list_of_fmap (nd_patches d)) m
                else let m0 = upsert_node lay l k v resolved (sorted_list_of_fmap (nd_patches d)) m
                     in if nd_removed d \<noteq> {||} then remove_node_props lay l k v resolved (sorted_list_of_fset (nd_removed d)) m0
                        else m0)
              in if nd_added d \<noteq> {||} \<or> nd_dropped d \<noteq> {||}
                 then set_node_labels lay l k v resolved (sorted_list_of_fset (nd_added d)) (sorted_list_of_fset (nd_dropped d)) m1
                 else m1)"

definition replay_born_node :: "layout \<Rightarrow> folded_node \<Rightarrow> memtable \<Rightarrow> memtable" where
  "replay_born_node lay f m =
     replay_folded_node lay f None (upsert_node lay (fn_label f) (fn_key f) (fn_value f) None [] m)"

definition replay_core_node :: "layout \<Rightarrow> folded_node \<Rightarrow> memtable \<Rightarrow> memtable" where
  "replay_core_node lay f m = replay_folded_node lay f (Some (fn_dense f)) m"

definition delete_folded_edge :: "layout \<Rightarrow> folded_edge \<Rightarrow> memtable \<Rightarrow> memtable" where
  "delete_folded_edge lay f =
     delete_edge_keyed lay (fe_src f) (fe_reltype f) (fe_dst f) (Some (fe_src_dense f)) (Some (fe_dst_dense f)) (fe_edge_key f)"

definition replay_born_edge :: "layout \<Rightarrow> folded_edge \<Rightarrow> memtable \<Rightarrow> memtable" where
  "replay_born_edge lay f m =
     (let m1 = upsert_edge_keyed lay (fe_src f) (fe_reltype f) (fe_dst f) (Some (fe_src_dense f)) (Some (fe_dst_dense f))
                 (fe_edge_key f) (ed_replaced (fe_delta f)) (sorted_list_of_fmap (ed_patches (fe_delta f))) m
      in if ed_tombstoned (fe_delta f) then delete_folded_edge lay f m1 else m1)"

text \<open>An edge without a born id overlays a core edge; a live one must carry that edge's id, and the code
  panics if it does not.\<close>

definition replay_core_edge :: "layout \<Rightarrow> folded_edge \<Rightarrow> memtable \<Rightarrow> memtable option" where
  "replay_core_edge lay f m =
     (if ed_tombstoned (fe_delta f) then Some (delete_folded_edge lay f m)
      else case fe_core f of None \<Rightarrow> None
        | Some cid \<Rightarrow> Some (patch_core_edge_keyed lay (fe_src f) (fe_reltype f) (fe_dst f) (Some (fe_src_dense f))
            (Some (fe_dst_dense f)) (fe_edge_key f) cid (ed_replaced (fe_delta f))
            (sorted_list_of_fmap (ed_patches (fe_delta f))) m))"

fun replay_core_edges :: "layout \<Rightarrow> folded_edge list \<Rightarrow> memtable \<Rightarrow> memtable option" where
  "replay_core_edges lay [] m = Some m"
| "replay_core_edges lay (f # fs) m = Option.bind (replay_core_edge lay f m) (replay_core_edges lay fs)"

definition born_of :: "u64 \<Rightarrow> (byte list, folded_node) fmap \<Rightarrow> folded_node list" where
  "born_of base fnodes = sort_key fn_dense (filter (\<lambda>f. base \<le> fn_dense f) (map snd (sorted_list_of_fmap fnodes)))"

definition core_of :: "u64 \<Rightarrow> (byte list, folded_node) fmap \<Rightarrow> folded_node list" where
  "core_of base fnodes = sort_key fn_dense (filter (\<lambda>f. fn_dense f < base) (map snd (sorted_list_of_fmap fnodes)))"

definition merge_levels :: "layout \<Rightarrow> memtable list \<Rightarrow> memtable option" where
  "merge_levels lay newest_first =
     (if newest_first = [] then Some (with_bases 0 0)
      else let oldest = last newest_first; fnodes = fold_nodes newest_first;
               fedges = map snd (sorted_list_of_fmap (fold_edges newest_first));
               m0 = with_bases (m_base oldest) (m_edge_base oldest);
               m1 = fold (replay_born_node lay) (born_of (m_base oldest) fnodes) m0;
               m2 = fold (replay_core_node lay) (core_of (m_base oldest) fnodes) m1;
               m3 = fold (replay_born_edge lay) (sort_key (\<lambda>f. the (fe_born f)) (filter (\<lambda>f. fe_born f \<noteq> None) fedges)) m2
           in replay_core_edges lay (sort_key (\<lambda>f. (fe_src_dense f, fe_dst_dense f, fe_reltype f))
                (filter (\<lambda>f. fe_born f = None) fedges)) m3)"

section \<open>What the fold collects\<close>

definition name_key_ok :: "node_key \<Rightarrow> bool" where
  "name_key_ok k \<longleftrightarrow> (case k of (l, p, v) \<Rightarrow> key3_ok l p v)"

lemma node_name_key_inj:
  assumes "name_key_ok k" "name_key_ok k'" "node_name_key k = node_name_key k'"
  shows "k = k'"
proof -
  have r: "read_key3 (\<lambda>l p v rest. Inr ((l, p, v), rest)) (node_name_key k @ []) = Inr (k, [])" if "name_key_ok k" for k
  proof -
    obtain l p v where k: "k = (l, p, v)" by (metis prod_cases3)
    then have "node_name_key k = write_key3 l p v" by (simp add: node_name_key_def write_key3_def write_str_def)
    then show ?thesis using that k by (simp only: name_key_ok_def prod.case read_key3_write)
  qed
  show ?thesis using r [OF assms(1)] r [OF assms(2)] assms(3) by simp
qed

definition names_storable :: "memtable \<Rightarrow> bool" where
  "names_storable m \<longleftrightarrow> list_all str_ok (inames (m_interner m))"

lemma patch_identity: "(node_patch m d = None) = (node_identity_by_dense m d = None)"
  by (auto simp: node_patch_def node_identity_by_dense_def split: Option.bind_split)

lemma level_nodes_iff:
  "(k, d, nd) \<in> set (level_nodes m) \<longleftrightarrow> node_patch m d = Some nd \<and> node_identity_by_dense m d = Some k"
proof -
  have entry: "(d, c) \<in> set (sorted_list_of_fmap (m_by_dense m)) \<longleftrightarrow> fmlookup (m_by_dense m) d = Some c" for c d
    by (auto simp: sorted_list_of_fmap_def sorted_list_of_fset.rep_eq fmlookup_dom_iff image_iff)
  have "(k, d, nd) \<in> set (level_nodes m) \<longleftrightarrow> (\<exists>c e. fmlookup (m_by_dense m) d = Some c \<and> fmlookup (m_nodes m) c = Some e \<and>
      k = (name_or_empty m (nlabel (ne_identity e)), name_or_empty m (nkey (ne_identity e)), nvalue (ne_identity e)) \<and> nd = ne_delta e)"
    unfolding level_nodes_def set_map_filter Bex_def split_paired_Ex entry by auto
  then show ?thesis by (auto simp: node_patch_def node_identity_by_dense_def Option.bind_eq_Some_conv)
qed

lemma filter_map_filter_key:
  assumes "distinct (map fst xs)" "\<And>d c y. g (d, c) = Some y \<Longrightarrow> h y = d"
  shows "filter (\<lambda>y. h y = d) (List.map_filter g xs) =
    (case map_of xs d of None \<Rightarrow> [] | Some c \<Rightarrow> (case g (d, c) of None \<Rightarrow> [] | Some y \<Rightarrow> [y]))"
  using assms(1)
proof (induction xs)
  case (Cons x xs)
  obtain d' c where x: "x = (d', c)" by (cases x)
  have none: "map_of xs d' = None" using Cons.prems x by (simp add: map_of_eq_None_iff)
  show ?case
    using Cons none assms(2) [of d' c]
    by (cases "g (d', c)"; cases "d' = d") (auto simp: x List.map_filter_simps split: option.splits)
qed (simp add: List.map_filter_simps)

lemma level_nodes_at:
  "filter (\<lambda>x. fst (snd x) = d) (level_nodes m) =
     (case node_patch m d of None \<Rightarrow> [] | Some nd \<Rightarrow> [(the (node_identity_by_dense m d), d, nd)])"
proof -
  have "distinct (map fst (sorted_list_of_fmap (m_by_dense m)))"
    by (simp add: sorted_list_of_fmap_def comp_def sorted_list_of_fset.rep_eq)
  moreover have "map_of (sorted_list_of_fmap (m_by_dense m)) d = fmlookup (m_by_dense m) d"
    unfolding sorted_list_of_fmap_def
    by (subst map_of_map_keys) (simp_all add: sorted_list_of_fset.rep_eq fmdom.rep_eq)
  ultimately show ?thesis
    unfolding level_nodes_def
    by (subst filter_map_filter_key) (auto simp: node_patch_def node_identity_by_dense_def split: option.splits)
qed

definition fold_step :: "node_key \<times> u64 \<times> node_delta \<Rightarrow> folded_node option \<Rightarrow> folded_node option" where
  "fold_step x cur = (case x of (k, dense, delta) \<Rightarrow>
     let f = (case cur of Some f \<Rightarrow> f
              | None \<Rightarrow> (case k of (label, key, v) \<Rightarrow>
                  \<lparr>fn_label = label, fn_key = key, fn_value = v, fn_delta = nd_default, fn_dense = dense\<rparr>))
     in Some (f\<lparr>fn_dense := dense, fn_delta := fold_newer (fn_delta f) delta\<rparr>))"

lemma fold_node_lookup:
  "fmlookup (fold fold_node xs acc) nk =
     fold fold_step (filter (\<lambda>x. node_name_key (fst x) = nk) xs) (fmlookup acc nk)"
proof (induction xs arbitrary: acc)
  case (Cons x xs)
  obtain k d nd where x: "x = (k, d, nd)" by (metis prod_cases3)
  show ?case using Cons by (simp add: x fold_node_def fold_step_def Let_def)
qed simp

definition folded :: "node_key \<Rightarrow> u64 \<Rightarrow> node_delta \<Rightarrow> folded_node" where
  "folded k d nd = (case k of (label, key, v) \<Rightarrow>
     \<lparr>fn_label = label, fn_key = key, fn_value = v, fn_delta = nd, fn_dense = d\<rparr>)"

lemma fold_newer_default: "delta_ok nd \<Longrightarrow> fold_newer nd_default nd = nd"
  by (cases nd) (auto simp: fold_newer_def delta_ok_def nd_tombstone_def nd_default_def Let_def intro!: fmap_ext)

lemma fold_step_levels:
  assumes "\<forall>nd. Some nd \<in> set ps \<longrightarrow> delta_ok nd"
  shows "fold fold_step (concat (map (\<lambda>p. case p of None \<Rightarrow> [] | Some nd \<Rightarrow> [(k, d, nd)]) ps)) (map_option (folded k d) acc) =
    map_option (folded k d) (fold_levels acc ps)"
  using assms
proof (induction acc ps rule: fold_levels.induct)
  case (3 nd ps)
  then have "fold_step (k, d, nd) None = map_option (folded k d) (Some nd)"
    by (auto simp: fold_step_def folded_def fold_newer_default split: prod.splits)
  then show ?case using 3 by simp
next
  case (4 a nd ps)
  have "fold_step (k, d, nd) (Some (folded k d a)) = map_option (folded k d) (Some (fold_newer a nd))"
    by (auto simp: fold_step_def folded_def split: prod.splits)
  then show ?case using 4 by simp
qed simp_all

text \<open>In a stack whose top is the run, every level uses one name and one id for a node.\<close>

definition run_patches :: "memtable list \<Rightarrow> u64 \<Rightarrow> node_delta option" where
  "run_patches run d = fold_levels None (map (\<lambda>m. node_patch m d) (rev run))"

definition in_run :: "memtable list \<Rightarrow> node_key \<Rightarrow> u64 \<Rightarrow> bool" where
  "in_run run k d \<longleftrightarrow> (\<exists>m \<in> set run. node_identity_by_dense m d = Some k)"

lemma stack_member_ok: "stack_ok probe ms base \<Longrightarrow> m \<in> set ms \<Longrightarrow> \<exists>\<rho>. nodes_ok \<rho> m"
  by (induction ms arbitrary: base) auto

lemma identity_name_ok:
  assumes "nodes_ok \<rho> m" "names_storable m" "node_identity_by_dense m d = Some k"
  shows "name_key_ok k" "key_ok k"
proof -
  obtain c where c: "fmlookup (m_by_dense m) d = Some c"
    using assms(3) by (auto simp: node_identity_by_dense_def Option.bind_eq_Some_conv)
  obtain e where e: "fmlookup (m_nodes m) c = Some e" "node_entry_ok \<rho> m c e" using by_denseD [OF assms(1) c] .
  have k: "k = names_of (m_interner m) (ne_identity e)" using identity_by_dense [OF c e(1)] assms(3) by simp
  have i: "interned (m_interner m) (ne_identity e)" "node_identity_ok (ne_identity e)"
    using e(2) by (simp_all add: node_entry_ok_def)
  show "key_ok k" unfolding k by (rule names_of_key_ok [OF i(2)])
  have "str_ok n" if "interner_name (m_interner m) sid = Some n" for sid n
    using that assms(2) by (auto simp: interner_name_def names_storable_def list_all_iff split: if_splits)
  then show "name_key_ok k"
    using i by (auto simp: k names_of_def interned_def name_key_ok_def key3_ok_def node_identity_ok_def split: option.splits)
qed

lemma fold_nodes_at:
  assumes st: "stack_ok probe (run @ below) base" and nm: "list_all names_storable run" and k: "in_run run k d"
  shows "fmlookup (fold_nodes run) (node_name_key k) = map_option (folded k d) (run_patches run d)"
proof -
  have ok: "\<exists>\<rho>. nodes_ok \<rho> m" if "m \<in> set run" for m using stack_member_ok [OF st] that by simp
  obtain m0 where m0: "m0 \<in> set run" "node_identity_by_dense m0 d = Some k" using k by (auto simp: in_run_def)
  have name: "name_key_ok k'" if "m \<in> set run" "node_identity_by_dense m d' = Some k'" for m k' d'
  proof -
    from ok [OF that(1)] obtain \<rho> where "nodes_ok \<rho> m" by blast
    moreover have "names_storable m" using nm that(1) by (simp add: list_all_iff)
    ultimately show ?thesis using identity_name_ok(1) that(2) by blast
  qed
  note kn = name [OF m0]
  have res: "level_resolver probe (run @ below) k' = Some d'" if "m \<in> set run" "node_identity_by_dense m d' = Some k'" for m k' d'
    using stack_identity [OF st, of m d' k'] that by simp
  have same: "node_name_key k' = node_name_key k \<longleftrightarrow> d' = d" if m: "m \<in> set run" "node_identity_by_dense m d' = Some k'" for m k' d'
  proof
    assume "node_name_key k' = node_name_key k"
    then have "k' = k" using node_name_key_inj [OF name [OF m] kn] by blast
    then show "d' = d" using res [OF m] res [OF m0] by simp
  next
    assume "d' = d"
    then show "node_name_key k' = node_name_key k"
      using stack_identity_unique [OF st _ _ m(2) [unfolded \<open>d' = d\<close>] m0(2)] m(1) m0(1) by simp
  qed
  have level: "filter (\<lambda>x. node_name_key (fst x) = node_name_key k) (level_nodes m) =
      (case node_patch m d of None \<Rightarrow> [] | Some nd \<Rightarrow> [(k, d, nd)])" if m: "m \<in> set run" for m
  proof -
    have "filter (\<lambda>x. node_name_key (fst x) = node_name_key k) (level_nodes m) = filter (\<lambda>x. fst (snd x) = d) (level_nodes m)"
      by (rule filter_cong [OF refl]) (use same [OF m] level_nodes_iff in fastforce)
    moreover have "the (node_identity_by_dense m d) = k" if p: "node_patch m d = Some nd" for nd
    proof -
      obtain k' where "node_identity_by_dense m d = Some k'" using p patch_identity [of m d] by auto
      then show ?thesis using stack_identity_unique [OF st _ _ _ m0(2)] m m0(1) by fastforce
    qed
    ultimately show ?thesis by (simp add: level_nodes_at split: option.splits)
  qed
  have "filter (\<lambda>x. node_name_key (fst x) = node_name_key k) (concat (map level_nodes (rev run))) =
      concat (map (\<lambda>p. case p of None \<Rightarrow> [] | Some nd \<Rightarrow> [(k, d, nd)]) (map (\<lambda>m. node_patch m d) (rev run)))"
    using level by (auto simp: filter_concat comp_def intro!: arg_cong [where f = concat])
  moreover have "\<forall>nd. Some nd \<in> set (map (\<lambda>m. node_patch m d) (rev run)) \<longrightarrow> delta_ok nd"
  proof (intro allI impI)
    fix nd assume "Some nd \<in> set (map (\<lambda>m. node_patch m d) (rev run))"
    then obtain m \<rho> where "m \<in> set run" "node_patch m d = Some nd" "nodes_ok \<rho> m" using ok by fastforce
    then show "delta_ok nd"
      by (auto simp: node_patch_def Option.bind_eq_Some_conv node_entry_ok_def dest: nodes_okD(6))
  qed
  ultimately show ?thesis
    using fold_step_levels [of "map (\<lambda>m. node_patch m d) (rev run)" k d None]
    by (simp add: fold_nodes_def fold_node_lookup run_patches_def)
qed

lemma fold_nodes_only:
  assumes "fmlookup (fold_nodes run) nk \<noteq> None"
  obtains k d where "in_run run k d" "nk = node_name_key k"
proof -
  have "filter (\<lambda>x. node_name_key (fst x) = nk) (concat (map level_nodes (rev run))) \<noteq> []"
    using assms by (auto simp: fold_nodes_def fold_node_lookup)
  then obtain x m where "x \<in> set (level_nodes m)" "m \<in> set run" "node_name_key (fst x) = nk"
    by (auto simp: filter_empty_conv)
  moreover obtain k d nd where "x = (k, d, nd)" by (metis prod_cases3)
  ultimately have "node_identity_by_dense m d = Some k" "m \<in> set run" "node_name_key k = nk" by (simp_all add: level_nodes_iff)
  then show thesis using that unfolding in_run_def by blast
qed

end
