(* ===== verification/Memtable_Image.thy ===== *)
theory Memtable_Image
  imports Memtable_Edges
begin

text \<open>
  The byte image of a memtable: \<^verbatim>\<open>serialise\<close>, \<^verbatim>\<open>deserialise\<close> and their \<^verbatim>\<open>w_\<close>/\<^verbatim>\<open>r_\<close> helpers in
  \<^verbatim>\<open>slater-delta/src/memtable.rs\<close>. Every writer and its reader form a codec; the maps are written in
  ascending key order and rebuilt by insertion. The core-edge index and the tallies are not in the
  image: they are recomputed, and the memtable invariant is what makes the recomputation exact.
\<close>

section \<open>Writers and readers\<close>

definition L0_FORMAT_VERSION :: u64 where
  "L0_FORMAT_VERSION = 4"

definition w_str :: "str \<Rightarrow> byte list" where
  "w_str s = write_uvarint (of_nat (length s)) @ s"

definition r_str :: "str reader" where
  "r_str = rbind read_uvarint (\<lambda>len. rbind (take_bytes L0StringTruncated (unat len)) (\<lambda>s r.
     if utf8_valid s then Inr (s, r) else Inl NotUtf8))"

definition w_bytes :: "byte list \<Rightarrow> byte list" where
  "w_bytes b = write_uvarint (of_nat (length b)) @ b"

definition r_bytes :: "byte list reader" where
  "r_bytes = rbind read_uvarint (\<lambda>len. take_bytes L0BytesTruncated (unat len))"

definition l0_read_u8 :: "byte reader" where
  "l0_read_u8 r = (case r of [] \<Rightarrow> Inl L0Truncated | b # r' \<Rightarrow> Inr (b, r'))"

definition w_bool :: "bool \<Rightarrow> byte list" where
  "w_bool b = [if b then 1 else 0]"

definition r_bool :: "bool reader" where
  "r_bool = rbind l0_read_u8 (\<lambda>b. rret (b \<noteq> 0))"

definition w_opt_u64 :: "u64 option \<Rightarrow> byte list" where
  "w_opt_u64 v = (case v of Some x \<Rightarrow> 1 # write_uvarint x | None \<Rightarrow> [0])"

definition r_opt_u64 :: "u64 option reader" where
  "r_opt_u64 = rbind l0_read_u8 (\<lambda>t. if t = 0 then rret None
     else if t = 1 then rbind read_uvarint (\<lambda>x. rret (Some x)) else (\<lambda>_. Inl (L0BadOptionTag t)))"

definition w_node_identity :: "node_identity \<Rightarrow> byte list" where
  "w_node_identity i = write_symbol (nlabel i) @ write_symbol (nkey i) @ write_value (nvalue i)"

text \<open>Its reader is \<open>r_node_identity\<close> of the identities. A map is read by inserting its pairs.\<close>

definition w_pairs :: "('k::linorder \<Rightarrow> byte list) \<Rightarrow> ('v \<Rightarrow> byte list) \<Rightarrow> ('k, 'v) fmap \<Rightarrow> byte list" where
  "w_pairs wk wv f = write_counted (\<lambda>(k, v). wk k @ wv v) (sorted_list_of_fmap f)"

definition r_pairs :: "'k reader \<Rightarrow> 'v reader \<Rightarrow> ('k, 'v) fmap reader" where
  "r_pairs rk rv = rbind (read_counted (rbind rk (\<lambda>k. rbind rv (\<lambda>v. rret (k, v)))))
     (\<lambda>xs. rret (fminsert_all xs fmempty))"

definition w_delta :: "(str, Value) fmap \<Rightarrow> bool \<Rightarrow> byte list" where
  "w_delta patches tombstoned = w_bool tombstoned @ w_pairs w_str write_value patches"

definition r_delta :: "((str, Value) fmap \<times> bool) reader" where
  "r_delta = rbind r_bool (\<lambda>t. rbind (r_pairs r_str read_value) (\<lambda>ps. rret (ps, t)))"

definition w_name_set :: "str fset \<Rightarrow> byte list" where
  "w_name_set S = write_counted w_str (sorted_list_of_fset S)"

definition r_name_set :: "str fset reader" where
  "r_name_set = rbind (read_counted r_str) (\<lambda>xs. rret (fset_of_list xs))"

definition w_node_delta :: "node_delta \<Rightarrow> byte list" where
  "w_node_delta d = w_delta (nd_patches d) (nd_tombstoned d) @ w_bool (nd_replaced d) @
     w_name_set (nd_removed d) @ w_name_set (nd_added d) @ w_name_set (nd_dropped d)"

definition r_node_delta :: "node_delta reader" where
  "r_node_delta = rbind r_delta (\<lambda>(patches, tombstoned). rbind r_bool (\<lambda>replaced.
     rbind r_name_set (\<lambda>removed. rbind r_name_set (\<lambda>added. rbind r_name_set (\<lambda>dropped.
       rret \<lparr>nd_patches = patches, nd_removed = removed, nd_replaced = replaced, nd_added = added,
             nd_dropped = dropped, nd_tombstoned = tombstoned\<rparr>)))))"

definition w_edge_key :: "(SymbolId \<times> Value) option \<Rightarrow> byte list" where
  "w_edge_key key = (case key of None \<Rightarrow> [0] | Some (s, v) \<Rightarrow> 1 # write_symbol s @ write_value v)"

definition r_edge_key :: "(SymbolId \<times> Value) option reader" where
  "r_edge_key = rbind l0_read_u8 (\<lambda>b. if b = 0 then rret None
     else rbind read_symbol (\<lambda>s. rbind read_value (\<lambda>v. rret (Some (s, v)))))"

definition w_dense_index :: "(u64, ck) fmap \<Rightarrow> byte list" where
  "w_dense_index f = w_pairs write_uvarint w_bytes f"

definition r_dense_index :: "(u64, ck) fmap reader" where
  "r_dense_index = r_pairs read_uvarint r_bytes"

definition w_key_vec :: "ck list \<Rightarrow> byte list" where
  "w_key_vec v = write_counted w_bytes v"

definition r_key_vec :: "ck list reader" where
  "r_key_vec = read_counted r_bytes"

definition w_adj :: "(u64, ck list) fmap \<Rightarrow> byte list" where
  "w_adj f = w_pairs write_uvarint w_key_vec f"

definition r_adj :: "(u64, ck list) fmap reader" where
  "r_adj = r_pairs read_uvarint r_key_vec"

section \<open>The image\<close>

definition w_node_entry :: "node_entry \<Rightarrow> byte list" where
  "w_node_entry e = w_node_identity (ne_identity e) @ w_node_delta (ne_delta e) @ w_opt_u64 (ne_synthetic e)"

definition r_node_entry :: "node_entry reader" where
  "r_node_entry = rbind r_node_identity (\<lambda>i. rbind r_node_delta (\<lambda>d. rbind r_opt_u64 (\<lambda>s.
     rret \<lparr>ne_identity = i, ne_delta = d, ne_synthetic = s\<rparr>)))"

definition w_edge_entry :: "edge_entry \<Rightarrow> byte list" where
  "w_edge_entry e = (let i = ee_identity e in
     w_node_identity (esrc i) @ write_symbol (ereltype i) @ w_node_identity (edst i) @ w_edge_key (ekey i) @
     write_uvarint (ee_src e) @ write_uvarint (ee_dst e) @ w_opt_u64 (ee_synthetic e) @ w_opt_u64 (ee_core e) @
     w_delta (ed_patches (ee_delta e)) (ed_tombstoned (ee_delta e)) @ w_bool (ed_replaced (ee_delta e)))"

definition r_edge_entry :: "edge_entry reader" where
  "r_edge_entry = rbind r_node_identity (\<lambda>s. rbind read_symbol (\<lambda>rt. rbind r_node_identity (\<lambda>d.
     rbind r_edge_key (\<lambda>k. rbind read_uvarint (\<lambda>sd. rbind read_uvarint (\<lambda>dd. rbind r_opt_u64 (\<lambda>syn.
     rbind r_opt_u64 (\<lambda>core. rbind r_delta (\<lambda>(patches, tombstoned). rbind r_bool (\<lambda>replaced.
       rret \<lparr>ee_identity = \<lparr>esrc = s, ereltype = rt, edst = d, ekey = k\<rparr>, ee_src = sd, ee_dst = dd,
         ee_synthetic = syn, ee_core = core,
         ee_delta = \<lparr>ed_patches = patches, ed_replaced = replaced, ed_tombstoned = tombstoned\<rparr>\<rparr>))))))))))"

definition serialise :: "memtable \<Rightarrow> byte list" where
  "serialise m = write_uvarint L0_FORMAT_VERSION @ write_counted w_str (inames (m_interner m)) @
     write_uvarint (m_base m) @ write_uvarint (m_edge_base m) @ write_uvarint (m_bytes m) @
     w_pairs w_bytes w_node_entry (m_nodes m) @ w_pairs w_bytes w_edge_entry (m_edges m) @
     w_dense_index (m_by_dense m) @ w_adj (m_out m) @ w_adj (m_in m) @
     w_key_vec (m_born m) @ w_key_vec (m_born_edges m)"

text \<open>The core-edge index, collected from the edge entries.\<close>

definition by_edge_index :: "(ck, edge_entry) fmap \<Rightarrow> (u64, ck) fmap" where
  "by_edge_index edges = fminsert_all (List.map_filter (\<lambda>(c, e). map_option (\<lambda>cid. (cid, c)) (ee_core e))
     (sorted_list_of_fmap edges)) fmempty"

definition r_body :: "memtable reader" where
  "r_body = rbind (read_counted r_str) (\<lambda>names. rbind read_uvarint (\<lambda>base. rbind read_uvarint (\<lambda>edge_base.
     rbind read_uvarint (\<lambda>bytes. rbind (r_pairs r_bytes r_node_entry) (\<lambda>nodes.
     rbind (r_pairs r_bytes r_edge_entry) (\<lambda>edges. rbind r_dense_index (\<lambda>by_dense.
     rbind r_adj (\<lambda>out_adj. rbind r_adj (\<lambda>in_adj. rbind r_key_vec (\<lambda>born. rbind r_key_vec (\<lambda>born_edges.
       rret \<lparr>m_interner = from_names names, m_nodes = nodes, m_edges = edges, m_out = out_adj, m_in = in_adj,
         m_by_dense = by_dense, m_by_edge = by_edge_index edges, m_base = base, m_edge_base = edge_base,
         m_born = born, m_born_edges = born_edges, m_tombs = {||}, m_born_labels = fmempty,
         m_bytes = bytes\<rparr>)))))))))))"

definition deserialise :: "byte list \<Rightarrow> error + memtable" where
  "deserialise bytes =
     (case read_uvarint bytes of Inl e \<Rightarrow> Inl e
      | Inr (version, r) \<Rightarrow>
        if version \<noteq> L0_FORMAT_VERSION then Inl (L0BadVersion version)
        else (case r_body r of Inl e \<Rightarrow> Inl e
              | Inr (m, r') \<Rightarrow> if r' \<noteq> [] then Inl (L0TrailingBytes (length r')) else Inr (rebuild_derived m)))"

section \<open>Round trips of the parts\<close>

definition blob_ok :: "byte list \<Rightarrow> bool" where
  "blob_ok b \<longleftrightarrow> length b < 2 ^ 64"

interpretation l0str: codec w_str r_str str_ok
  by unfold_locales (simp add: r_str_def w_str_def str_ok_def codec_simps unat_of_nat_u64)

interpretation l0bytes: codec w_bytes r_bytes blob_ok
  by unfold_locales (simp add: r_bytes_def w_bytes_def blob_ok_def codec_simps unat_of_nat_u64)

interpretation l0bool: codec w_bool r_bool "\<lambda>_. True"
  by unfold_locales (simp add: r_bool_def w_bool_def l0_read_u8_def)

interpretation l0opt: codec w_opt_u64 r_opt_u64 "\<lambda>_. True"
  by unfold_locales (simp add: r_opt_u64_def w_opt_u64_def l0_read_u8_def codec_simps split: option.splits)

interpretation l0nodeid: codec w_node_identity r_node_identity node_identity_ok
proof
  fix i rest assume "node_identity_ok i"
  moreover have "w_node_identity i = encode_into i" by (simp add: w_node_identity_def encode_into_def)
  ultimately show "r_node_identity (w_node_identity i @ rest) = Inr (i, rest)" by (simp add: codec_simps)
qed

interpretation l0edgekey: codec w_edge_key r_edge_key "\<lambda>k. \<forall>s v. k = Some (s, v) \<longrightarrow> value_storable v"
  by unfold_locales (auto simp: r_edge_key_def w_edge_key_def l0_read_u8_def codec_simps split: option.splits)

text \<open>A finite map of storable keys and values, written in key order, is read back.\<close>

definition map_ok :: "('k \<Rightarrow> bool) \<Rightarrow> ('v \<Rightarrow> bool) \<Rightarrow> ('k, 'v) fmap \<Rightarrow> bool" where
  "map_ok okk okv f \<longleftrightarrow> fcard (fmdom f) < 2 ^ 64 \<and> (\<forall>k v. fmlookup f k = Some v \<longrightarrow> okk k \<and> okv v)"

lemma sorted_list_of_fmap_insert:
  "fminsert_all (sorted_list_of_fmap f) fmempty = f"
proof -
  have "distinct (map fst (sorted_list_of_fmap f))"
    by (simp add: sorted_list_of_fmap_def comp_def sorted_list_of_fset.rep_eq)
  moreover have "map_of (sorted_list_of_fmap f) = fmlookup f"
    unfolding sorted_list_of_fmap_def by (rule map_of_map_keys) (simp add: sorted_list_of_fset.rep_eq fmdom.rep_eq)
  ultimately show ?thesis
    by (intro fmap_ext) (simp add: fminsert_all_distinct fmlookup_of_list)
qed

lemma length_sorted_list_of_fmap [simp]: "length (sorted_list_of_fmap f) = fcard (fmdom f)"
  by (simp add: sorted_list_of_fmap_def sorted_list_of_fset.rep_eq fcard.rep_eq)

lemma sorted_list_of_fmap_all:
  "list_all P (sorted_list_of_fmap f) \<longleftrightarrow> (\<forall>k v. fmlookup f k = Some v \<longrightarrow> P (k, v))"
  by (auto simp: list_all_iff sorted_list_of_fmap_def fmlookup_dom_iff) (metis fmdomI option.sel)

lemma codec_pairs:
  assumes "codec wk rk okk" "codec wv rv okv"
  shows "codec (w_pairs wk wv) (r_pairs rk rv) (map_ok okk okv)"
proof
  fix f rest assume ok: "map_ok okk okv f"
  have "list_all (\<lambda>(k, v). okk k \<and> okv v) (sorted_list_of_fmap f)" "length (sorted_list_of_fmap f) < 2 ^ 64"
    using ok unfolding map_ok_def by (auto simp: sorted_list_of_fmap_all)
  then show "r_pairs rk rv (w_pairs wk wv f @ rest) = Inr (f, rest)"
    using codec.dec_enc [OF codec_counted [OF codec_pair [OF assms]], of "sorted_list_of_fmap f" rest]
    by (simp add: r_pairs_def w_pairs_def sorted_list_of_fmap_insert)
qed

interpretation l0patches: codec "w_pairs w_str write_value" "r_pairs r_str read_value" "map_ok str_ok value_storable"
  by (rule codec_pairs) unfold_locales

interpretation l0vec: codec w_key_vec r_key_vec "\<lambda>xs. length xs < 2 ^ 64 \<and> list_all blob_ok xs"
  unfolding w_key_vec_def [abs_def] r_key_vec_def by (rule codec_counted) unfold_locales

interpretation l0dense: codec w_dense_index r_dense_index "map_ok (\<lambda>_. True) blob_ok"
  unfolding w_dense_index_def [abs_def] r_dense_index_def by (rule codec_pairs) unfold_locales

interpretation l0adj: codec w_adj r_adj "map_ok (\<lambda>_. True) (\<lambda>xs. length xs < 2 ^ 64 \<and> list_all blob_ok xs)"
  unfolding w_adj_def [abs_def] r_adj_def by (rule codec_pairs) unfold_locales

interpretation l0names: codec "write_counted w_str" "read_counted r_str" strs_ok
  unfolding strs_ok_def [abs_def] by (rule codec_counted) unfold_locales

definition set_ok :: "str fset \<Rightarrow> bool" where
  "set_ok S \<longleftrightarrow> fcard S < 2 ^ 64 \<and> (\<forall>s. s |\<in>| S \<longrightarrow> str_ok s)"

interpretation l0set: codec w_name_set r_name_set set_ok
proof
  fix S rest assume S: "set_ok S"
  then have "strs_ok (sorted_list_of_fset S)"
    by (auto simp: strs_ok_def set_ok_def list_all_iff sorted_list_of_fset.rep_eq fcard.rep_eq)
  then show "r_name_set (w_name_set S @ rest) = Inr (S, rest)"
    by (simp add: r_name_set_def w_name_set_def l0names.dec_enc)
qed

definition patches_storable :: "(str, Value) fmap \<Rightarrow> bool" where
  "patches_storable = map_ok str_ok value_storable"

definition delta_storable :: "node_delta \<Rightarrow> bool" where
  "delta_storable d \<longleftrightarrow> patches_storable (nd_patches d) \<and> set_ok (nd_removed d) \<and> set_ok (nd_added d) \<and>
     set_ok (nd_dropped d)"

lemma r_delta_w [codec_simps]:
  "patches_storable ps \<Longrightarrow> r_delta (w_delta ps t @ rest) = Inr ((ps, t), rest)"
  by (simp add: r_delta_def w_delta_def patches_storable_def l0patches.dec_enc l0bool.dec_enc)

interpretation l0delta: codec w_node_delta r_node_delta delta_storable
  by unfold_locales
    (simp add: r_node_delta_def w_node_delta_def delta_storable_def l0bool.dec_enc l0set.dec_enc codec_simps)

definition node_entry_storable :: "node_entry \<Rightarrow> bool" where
  "node_entry_storable e \<longleftrightarrow> node_identity_ok (ne_identity e) \<and> delta_storable (ne_delta e)"

definition edge_entry_storable :: "edge_entry \<Rightarrow> bool" where
  "edge_entry_storable e \<longleftrightarrow> edge_identity_ok (ee_identity e) \<and> patches_storable (ed_patches (ee_delta e))"

interpretation l0node: codec w_node_entry r_node_entry node_entry_storable
  by unfold_locales
    (simp add: r_node_entry_def w_node_entry_def node_entry_storable_def l0nodeid.dec_enc l0delta.dec_enc l0opt.dec_enc)

interpretation l0edge: codec w_edge_entry r_edge_entry edge_entry_storable
proof
  fix e rest assume e: "edge_entry_storable e"
  have k: "r_edge_key (w_edge_key (ekey (ee_identity e)) @ r) = Inr (ekey (ee_identity e), r)" for r
    using e by (intro l0edgekey.dec_enc) (auto simp: edge_entry_storable_def edge_identity_ok_def)
  show "r_edge_entry (w_edge_entry e @ rest) = Inr (e, rest)"
    using e by (simp add: r_edge_entry_def w_edge_entry_def Let_def edge_entry_storable_def edge_identity_ok_def
        k l0nodeid.dec_enc l0opt.dec_enc l0bool.dec_enc codec_simps)
qed

interpretation l0nodes: codec "w_pairs w_bytes w_node_entry" "r_pairs r_bytes r_node_entry" "map_ok blob_ok node_entry_storable"
  by (rule codec_pairs) unfold_locales

interpretation l0edges: codec "w_pairs w_bytes w_edge_entry" "r_pairs r_bytes r_edge_entry" "map_ok blob_ok edge_entry_storable"
  by (rule codec_pairs) unfold_locales

section \<open>Round trip of the image\<close>

text \<open>What the image needs of a memtable besides its invariant: every string is a Rust string, every
  value is within the nesting limit, and no collection is longer than the address space.\<close>

definition image_storable :: "memtable \<Rightarrow> bool" where
  "image_storable m \<longleftrightarrow> strs_ok (inames (m_interner m)) \<and> map_ok blob_ok node_entry_storable (m_nodes m) \<and>
     map_ok blob_ok edge_entry_storable (m_edges m) \<and> map_ok (\<lambda>_. True) blob_ok (m_by_dense m) \<and>
     map_ok (\<lambda>_. True) (\<lambda>xs. length xs < 2 ^ 64 \<and> list_all blob_ok xs) (m_out m) \<and>
     map_ok (\<lambda>_. True) (\<lambda>xs. length xs < 2 ^ 64 \<and> list_all blob_ok xs) (m_in m) \<and>
     length (m_born m) < 2 ^ 64 \<and> list_all blob_ok (m_born m) \<and>
     length (m_born_edges m) < 2 ^ 64 \<and> list_all blob_ok (m_born_edges m)"

lemma r_body_serialise:
  assumes "image_storable m"
  shows "deserialise (serialise m) = Inr (rebuild_derived
    (m\<lparr>m_interner := from_names (inames (m_interner m)), m_by_edge := by_edge_index (m_edges m),
       m_tombs := {||}, m_born_labels := fmempty\<rparr>))"
  using assms
  by (cases m) (simp add: deserialise_def serialise_def r_body_def image_storable_def codec_simps l0names.dec_enc
      l0nodes.dec_enc l0edges.dec_enc l0dense.dec_enc l0adj.dec_enc l0vec.dec_enc l0vec.dec_enc_nil)

lemma map_of_map_filter_core:
  assumes "distinct (map fst xs)"
    and "\<And>c e c' e' cid. (c, e) \<in> set xs \<Longrightarrow> (c', e') \<in> set xs \<Longrightarrow> f e = Some cid \<Longrightarrow> f e' = Some cid \<Longrightarrow> c = c'"
  shows "distinct (map fst (List.map_filter (\<lambda>(c, e). map_option (\<lambda>cid. (cid, c)) (f e)) xs))"
  using assms
proof (induction xs)
  case Nil
  then show ?case by simp
next
  case (Cons x xs)
  obtain c e where x: "x = (c, e)" by fastforce
  have "distinct (map fst (List.map_filter (\<lambda>(c, e). map_option (\<lambda>cid. (cid, c)) (f e)) xs))"
    using Cons.prems by (intro Cons.IH) (auto intro: Cons.prems(2))
  moreover have "cid \<notin> fst ` set (List.map_filter (\<lambda>(c, e). map_option (\<lambda>cid. (cid, c)) (f e)) xs)"
    if "f e = Some cid" for cid
  proof
    assume "cid \<in> fst ` set (List.map_filter (\<lambda>(c, e). map_option (\<lambda>cid. (cid, c)) (f e)) xs)"
    then obtain c' e' where "(c', e') \<in> set xs" "f e' = Some cid"
      by (auto simp: List.map_filter_def split: option.splits)
    moreover from this have "c = c'" using Cons.prems(2) [of c e c' e' cid] that x by simp
    ultimately show False using Cons.prems(1) x by (auto simp: image_iff)
  qed
  ultimately show ?case by (cases "f e") (simp_all add: x map_filter_simps)
qed

lemma by_edge_index_lookup:
  assumes "\<And>c e c' e' cid. fmlookup f c = Some e \<Longrightarrow> fmlookup f c' = Some e' \<Longrightarrow> ee_core e = Some cid \<Longrightarrow>
      ee_core e' = Some cid \<Longrightarrow> c = c'"
  shows "fmlookup (by_edge_index f) cid = Some c \<longleftrightarrow> (\<exists>e. fmlookup f c = Some e \<and> ee_core e = Some cid)"
proof -
  let ?xs = "sorted_list_of_fmap f"
  have set: "(c, e) \<in> set ?xs \<longleftrightarrow> fmlookup f c = Some e" for c e
    by (auto simp: sorted_list_of_fmap_def image_iff fmlookup_dom_iff)
  have d: "distinct (map fst ?xs)" by (simp add: sorted_list_of_fmap_def comp_def sorted_list_of_fset.rep_eq)
  have "distinct (map fst (List.map_filter (\<lambda>(c, e). map_option (\<lambda>cid. (cid, c)) (ee_core e)) ?xs))"
    by (rule map_of_map_filter_core [OF d]) (use assms set in blast)
  then show ?thesis
    by (auto simp: by_edge_index_def fminsert_all_distinct fmlookup_of_list map_of_eq_Some_iff set_map_filter Bex_def set)
qed

lemma by_edge_index_ok:
  assumes "edges_ok \<rho> \<sigma> m"
  shows "by_edge_index (m_edges m) = m_by_edge m"
proof (rule fmap_ext)
  fix cid
  have inv: "fmlookup (m_by_edge m) cid = Some c" if "fmlookup (m_edges m) c = Some e" "ee_core e = Some cid" for c e cid
    using edges_okD(6) [OF assms that(1)] that(2) by (simp add: edge_entry_ok_def)
  have "fmlookup (by_edge_index (m_edges m)) cid = Some c \<longleftrightarrow> fmlookup (m_by_edge m) cid = Some c" for c
    using edges_okD(4) [OF assms] inv
    by (subst by_edge_index_lookup) (auto simp: by_edge_ok_def, metis option.sel)
  then show "fmlookup (by_edge_index (m_edges m)) cid = fmlookup (m_by_edge m) cid"
    by (metis option.exhaust)
qed

lemma deserialise_serialise:
  assumes "memtable_ok \<rho> \<sigma> m" "image_storable m"
  shows "deserialise (serialise m) = Inr m"
proof -
  have n: "nodes_ok \<rho> m" and e: "edges_ok \<rho> \<sigma> m" using assms(1) by (simp_all add: memtable_ok_def)
  have "from_names (inames (m_interner m)) = m_interner m"
    by (rule from_names_inames [OF nodes_okD(1) [OF n]])
  moreover have "rebuild_derived (m\<lparr>m_tombs := {||}, m_born_labels := fmempty\<rparr>) = rebuild_derived m"
  proof -
    have "is_tombstoned_ck (m\<lparr>m_tombs := {||}, m_born_labels := fmempty\<rparr>) = is_tombstoned_ck m"
      by (rule ext) (simp add: is_tombstoned_ck_def)
    then show ?thesis by (simp add: rebuild_derived_def cong: option.case_cong)
  qed
  ultimately show ?thesis
    using r_body_serialise [OF assms(2)] by (simp add: by_edge_index_ok [OF e] rebuild_derived_id [OF n])
qed

section \<open>Torn images\<close>

text \<open>A reader that succeeds does not look past what it consumed.\<close>

definition steady :: "'a reader \<Rightarrow> bool" where
  "steady p \<longleftrightarrow> (\<forall>r x r' s. p r = Inr (x, r') \<longrightarrow> p (r @ s) = Inr (x, r' @ s))"

named_theorems steady_intros

lemma steadyD: "steady p \<Longrightarrow> p r = Inr (x, r') \<Longrightarrow> p (r @ s) = Inr (x, r' @ s)"
  by (simp add: steady_def)

lemma steady_rret [steady_intros]: "steady (rret x)"
  by (simp add: steady_def)

lemma steady_rbind [steady_intros]:
  assumes "steady p" "\<And>x. steady (f x)"
  shows "steady (rbind p f)"
  using assms unfolding steady_def by (auto split: sum.splits prod.splits)

lemma steady_if [steady_intros]: "steady p \<Longrightarrow> steady q \<Longrightarrow> steady (if b then p else q)"
  by simp

lemma steady_fail [steady_intros]: "steady (\<lambda>_. Inl e)"
  by (simp add: steady_def)

lemma steady_take_bytes [steady_intros]: "steady (take_bytes e n)"
  by (auto simp: steady_def take_bytes_def split: if_splits)

lemma steady_rrep [steady_intros]: "steady p \<Longrightarrow> steady (rrep n p)"
proof (induction n)
  case (Suc n)
  then show ?case unfolding steady_def by (auto split: sum.splits prod.splits)
qed (simp add: steady_def)

lemma steady_uvarint [steady_intros]: "steady read_uvarint"
proof -
  have "read_uvarint_loop acc k r = Inr (x, r') \<Longrightarrow> read_uvarint_loop acc k (r @ s) = Inr (x, r' @ s)" for acc k r x r' s
    by (induction acc k r rule: read_uvarint_loop.induct) (auto simp: Let_def split: if_splits)
  then show ?thesis by (simp add: steady_def read_uvarint_def)
qed

lemma steady_f32 [steady_intros]: "steady read_f32" and steady_f64 [steady_intros]: "steady read_f64"
  unfolding read_f32_def read_f64_def by (intro steady_intros)+

lemma steady_value_at:
  "read_value_at depth r = Inr (v, r') \<Longrightarrow> read_value_at depth (r @ s) = Inr (v, r' @ s)"
  "read_items n depth r = Inr (vs, r') \<Longrightarrow> read_items n depth (r @ s) = Inr (vs, r' @ s)"
proof (induction depth r and n depth r arbitrary: v r' and vs r' rule: read_value_at_read_items.induct)
  case (1 depth r)
  then obtain tag t where r: "r = tag # t" and d: "depth \<le> MAX_VALUE_DEPTH"
    by (cases r) (auto dest: read_value_at_InrD)
  note eqs = read_value_at.simps [of depth] tag_defs
  note uv = steadyD [OF steady_uvarint, of t _ _ s]
  consider (list) "tag = TAG_LIST" | (vector) "tag = TAG_VECTOR" | (null) "tag = TAG_NULL"
    | (bool) "tag = TAG_BOOL" | (int) "tag = TAG_INT" | (float) "tag = TAG_FLOAT" | (str) "tag = TAG_STR"
    | (other) "tag \<notin> {TAG_LIST, TAG_VECTOR, TAG_NULL, TAG_BOOL, TAG_INT, TAG_FLOAT, TAG_STR}" by blast
  then show ?case
  proof cases
    case list
    with "1.prems" r d obtain n t' vs where n: "read_uvarint t = Inr (n, t')"
      and items: "read_items (unat n) (depth + 1) t' = Inr (vs, r')" and v: "v = VList vs"
      by (auto simp: eqs split: sum.splits prod.splits)
    have "read_items (unat n) (depth + 1) (t' @ s) = Inr (vs, r' @ s)"
      using "1.IH" [OF _ r _ _ _ _ _ _ n refl] list d items by (auto simp: tag_defs)
    then show ?thesis using list r d uv [OF n] v by (simp add: eqs)
  next
    case vector
    with "1.prems" r d obtain n t' xs where n: "read_uvarint t = Inr (n, t')"
      and xs: "rrep (unat n) read_f32 t' = Inr (xs, r')" and v: "v = VVector xs"
      by (auto simp: eqs split: sum.splits prod.splits)
    then show ?thesis
      using vector r d uv [OF n] steadyD [OF steady_rrep [OF steady_f32] xs, of s] by (simp add: eqs)
  next
    case null
    then show ?thesis using "1.prems" r d by (simp add: eqs)
  next
    case bool
    then show ?thesis using "1.prems" r d by (auto simp: eqs split: list.splits)
  next
    case int
    then show ?thesis using "1.prems" r d uv by (auto simp: eqs split: sum.splits prod.splits)
  next
    case float
    then show ?thesis using "1.prems" r d steadyD [OF steady_f64, of t _ _ s]
      by (auto simp: eqs split: sum.splits prod.splits)
  next
    case str
    with "1.prems" r d obtain n t' b where n: "read_uvarint t = Inr (n, t')"
      and b: "take_bytes StringTruncated (unat n) t' = Inr (b, r')" and v: "v = VStr b" "utf8_valid b"
      by (auto simp: eqs split: sum.splits prod.splits if_splits)
    then show ?thesis
      using str r d uv [OF n] steadyD [OF steady_take_bytes b, of s] by (simp add: eqs)
  next
    case other
    then show ?thesis using "1.prems" r d by (simp add: eqs)
  qed
next
  case (3 n depth r)
  from "3.prems" obtain v t vs' where "read_value_at depth r = Inr (v, t)" "read_items n depth t = Inr (vs', r')"
    "vs = v # vs'"
    by (auto split: sum.splits prod.splits)
  with "3.IH"(1) [OF this(1)] "3.IH"(2) [OF this(1) refl this(2)] show ?case by simp
qed auto

lemma steady_value [steady_intros]: "steady read_value"
  using steady_value_at(1) by (auto simp: steady_def read_value_def)

lemma steady_u8 [steady_intros]: "steady l0_read_u8"
  by (auto simp: steady_def l0_read_u8_def split: list.splits)

lemma steady_check [steady_intros]: "steady (\<lambda>r. if b then Inr (x, r) else Inl e)"
  by (simp add: steady_def)

lemma steady_case_prod [steady_intros]: "(\<And>a b. steady (f a b)) \<Longrightarrow> steady (case p of (a, b) \<Rightarrow> f a b)"
  by (cases p) simp

lemma steady_body: "steady r_body"
  unfolding r_body_def read_counted_def r_pairs_def r_str_def r_bytes_def r_node_entry_def r_edge_entry_def
    r_dense_index_def r_adj_def r_key_vec_def r_opt_u64_def r_bool_def r_delta_def r_name_set_def r_node_delta_def
    r_edge_key_def r_node_identity_def read_symbol_def
  by (intro steady_intros)

lemma deserialise_append:
  assumes "deserialise r = Inr m" "s \<noteq> []"
  shows "deserialise (r @ s) = Inl (L0TrailingBytes (length s))"
  using assms steadyD [OF steady_uvarint, of r _ _ s] steadyD [OF steady_body, of _ _ _ s]
  by (auto simp: deserialise_def split: sum.splits prod.splits if_splits)

section \<open>Properties of the image\<close>

text \<open>C15: A memtable that satisfies its invariant and holds only storable data comes back from its image
  exactly: every store, every index, including the core-edge index and the tallies the image does not
  carry. An image cut short anywhere, or with bytes appended, is refused.\<close>

theorem image_round_trip:
  assumes "memtable_ok \<rho> \<sigma> m" "image_storable m"
  shows "deserialise (serialise m) = Inr m \<and>
    (\<forall>n < length (serialise m). \<exists>e. deserialise (take n (serialise m)) = Inl e) \<and>
    (\<forall>s. s \<noteq> [] \<longrightarrow> deserialise (serialise m @ s) = Inl (L0TrailingBytes (length s)))"
proof (intro conjI allI impI)
  show rt: "deserialise (serialise m) = Inr m" by (rule deserialise_serialise [OF assms])
  show "deserialise (serialise m @ s) = Inl (L0TrailingBytes (length s))" if "s \<noteq> []" for s
    by (rule deserialise_append [OF rt that])
  fix n assume n: "n < length (serialise m)"
  show "\<exists>e. deserialise (take n (serialise m)) = Inl e"
  proof (cases "deserialise (take n (serialise m))")
    case (Inr m')
    from deserialise_append [OF this, of "drop n (serialise m)"] n rt show ?thesis by simp
  qed simp
qed

lemma ex_mem_storable: "image_storable ex_mem"
proof -
  have c: "inames (m_interner ex_mem) = [ascii ''Person'', ascii ''id'']"
    "sorted_list_of_fmap (m_nodes ex_mem) = [([0, 1, 2, 4], \<lparr>ne_identity = \<lparr>nlabel = 0, nkey = 1, nvalue = VInt 2\<rparr>,
       ne_delta = nd_default\<lparr>nd_patches := fmap_of_list [(ascii ''age'', VInt 40)]\<rparr>, ne_synthetic = Some 5\<rparr>)]"
    "sorted_list_of_fmap (m_by_dense ex_mem) = [(5, [0, 1, 2, 4])]" "m_edges ex_mem = fmempty" "m_out ex_mem = fmempty"
    "m_in ex_mem = fmempty" "m_born ex_mem = [[0, 1, 2, 4]]" "m_born_edges ex_mem = []"
    by code_simp+
  have m: "map_ok P Q f \<longleftrightarrow> length (sorted_list_of_fmap f) < 2 ^ 64 \<and> list_all (\<lambda>(k, v). P k \<and> Q v) (sorted_list_of_fmap f)"
    for P Q and f :: "('k::linorder, 'v) fmap"
    by (auto simp: map_ok_def sorted_list_of_fmap_all fmpred_iff)
  have "patches_storable (fmap_of_list [(ascii ''age'', VInt 40)])"
    by (simp add: patches_storable_def map_ok_def str_ok_def ascii_def value_storable_def MAX_VALUE_DEPTH_def fmlookup_of_list
        fcard.rep_eq)
  then show ?thesis
    by (simp add: image_storable_def m c strs_ok_def str_ok_def ascii_def blob_ok_def node_entry_storable_def
        node_identity_ok_def value_storable_def MAX_VALUE_DEPTH_def delta_storable_def set_ok_def fcard.rep_eq)
qed

lemma ex_mem_memtable_ok: "memtable_ok ex_resolver (\<lambda>_. None) ex_mem"
proof -
  have "m_edges ex_mem = fmempty" "m_out ex_mem = fmempty" "m_in ex_mem = fmempty" "m_by_edge ex_mem = fmempty"
    "m_born_edges ex_mem = []" "m_edge_base ex_mem = 0"
    by code_simp+
  then show ?thesis
    using ex_mem_ok by (simp add: memtable_ok_def edges_ok_def edge_resolver_ok_def adj_ok_def adj_def by_edge_ok_def born_edges_ok_def)
qed

theorem image_round_trip_witness:
  "deserialise (serialise ex_mem) = Inr ex_mem \<and> deserialise (serialise ex_mem @ [0]) = Inl (L0TrailingBytes 1)"
  using image_round_trip [OF ex_mem_memtable_ok ex_mem_storable] by auto

end
