(* ===== verification/Merge_Reads.thy ===== *)
theory Merge_Reads
  imports Merge_Levels Memtable_Image
begin

text \<open>
  What a merged level answers. Replaying a folded entry writes exactly its delta, and the born nodes,
  replayed in the order of their ids, get those ids again; so the level \<^verbatim>\<open>Memtable::merge_levels\<close>
  returns has the node reads of the run it replaces and takes the run's place in the stack.
\<close>

section \<open>Writing one key\<close>

definition node_written :: "resolver \<Rightarrow> nat \<Rightarrow> node_key \<Rightarrow> node_delta \<Rightarrow> memtable \<Rightarrow> memtable \<Rightarrow> bool" where
  "node_written \<rho> n k nd m m' \<longleftrightarrow> nodes_ok \<rho> m' \<and> m_base m' = m_base m \<and>
     length (inames (m_interner m')) \<le> length (inames (m_interner m)) + n \<and>
     length (m_born m') = length (m_born m) + (if dense_of \<rho> m k = None then 1 else 0) \<and>
     (\<forall>k'. key_ok k' \<longrightarrow> delta_at m' k' = (if k' = k then Some nd else delta_at m k') \<and>
        dense_of \<rho> m' k' = (if k' = k \<and> dense_of \<rho> m k = None
          then Some (m_base m + of_nat (length (m_born m))) else dense_of \<rho> m k'))"

lemma unplaced_absent:
  assumes "nodes_ok \<rho> m" "key_ok k"
  shows "dense_of \<rho> m k = None \<longleftrightarrow> \<rho> k = None \<and> node_at m k = None"
proof (cases "node_at m k")
  case (Some e)
  note e = node_at_Some [OF assms Some]
  show ?thesis
    using nodes_okD(6) [OF assms(1) e(3)] e(2) Some
    by (auto simp: dense_of_def node_entry_ok_def entry_dense_def split: option.splits)
qed (auto simp: dense_of_def split: option.splits)

lemma assigns_written:
  assumes "nodes_ok \<rho> m" "fits m" "key_ok k" "delta_ok nd" "assigns \<rho> k nd m m'"
  shows "node_written \<rho> 2 k nd m m'"
proof -
  obtain i t b where *: "grows (m_interner m) t" "interned t i" "names_of t i = k"
    "m' = (set_delta \<rho> i nd (m\<lparr>m_interner := t\<rparr>))\<lparr>m_bytes := b\<rparr>"
    using assms(5) unfolding assigns_def by blast
  let ?m = "m\<lparr>m_interner := t\<rparr>"
  have ok: "nodes_ok \<rho> ?m" using nodes_ok_grow [OF assms(1) *(1)] .
  have i: "node_identity_ok i" using *(3) assms(3) by (auto simp: node_identity_ok_def names_of_def key_ok_def)
  have at: "node_at ?m k' = node_at m k'" if "key_ok k'" for k' using node_at_grow [OF assms(1) *(1) that] .
  have "node_at ?m k = fmlookup (m_nodes ?m) (node_canonical_key i)"
    by (rule node_at_interned [OF nodes_okD(1) [OF ok]]) (use *(2,3) in simp_all)
  then have "length (m_born m') = length (m_born m) + (if \<rho> k = None \<and> node_at m k = None then 1 else 0)"
    using *(3,4) at [OF assms(3)]
    by (auto simp: set_delta_def Let_def put_entry_def push_born_def split: option.splits)
  moreover have "dense_of \<rho> m' k' = (if k' = k \<and> dense_of \<rho> m k = None
      then Some (m_base m + of_nat (length (m_born m))) else dense_of \<rho> m k')" if k': "key_ok k'" for k'
  proof -
    have "node_at m' k' = node_at (set_delta \<rho> i nd ?m) k'" using *(4) by (simp add: node_at_def)
    then show ?thesis
      using node_at_set_delta [OF ok _ i assms(4) _ k'] *(2,3) assms(2) at [OF k'] unplaced_absent [OF assms(1,3)]
      by (auto simp: dense_of_def fits_def split: option.splits)
  qed
  ultimately show ?thesis
    using assigns_effect [OF assms] assigns_grown [OF assms(5)] unplaced_absent [OF assms(1,3)]
    by (simp add: node_written_def grown_def)
qed

lemma writtenD:
  assumes "node_written \<rho> n k nd m m'"
  shows "nodes_ok \<rho> m'" "m_base m' = m_base m"
    "length (inames (m_interner m')) \<le> length (inames (m_interner m)) + n"
    "length (m_born m') = length (m_born m) + (if dense_of \<rho> m k = None then 1 else 0)"
    "key_ok k' \<Longrightarrow> delta_at m' k' = (if k' = k then Some nd else delta_at m k')"
    "key_ok k' \<Longrightarrow> dense_of \<rho> m' k' = (if k' = k \<and> dense_of \<rho> m k = None
       then Some (m_base m + of_nat (length (m_born m))) else dense_of \<rho> m k')"
  using assms unfolding node_written_def by blast+

lemma written_mono: "node_written \<rho> a k nd m m' \<Longrightarrow> a \<le> b \<Longrightarrow> node_written \<rho> b k nd m m'"
  unfolding node_written_def using add_le_mono le_trans by blast

lemma written_trans:
  assumes "node_written \<rho> a k nd m m'" "node_written \<rho> b k nd' m' m''" "key_ok k"
  shows "node_written \<rho> (a + b) k nd' m m''"
proof -
  have placed: "dense_of \<rho> m' k \<noteq> None" using writtenD(6) [OF assms(1,3)] by auto
  show ?thesis unfolding node_written_def
    using writtenD(1-4) [OF assms(1)] writtenD(1-4) [OF assms(2)] placed
      writtenD(5,6) [OF assms(1)] writtenD(5,6) [OF assms(2)] by auto
qed

lemma op_written:
  assumes "nodes_ok \<rho> m" "room 2 m" "fits m" "wal_node_key op = Some k" "key_ok k"
    and "\<And>l p v. op = DeleteNode l p v \<Longrightarrow> node_at m k \<noteq> None \<or> \<rho> k \<noteq> None"
    and "apply_op lay op (ResNode (\<rho> k)) m = Some m'"
  shows "node_written \<rho> 2 k (node_effect op (old_delta m k)) m m'"
proof -
  have "\<exists>m'. apply_op lay op (ResNode (\<rho> k)) m = Some m' \<and> assigns \<rho> k (node_effect op (old_delta m k)) m m'"
    by (rule node_op_assigns [OF assms(1-5)]) (use assms(6) in \<open>auto simp: resolves_def\<close>)
  then have "assigns \<rho> k (node_effect op (old_delta m k)) m m'" using assms(7) by simp
  then show ?thesis using assigns_written [OF assms(1,3,5) node_effect_ok [OF old_delta_ok [OF assms(1,5)]]] by blast
qed

text \<open>The room a run of writes of one key needs: two names per write, and one id if the key has none.\<close>

definition key_room :: "resolver \<Rightarrow> node_key \<Rightarrow> nat \<Rightarrow> memtable \<Rightarrow> bool" where
  "key_room \<rho> k n m \<longleftrightarrow> length (inames (m_interner m)) + n \<le> 2 ^ 32 \<and>
     unat (m_base m) + length (m_born m) + (if dense_of \<rho> m k = None then 1 else 0) < 2 ^ 64"

lemma folded_op_step:
  assumes "nodes_ok \<rho> m" "key_room \<rho> k (n + 2) m" "wal_node_key op = Some k" "key_ok k"
    and "\<And>l p v. op = DeleteNode l p v \<Longrightarrow> node_at m k \<noteq> None \<or> \<rho> k \<noteq> None"
    and "apply_op lay op (ResNode (\<rho> k)) m = Some m'" "nd = node_effect op (old_delta m k)"
  shows "node_written \<rho> 2 k nd m m'" "nodes_ok \<rho> m'" "key_room \<rho> k n m'" "old_delta m' k = nd" "node_at m' k \<noteq> None"
proof -
  have rf: "room 2 m" "fits m"
    using assms(1,2) by (auto simp: room_def fits_def key_room_def nodes_okD(1) split: if_splits)
  show w: "node_written \<rho> 2 k nd m m'"
    unfolding assms(7) by (rule op_written [OF assms(1) rf assms(3,4) _ assms(6)]) (use assms(5) in blast)
  show "nodes_ok \<rho> m'" using writtenD(1) [OF w] .
  have "dense_of \<rho> m' k \<noteq> None" using writtenD(6) [OF w assms(4)] by auto
  then show "key_room \<rho> k n m'" using assms(2) writtenD(2-4) [OF w] by (auto simp: key_room_def)
  have "delta_at m' k = Some nd" using writtenD(5) [OF w assms(4)] by simp
  then show "old_delta m' k = nd" "node_at m' k \<noteq> None" by (auto simp: old_delta_def delta_at_def)
qed

section \<open>Replaying one folded entry\<close>

text \<open>The mutators, run over the parts of a delta, rebuild it.\<close>

lemma nd_set_all_fields:
  "nd_patches (nd_set_all ps d) = fminsert_all ps (nd_patches d)"
  "nd_removed (nd_set_all ps d) = nd_removed d |-| fset_of_list (map fst ps)"
  "nd_replaced (nd_set_all ps d) = nd_replaced d" "nd_added (nd_set_all ps d) = nd_added d"
  "nd_dropped (nd_set_all ps d) = nd_dropped d" "nd_tombstoned (nd_set_all ps d) = nd_tombstoned d"
  by (induction ps d rule: nd_set_all.induct) auto

lemma nd_remove_all_fields:
  "nd_patches (nd_remove_all ns d) = fmdrop_fset (fset_of_list ns) (nd_patches d)"
  "\<not> nd_replaced d \<Longrightarrow> nd_removed (nd_remove_all ns d) = nd_removed d |\<union>| fset_of_list ns"
  "nd_replaced (nd_remove_all ns d) = nd_replaced d" "nd_added (nd_remove_all ns d) = nd_added d"
  "nd_dropped (nd_remove_all ns d) = nd_dropped d" "nd_tombstoned (nd_remove_all ns d) = nd_tombstoned d"
  by (induction ns d rule: nd_remove_all.induct) (auto intro!: fmap_ext)

lemma nd_labels_fields:
  "nd_added (nd_add_labels ls d) = nd_added d |\<union>| fset_of_list ls"
  "nd_dropped (nd_add_labels ls d) = nd_dropped d |-| fset_of_list ls"
  "nd_added (nd_drop_labels ls d) = nd_added d |-| fset_of_list ls"
  "nd_dropped (nd_drop_labels ls d) = nd_dropped d |\<union>| fset_of_list ls"
  "nd_patches (nd_add_labels ls d) = nd_patches d" "nd_patches (nd_drop_labels ls d) = nd_patches d"
  "nd_removed (nd_add_labels ls d) = nd_removed d" "nd_removed (nd_drop_labels ls d) = nd_removed d"
  "nd_replaced (nd_add_labels ls d) = nd_replaced d" "nd_replaced (nd_drop_labels ls d) = nd_replaced d"
  "nd_tombstoned (nd_add_labels ls d) = nd_tombstoned d" "nd_tombstoned (nd_drop_labels ls d) = nd_tombstoned d"
  by (induction ls arbitrary: d) auto

lemmas nd_fields = nd_set_all_fields nd_remove_all_fields nd_labels_fields nd_insert_all_fields nd_insert_all_patches

lemma sorted_list_of_fset_of_list [simp]: "fset_of_list (sorted_list_of_fset s) = s"
  by (simp add: fset_eq_iff fset_of_list_elem sorted_list_of_fset.rep_eq)

text \<open>The delta without its label changes, which the replay writes first.\<close>

definition props_only :: "node_delta \<Rightarrow> node_delta" where
  "props_only nd = nd\<lparr>nd_added := {||}, nd_dropped := {||}\<rparr>"

lemma rebuild_replaced:
  assumes "delta_ok nd" "\<not> nd_tombstoned nd" "nd_replaced nd"
  shows "nd_replace_all (sorted_list_of_fmap (nd_patches nd)) nd_default = props_only nd"
  using assms
  by (intro node_delta.equality)
    (simp_all add: nd_replace_all_def nd_fields props_only_def sorted_list_of_fmap_insert delta_ok_def)

lemma rebuild_patched:
  assumes "delta_ok nd" "\<not> nd_tombstoned nd" "\<not> nd_replaced nd"
  shows "nd_remove_all (sorted_list_of_fset (nd_removed nd)) (nd_set_all (sorted_list_of_fmap (nd_patches nd)) nd_default) = props_only nd"
proof -
  have "fmdrop_fset (nd_removed nd) (nd_patches nd) = nd_patches nd"
    using assms(1) by (intro fmap_ext) (auto simp: delta_ok_def dest: fmdom_notI fmdomI intro: sym [OF fmdom_notD])
  then show ?thesis
    using assms
    by (intro node_delta.equality) (simp_all add: nd_fields props_only_def sorted_list_of_fmap_insert)
qed

lemma rebuild_labels:
  assumes "delta_ok nd" "\<not> nd_tombstoned nd"
  shows "nd_drop_labels (sorted_list_of_fset (nd_dropped nd)) (nd_add_labels (sorted_list_of_fset (nd_added nd)) (props_only nd)) = nd"
proof -
  have "nd_added nd |-| nd_dropped nd = nd_added nd" using assms(1) by (auto simp: delta_ok_def)
  then show ?thesis by (intro node_delta.equality) (simp_all add: nd_fields props_only_def)
qed

text \<open>What the fold keeps of a node: an identity, an id and a delta.\<close>

definition folded_name :: "folded_node \<Rightarrow> node_key" where
  "folded_name f = (fn_label f, fn_key f, fn_value f)"

definition replay_props :: "layout \<Rightarrow> folded_node \<Rightarrow> u64 option \<Rightarrow> memtable \<Rightarrow> memtable" where
  "replay_props lay f r m =
     (let nd = fn_delta f; ps = sorted_list_of_fmap (nd_patches nd); l = fn_label f; p = fn_key f; v = fn_value f
      in if nd_replaced nd then replace_node lay l p v r ps m
         else let m0 = upsert_node lay l p v r ps m
              in if nd_removed nd \<noteq> {||} then remove_node_props lay l p v r (sorted_list_of_fset (nd_removed nd)) m0 else m0)"

lemma replay_props_written:
  assumes ok: "nodes_ok \<rho> m" and room: "key_room \<rho> k 6 m" and k: "key_ok k" "k = folded_name f"
    and d: "delta_ok (fn_delta f)" "old_delta m k = nd_default" and live: "\<not> nd_tombstoned (fn_delta f)"
    and m1: "m1 = replay_props lay f (\<rho> k) m"
  shows "node_written \<rho> 4 k (props_only (fn_delta f)) m m1 \<and> nodes_ok \<rho> m1 \<and> key_room \<rho> k 2 m1 \<and>
    old_delta m1 k = props_only (fn_delta f)"
proof -
  let ?nd = "fn_delta f" and ?l = "fn_label f" and ?p = "fn_key f" and ?v = "fn_value f"
  let ?ps = "sorted_list_of_fmap (nd_patches ?nd)" and ?rs = "sorted_list_of_fset (nd_removed ?nd)"
  show ?thesis
  proof (cases "nd_replaced ?nd")
    case True
    note st = folded_op_step [OF ok, of k 4 "ReplaceNode ?l ?p ?v ?ps" lay m1 "props_only ?nd"]
    have h: "apply_op lay (ReplaceNode ?l ?p ?v ?ps) (ResNode (\<rho> k)) m = Some m1"
      "props_only ?nd = node_effect (ReplaceNode ?l ?p ?v ?ps) (old_delta m k)"
      using True d(2) rebuild_replaced [OF d(1) live] by (simp_all add: m1 replay_props_def)
    have "key_room \<rho> k 2 m1" using st(3) room k h by (simp add: folded_name_def key_room_def)
    then show ?thesis using st(1,2,4) room k h written_mono [of \<rho> 2 k _ m m1 4] by (simp add: folded_name_def)
  next
    case False
    define m0 where "m0 = upsert_node lay ?l ?p ?v (\<rho> k) ?ps m"
    let ?d0 = "nd_set_all ?ps nd_default"
    note s0 = folded_op_step [OF ok, of k 4 "UpsertNode ?l ?p ?v ?ps" lay m0 ?d0]
    have 0: "node_written \<rho> 2 k ?d0 m m0" "nodes_ok \<rho> m0" "key_room \<rho> k 4 m0" "old_delta m0 k = ?d0"
      using s0 room k d(2) by (simp_all add: folded_name_def m0_def)
    show ?thesis
    proof (cases "nd_removed ?nd = {||}")
      case True
      have "?d0 = props_only ?nd" using rebuild_patched [OF d(1) live False] True by (simp add: sorted_list_of_fset.rep_eq)
      moreover have "m1 = m0" using False True by (simp add: m1 replay_props_def Let_def m0_def)
      ultimately show ?thesis using 0 written_mono [OF 0(1), of 4] by (simp add: key_room_def)
    next
      case rem: False
      have m1: "m1 = remove_node_props lay ?l ?p ?v (\<rho> k) ?rs m0"
        using False rem by (simp add: m1 replay_props_def Let_def m0_def)
      have "\<not> nd_tombstoned ?d0" by (simp add: nd_fields)
      then have d0: "nd_resurrect ?d0 = ?d0" by (simp add: nd_resurrect_def)
      note s1 = folded_op_step [OF 0(2), of k 2 "RemoveNodeProps ?l ?p ?v ?rs" lay m1 "props_only ?nd"]
      have "props_only ?nd = node_effect (RemoveNodeProps ?l ?p ?v ?rs) (old_delta m0 k)"
        using rebuild_patched [OF d(1) live False] by (simp add: 0(4) d0)
      then have 1: "node_written \<rho> 2 k (props_only ?nd) m0 m1" "nodes_ok \<rho> m1" "key_room \<rho> k 2 m1" "old_delta m1 k = props_only ?nd"
        using s1 0(3) k by (simp_all add: folded_name_def m1)
      show ?thesis using written_trans [OF 0(1) 1(1) k(1)] 1(2-4) by simp
    qed
  qed
qed

lemma replay_folded_written:
  assumes ok: "nodes_ok \<rho> m" and room: "key_room \<rho> k 6 m" and k: "key_ok k" "k = folded_name f"
    and d: "delta_ok (fn_delta f)" "old_delta m k = nd_default"
    and del: "nd_tombstoned (fn_delta f) \<Longrightarrow> node_at m k \<noteq> None \<or> \<rho> k \<noteq> None"
  shows "node_written \<rho> 6 k (fn_delta f) m (replay_folded_node lay f (\<rho> k) m)"
proof (cases "nd_tombstoned (fn_delta f)")
  case True
  then have nd: "fn_delta f = nd_tombstone" using d(1) by (simp add: delta_ok_def)
  have "node_written \<rho> 2 k nd_tombstone m (delete_node lay (fn_label f) (fn_key f) (fn_value f) (\<rho> k) m)"
    by (rule folded_op_step(1) [OF ok, where op = "DeleteNode (fn_label f) (fn_key f) (fn_value f)" and n = 4])
      (use room k del [OF True] in \<open>simp_all add: folded_name_def\<close>)
  then show ?thesis using True written_mono [of \<rho> 2 k] by (simp add: replay_folded_node_def nd)
next
  case live: False
  let ?nd = "fn_delta f" and ?m1 = "replay_props lay f (\<rho> k) m"
  let ?add = "sorted_list_of_fset (nd_added ?nd)" and ?drop = "sorted_list_of_fset (nd_dropped ?nd)"
  note props = replay_props_written [OF ok room k d live refl, of lay]
  show ?thesis
  proof (cases "nd_added ?nd = {||} \<and> nd_dropped ?nd = {||}")
    case True
    then have "props_only ?nd = ?nd" by (simp add: props_only_def)
    then show ?thesis using props written_mono [of \<rho> 4 k ?nd m ?m1 6] True live
      by (simp add: replay_folded_node_def replay_props_def Let_def)
  next
    case False
    define m2 where "m2 = set_node_labels lay (fn_label f) (fn_key f) (fn_value f) (\<rho> k) ?add ?drop ?m1"
    have "nd_resurrect (props_only ?nd) = props_only ?nd" using live by (simp add: nd_resurrect_def props_only_def)
    then have "node_written \<rho> 2 k ?nd ?m1 m2"
      using folded_op_step(1) [of \<rho> ?m1 k 0 "SetNodeLabels (fn_label f) (fn_key f) (fn_value f) ?add ?drop" lay m2 ?nd]
        props k rebuild_labels [OF d(1) live] by (simp add: folded_name_def m2_def numeral_2_eq_2)
    then have "node_written \<rho> 6 k ?nd m m2" using written_trans [OF _ _ k(1), of \<rho> 4 "props_only ?nd" m ?m1 2 ?nd m2] props by simp
    moreover have "replay_folded_node lay f (\<rho> k) m = m2"
      using False live by (auto simp: replay_folded_node_def replay_props_def Let_def m2_def)
    ultimately show ?thesis by simp
  qed
qed

lemma replay_born_written:
  assumes ok: "nodes_ok \<rho> m" and room: "key_room \<rho> k 8 m" and k: "key_ok k" "k = folded_name f" "\<rho> k = None"
    and d: "delta_ok (fn_delta f)" "delta_at m k = None"
  shows "node_written \<rho> 8 k (fn_delta f) m (replay_born_node lay f m)"
proof -
  let ?m = "upsert_node lay (fn_label f) (fn_key f) (fn_value f) None [] m"
  have o: "old_delta m k = nd_default" using d(2) by (simp add: old_delta_def)
  have h: "apply_op lay (UpsertNode (fn_label f) (fn_key f) (fn_value f) []) (ResNode (\<rho> k)) m = Some ?m" using k(3) by simp
  note s = folded_op_step [OF ok, of k 6 "UpsertNode (fn_label f) (fn_key f) (fn_value f) []" lay ?m nd_default]
  have 1: "node_written \<rho> 2 k nd_default m ?m" "nodes_ok \<rho> ?m" "key_room \<rho> k 6 ?m" "old_delta ?m k = nd_default" "node_at ?m k \<noteq> None"
    using s [OF _ _ k(1) _ h] room k o by (simp_all add: folded_name_def)
  have "node_written \<rho> 6 k (fn_delta f) ?m (replay_born_node lay f m)"
    using replay_folded_written [OF 1(2,3) k(1,2) d(1) 1(4), of lay] 1(5) k(3) by (simp add: replay_born_node_def)
  then show ?thesis using written_trans [OF 1(1) _ k(1)] by fastforce
qed

section \<open>Replaying the lists\<close>

text \<open>A memtable that holds the entries \<open>fs\<close> under their ids and, otherwise, what \<open>m\<close> holds.\<close>

definition fills :: "resolver \<Rightarrow> nat \<Rightarrow> folded_node list \<Rightarrow> memtable \<Rightarrow> memtable \<Rightarrow> bool" where
  "fills \<rho> n fs m m' \<longleftrightarrow> nodes_ok \<rho> m' \<and> m_base m' = m_base m \<and>
     length (inames (m_interner m')) \<le> length (inames (m_interner m)) + n * length fs \<and>
     (\<forall>f \<in> set fs. delta_at m' (folded_name f) = Some (fn_delta f) \<and> dense_of \<rho> m' (folded_name f) = Some (fn_dense f)) \<and>
     (\<forall>k. key_ok k \<longrightarrow> k \<notin> folded_name ` set fs \<longrightarrow> delta_at m' k = delta_at m k \<and> dense_of \<rho> m' k = dense_of \<rho> m k)"

lemma fillsD:
  assumes "fills \<rho> n fs m m'"
  shows "nodes_ok \<rho> m'" "m_base m' = m_base m"
    "length (inames (m_interner m')) \<le> length (inames (m_interner m)) + n * length fs"
    "f \<in> set fs \<Longrightarrow> delta_at m' (folded_name f) = Some (fn_delta f)"
    "f \<in> set fs \<Longrightarrow> dense_of \<rho> m' (folded_name f) = Some (fn_dense f)"
    "key_ok k \<Longrightarrow> k \<notin> folded_name ` set fs \<Longrightarrow> delta_at m' k = delta_at m k"
    "key_ok k \<Longrightarrow> k \<notin> folded_name ` set fs \<Longrightarrow> dense_of \<rho> m' k = dense_of \<rho> m k"
  using assms unfolding fills_def by blast+

lemma fills_Cons:
  assumes "node_written \<rho> n (folded_name f) (fn_delta f) m m1" "dense_of \<rho> m1 (folded_name f) = Some (fn_dense f)"
    and "fills \<rho> n fs m1 m'" "distinct (map folded_name (f # fs))" "key_ok (folded_name f)"
  shows "fills \<rho> n (f # fs) m m'"
proof -
  note w = writtenD [OF assms(1)] and g = fillsD [OF assms(3)]
  have f: "folded_name f \<notin> folded_name ` set fs" using assms(4) by simp
  have "delta_at m' (folded_name f) = Some (fn_delta f)" using g(6) [OF assms(5) f] w(5) [OF assms(5)] by simp
  moreover have "dense_of \<rho> m' (folded_name f) = Some (fn_dense f)" using g(7) [OF assms(5) f] assms(2) by simp
  moreover have "delta_at m' k = delta_at m k \<and> dense_of \<rho> m' k = dense_of \<rho> m k"
    if "key_ok k" "k \<notin> folded_name ` set (f # fs)" for k
    using g(6,7) [of k] w(5,6) [of k] that by simp
  moreover have "length (inames (m_interner m')) \<le> length (inames (m_interner m)) + n * length (f # fs)"
    using g(3) w(3) by simp
  ultimately show ?thesis unfolding fills_def using g(1,2,4,5) w(2) by auto
qed

lemma replay_core_fills:
  assumes "nodes_ok \<rho> m" "distinct (map folded_name fs)" "length (inames (m_interner m)) + 6 * length fs \<le> 2 ^ 32"
    and "unat (m_base m) + length (m_born m) < 2 ^ 64"
    and "\<forall>f \<in> set fs. key_ok (folded_name f) \<and> delta_ok (fn_delta f) \<and> \<rho> (folded_name f) = Some (fn_dense f) \<and>
      delta_at m (folded_name f) = None"
  shows "fills \<rho> 6 fs m (fold (replay_core_node lay) fs m) \<and>
    length (m_born (fold (replay_core_node lay) fs m)) = length (m_born m)"
  using assms
proof (induction fs arbitrary: m)
  case Nil
  then show ?case by (simp add: fills_def)
next
  case (Cons f fs)
  let ?k = "folded_name f" and ?m = "replay_core_node lay f m"
  have k: "key_ok ?k" "delta_ok (fn_delta f)" "\<rho> ?k = Some (fn_dense f)" "delta_at m ?k = None" using Cons.prems(5) by simp_all
  have placed: "dense_of \<rho> x ?k = Some (fn_dense f)" for x using k(3) by (simp add: dense_of_def)
  have w: "node_written \<rho> 6 ?k (fn_delta f) m ?m"
    using replay_folded_written [OF Cons.prems(1) _ k(1) refl k(2), of lay] k(3,4) Cons.prems(3,4) placed
    by (simp add: key_room_def old_delta_def replay_core_node_def)
  note d = writtenD [OF w]
  have "fills \<rho> 6 fs ?m (fold (replay_core_node lay) fs ?m) \<and>
      length (m_born (fold (replay_core_node lay) fs ?m)) = length (m_born ?m)"
    by (rule Cons.IH) (use Cons.prems d placed in \<open>auto simp: image_iff\<close>)
  then show ?case using fills_Cons [OF w placed _ Cons.prems(2) k(1)] d(4) placed by simp
qed

lemma replay_born_fills:
  assumes "nodes_ok \<rho> m" "distinct (map folded_name fs)" "length (inames (m_interner m)) + 8 * length fs \<le> 2 ^ 32"
    and "unat (m_base m) + length (m_born m) + length fs < 2 ^ 64"
    and "\<forall>f \<in> set fs. key_ok (folded_name f) \<and> delta_ok (fn_delta f) \<and> \<rho> (folded_name f) = None \<and>
      delta_at m (folded_name f) = None"
    and "\<forall>i < length fs. fn_dense (fs ! i) = m_base m + of_nat (length (m_born m) + i)"
  shows "fills \<rho> 8 fs m (fold (replay_born_node lay) fs m) \<and>
    length (m_born (fold (replay_born_node lay) fs m)) = length (m_born m) + length fs"
  using assms
proof (induction fs arbitrary: m)
  case Nil
  then show ?case by (simp add: fills_def)
next
  case (Cons f fs)
  let ?k = "folded_name f" and ?m = "replay_born_node lay f m"
  have k: "key_ok ?k" "delta_ok (fn_delta f)" "\<rho> ?k = None" "delta_at m ?k = None" using Cons.prems(5) by simp_all
  have unplaced: "dense_of \<rho> m ?k = None"
    using unplaced_absent [OF Cons.prems(1) k(1)] k(3,4) by (simp add: delta_at_def)
  have w: "node_written \<rho> 8 ?k (fn_delta f) m ?m"
    using replay_born_written [OF Cons.prems(1) _ k(1) refl k(3,2,4), of lay] Cons.prems(3,4) unplaced
    by (simp add: key_room_def)
  note d = writtenD [OF w]
  have placed: "dense_of \<rho> ?m ?k = Some (fn_dense f)" using d(6) [OF k(1)] unplaced Cons.prems(6) by force
  have tile: "\<forall>i < length fs. fn_dense (fs ! i) = m_base ?m + of_nat (length (m_born ?m) + i)"
    using Cons.prems(6) [rule_format, of "Suc i" for i] d(2,4) unplaced by (auto simp: algebra_simps)
  have "fills \<rho> 8 fs ?m (fold (replay_born_node lay) fs ?m) \<and>
      length (m_born (fold (replay_born_node lay) fs ?m)) = length (m_born ?m) + length fs"
    by (rule Cons.IH) (use Cons.prems d unplaced tile in \<open>auto simp: image_iff\<close>)
  then show ?case using fills_Cons [OF w placed _ Cons.prems(2) k(1)] d(4) unplaced by simp
qed

section \<open>Born ids of one level\<close>

lemma born_id_bound:
  assumes "nodes_ok \<rho> m" "key_ok k" "Option.bind (node_at m k) ne_synthetic = Some d"
  shows "m_base m \<le> d"
proof -
  obtain e where e: "node_at m k = Some e" "ne_synthetic e = Some d" using assms(3) by (auto simp: Option.bind_eq_Some_conv)
  show ?thesis using synthetic_not_below [OF assms(1) node_at_Some(3) [OF assms(1,2) e(1)] e(2)] .
qed

lemma born_id_patched:
  assumes "nodes_ok \<rho> m" "m_base m \<le> d" "unat d < unat (m_base m) + length (m_born m)"
  shows "node_patch m d \<noteq> None"
proof -
  define i where "i = unat d - unat (m_base m)"
  have le: "unat (m_base m) \<le> unat d" using assms(2) by (simp add: word_le_nat_alt)
  then have i: "i < length (m_born m)" using assms(3) by (simp add: i_def)
  have "(of_nat i :: u64) = of_nat (unat d) - of_nat (unat (m_base m))" unfolding i_def by (rule of_nat_diff [OF le])
  then have d: "d = m_base m + of_nat i" by simp
  obtain e where e: "fmlookup (m_nodes m) (m_born m ! i) = Some e" "ne_synthetic e = Some d"
    using nodes_okD(4) [OF assms(1)] i by (auto simp: born_ok_def d)
  have "fmlookup (m_by_dense m) d = Some (m_born m ! i)"
    using nodes_okD(6) [OF assms(1) e(1)] e(2) by (auto simp: node_entry_ok_def entry_dense_def split: option.splits)
  then show ?thesis using e(1) by (simp add: node_patch_def)
qed

section \<open>A run inside a stack\<close>

lemma run_below: "stack_ok probe (run @ below) base \<Longrightarrow> run \<noteq> [] \<Longrightarrow> stack_ok probe below (m_base (last run))"
  by (induction run arbitrary: base) (auto split: if_splits)

lemma stack_top: "stack_ok probe (m # ms) base \<Longrightarrow> unat base = unat (m_base m) + length (m_born m)"
  using next_id [of m] by (simp add: fits_def)

lemma run_base_le:
  assumes "run \<noteq> []" "stack_ok probe (run @ below) base"
  shows "m_base (last run) \<le> base"
  using assms
proof (induction run arbitrary: base rule: list_nonempty_induct)
  case (single m)
  then show ?case using stack_top [of probe m below base] by (simp add: word_le_nat_alt)
next
  case (cons m run)
  then have "m_base (last run) \<le> m_base m" by simp
  moreover have "m_base m \<le> base" using stack_top [of probe m "run @ below" base] cons.prems by (simp add: word_le_nat_alt)
  ultimately show ?case using cons.hyps by simp
qed

lemma run_resolver_mono:
  assumes "stack_ok probe (run @ below) base" "level_resolver probe below k = Some d"
  shows "level_resolver probe (run @ below) k = Some d"
  using assms
proof (induction run arbitrary: base)
  case (Cons m run)
  then have "level_resolver probe (run @ below) k = Some d" by auto
  then show ?case using level_resolver_Cons [of probe "run @ below" m k] Cons.prems(1) by simp
qed simp

lemma run_resolver:
  assumes "run \<noteq> []" "stack_ok probe (run @ below) base" "level_resolver probe (run @ below) k = Some d"
  shows "level_resolver probe below k = (if d < m_base (last run) then Some d else None)"
proof (cases "level_resolver probe below k")
  case (Some d')
  then have "d' = d" using run_resolver_mono [OF assms(2)] assms(3) by fastforce
  then show ?thesis using Some resolver_okD(1) [OF stack_resolver_ok [OF run_below [OF assms(2,1)]] Some] by simp
next
  case None
  have "\<not> d < m_base (last run)"
    using assms(1-3)
  proof (induction run arbitrary: base rule: list_nonempty_induct)
    case (single m)
    then have ok: "nodes_ok (level_resolver probe below) m" by simp
    show ?case
      using single.prems(2) None born_id_bound [OF ok, of k d] by (auto simp: level_resolver_Cons [OF ok] split: if_splits)
  next
    case (cons m run)
    then have ok: "nodes_ok (level_resolver probe (run @ below)) m" by simp
    have low: "m_base (last run) \<le> m_base m" using run_base_le [OF cons.hyps(1), of probe below "m_base m"] cons.prems(1) by simp
    show ?case
    proof (cases "level_resolver probe (run @ below) k")
      case None
      then have "m_base m \<le> d"
        using cons.prems(2) born_id_bound [OF ok, of k d] by (auto simp: level_resolver_Cons [OF ok] split: if_splits)
      then show ?thesis using low cons.hyps by simp
    next
      case (Some d')
      then have "level_resolver probe (run @ below) k = Some d"
        using cons.prems(2) by (simp add: level_resolver_Cons [OF ok])
      then show ?thesis using cons.IH [of "m_base m"] cons.prems(1) cons.hyps by simp
    qed
  qed
  then show ?thesis using None by simp
qed

text \<open>Every id from the run's base to its top is a node of the run.\<close>

lemma run_covers:
  assumes "run \<noteq> []" "stack_ok probe (run @ below) base" "m_base (last run) \<le> d" "d < base"
  shows "\<exists>m \<in> set run. node_patch m d \<noteq> None"
  using assms
proof (induction run arbitrary: base)
  case (Cons m run)
  have ok: "nodes_ok (level_resolver probe (run @ below)) m" using Cons.prems(2) by simp
  show ?case
  proof (cases "m_base m \<le> d")
    case True
    have top: "unat base = unat (m_base m) + length (m_born m)" using stack_top Cons.prems(2) by fastforce
    have "node_patch m d \<noteq> None" by (rule born_id_patched [OF ok True]) (use top Cons.prems(4) in \<open>simp add: word_less_nat_alt\<close>)
    then show ?thesis by simp
  next
    case False
    then have "run \<noteq> []" using Cons.prems(3) by auto
    then show ?thesis using Cons.IH [of "m_base m"] Cons.prems(2,3) False by auto
  qed
qed simp

section \<open>The folded entries of a run\<close>

abbreviation fold_values :: "('k :: linorder, 'v) fmap \<Rightarrow> 'v list" where
  "fold_values f \<equiv> map snd (sorted_list_of_fmap f)"

lemma folded_fields [simp]:
  "folded_name (folded k d nd) = k" "fn_dense (folded k d nd) = d" "fn_delta (folded k d nd) = nd"
  by (simp_all add: folded_name_def folded_def split: prod.splits)

lemma fold_levels_Some: "fold_levels (Some a) ps \<noteq> None"
  by (induction "Some a" ps arbitrary: a rule: fold_levels.induct) simp_all

lemma fold_levels_silent: "fold_levels None ps = None \<longleftrightarrow> list_all (\<lambda>p. p = None) ps"
proof (induction ps)
  case (Cons p ps)
  then show ?case by (cases p) (auto simp: fold_levels_Some)
qed simp

lemma fold_levels_ok:
  assumes "\<forall>nd. acc = Some nd \<or> Some nd \<in> set ps \<longrightarrow> delta_ok nd" "fold_levels acc ps = Some nd"
  shows "delta_ok nd"
  using assms by (induction acc ps rule: fold_levels.induct) (auto simp: delta_ok_fold)

lemma run_patches_iff:
  assumes "stack_ok probe (run @ below) base"
  shows "run_patches run d \<noteq> None \<longleftrightarrow> (\<exists>k. in_run run k d)"
proof -
  have "run_patches run d = None \<longleftrightarrow> (\<forall>m \<in> set run. node_identity_by_dense m d = None)"
    by (simp add: run_patches_def fold_levels_silent list_all_iff patch_identity)
  then show ?thesis by (auto simp: in_run_def)
qed

lemma run_patch_ok:
  assumes "stack_ok probe (run @ below) base" "run_patches run d = Some nd"
  shows "delta_ok nd"
proof -
  have "delta_ok nd'" if p: "Some nd' \<in> set (map (\<lambda>m. node_patch m d) (rev run))" for nd'
  proof -
    obtain m where m: "m \<in> set run" "node_patch m d = Some nd'" using p by force
    moreover obtain \<rho> where "nodes_ok \<rho> m" using stack_member_ok [OF assms(1)] m(1) by fastforce
    ultimately show ?thesis by (auto simp: node_patch_def Option.bind_eq_Some_conv node_entry_ok_def dest: nodes_okD(6))
  qed
  then show ?thesis using fold_levels_ok [of None "map (\<lambda>m. node_patch m d) (rev run)" nd] assms(2) by (simp add: run_patches_def)
qed

lemma sorted_list_of_fmap_mem: "(k, v) \<in> set (sorted_list_of_fmap f) \<longleftrightarrow> fmlookup f k = Some v"
  by (auto simp: sorted_list_of_fmap_def sorted_list_of_fset.rep_eq fmlookup_dom_iff image_iff)

lemma fold_values_iff:
  assumes "stack_ok probe (run @ below) base" "list_all names_storable run"
  shows "f \<in> set (fold_values (fold_nodes run)) \<longleftrightarrow>
    (\<exists>k d nd. in_run run k d \<and> run_patches run d = Some nd \<and> f = folded k d nd)"
proof
  assume "f \<in> set (fold_values (fold_nodes run))"
  then obtain nk where nk: "fmlookup (fold_nodes run) nk = Some f" by (auto simp: sorted_list_of_fmap_mem)
  then obtain k d where "in_run run k d" "nk = node_name_key k" using fold_nodes_only by blast
  then show "\<exists>k d nd. in_run run k d \<and> run_patches run d = Some nd \<and> f = folded k d nd"
    using fold_nodes_at [OF assms, of k d] nk by (metis map_option_eq_Some)
next
  assume "\<exists>k d nd. in_run run k d \<and> run_patches run d = Some nd \<and> f = folded k d nd"
  then obtain k d nd where "in_run run k d" "run_patches run d = Some nd" "f = folded k d nd" by blast
  then have "fmlookup (fold_nodes run) (node_name_key k) = Some f" using fold_nodes_at [OF assms, of k d] by simp
  then show "f \<in> set (fold_values (fold_nodes run))" unfolding set_map image_iff Bex_def
    by (intro exI [of _ "(node_name_key k, f)"]) (simp add: sorted_list_of_fmap_mem)
qed

lemma in_run_facts:
  assumes "stack_ok probe (run @ below) base" "in_run run k d"
  shows "level_resolver probe (run @ below) k = Some d" "key_ok k" "d < base"
proof -
  obtain m where m: "m \<in> set run" "node_identity_by_dense m d = Some k" using assms(2) by (auto simp: in_run_def)
  show r: "level_resolver probe (run @ below) k = Some d" using stack_identity [OF assms(1) _ m(2)] m(1) by simp
  obtain \<rho> where "nodes_ok \<rho> m" using stack_member_ok [OF assms(1)] m(1) by fastforce
  then show "key_ok k" using level_identity(1) m(2) by blast
  show "d < base" using resolver_okD(1) [OF stack_resolver_ok [OF assms(1)] r] .
qed

lemma in_run_unique: "stack_ok probe (run @ below) base \<Longrightarrow> in_run run k d \<Longrightarrow> in_run run k' d \<Longrightarrow> k' = k"
  unfolding in_run_def using stack_identity_unique [of probe "run @ below" base] by (metis Un_iff set_append)

text \<open>Two folded entries differ in their names and in their ids.\<close>

lemma fold_values_distinct:
  assumes "stack_ok probe (run @ below) base" "list_all names_storable run"
  shows "distinct (map folded_name (fold_values (fold_nodes run)))" "distinct (map fn_dense (fold_values (fold_nodes run)))"
proof -
  let ?V = "fold_values (fold_nodes run)"
  have name: "nk = node_name_key (folded_name f)" if nk: "(nk, f) \<in> set (sorted_list_of_fmap (fold_nodes run))" for nk f
  proof -
    have l: "fmlookup (fold_nodes run) nk = Some f" using nk by (simp add: sorted_list_of_fmap_mem)
    then obtain k d where "in_run run k d" "nk = node_name_key k" using fold_nodes_only by blast
    then show ?thesis using fold_nodes_at [OF assms, of k d] l by auto
  qed
  have "map (node_name_key \<circ> folded_name) ?V = map fst (sorted_list_of_fmap (fold_nodes run))" using name by force
  moreover have "distinct (map fst (sorted_list_of_fmap (fold_nodes run)))"
    by (simp add: sorted_list_of_fmap_def comp_def sorted_list_of_fset.rep_eq)
  ultimately have "distinct (map node_name_key (map folded_name ?V))" by (simp only: map_map comp_assoc)
  then show d: "distinct (map folded_name ?V)" unfolding distinct_map [of node_name_key] by blast
  have "inj_on fn_dense (set ?V)"
  proof (rule inj_onI)
    fix f g assume fg: "f \<in> set ?V" "g \<in> set ?V" "fn_dense f = fn_dense g"
    then obtain k d nd k' nd' where "in_run run k d" "run_patches run d = Some nd" "f = folded k d nd"
      "in_run run k' d" "run_patches run d = Some nd'" "g = folded k' d nd'" unfolding fold_values_iff [OF assms] by auto
    moreover from this have "k' = k" using in_run_unique [OF assms(1)] by blast
    ultimately show "f = g" by simp
  qed
  moreover have "distinct ?V" using d unfolding distinct_map [of folded_name] by blast
  ultimately show "distinct (map fn_dense ?V)" unfolding distinct_map [of fn_dense] by blast
qed

section \<open>Edges leave the nodes alone\<close>

text \<open>An edge written between resolved endpoints touches no node store; it only interns names.\<close>

definition same_nodes :: "memtable \<Rightarrow> memtable \<Rightarrow> bool" where
  "same_nodes m m' \<longleftrightarrow> grows (m_interner m) (m_interner m') \<and> m_nodes m' = m_nodes m \<and> m_by_dense m' = m_by_dense m \<and>
     m_base m' = m_base m \<and> m_born m' = m_born m \<and> m_tombs m' = m_tombs m \<and> m_born_labels m' = m_born_labels m"

lemma same_nodes_trans: "same_nodes a b \<Longrightarrow> same_nodes b c \<Longrightarrow> same_nodes a c"
  unfolding same_nodes_def using grows_trans by metis

lemma same_nodes_refl: "room n m \<Longrightarrow> same_nodes m m"
  by (simp add: same_nodes_def grows_refl room_def)

lemma same_nodes_ok: "same_nodes m m' \<Longrightarrow> nodes_ok \<rho> m \<Longrightarrow> nodes_ok \<rho> m'"
  using nodes_ok_grow [of \<rho> m "m_interner m'"] nodes_ok_cong [of m' "m\<lparr>m_interner := m_interner m'\<rparr>" \<rho>]
  by (simp add: same_nodes_def)

lemma same_nodes_patch: "same_nodes m m' \<Longrightarrow> node_patch m' d = node_patch m d"
  by (simp add: same_nodes_def node_patch_def)

lemma edge_at_keeps:
  "same_nodes m (upsert_edge_at lay s d i ek rep ps m') = same_nodes m m'" "room n (upsert_edge_at lay s d i ek rep ps m') = room n m'"
  "same_nodes m (delete_edge_at lay s d i m') = same_nodes m m'" "room n (delete_edge_at lay s d i m') = room n m'"
  "same_nodes m (patch_core_edge_at lay s d i ek cid rep ps m') = same_nodes m m'"
  "room n (patch_core_edge_at lay s d i ek cid rep ps m') = room n m'"
  by (auto simp: same_nodes_def room_def upsert_edge_at_def delete_edge_at_def patch_core_edge_at_def upd_edge_def Let_def split: option.splits)

lemma intern_edge_keeps:
  assumes "room (n + 6) m"
  shows "same_nodes m (snd (intern_edge_identity src rt dst ek m))" "room n (snd (intern_edge_identity src rt dst ek m))"
proof -
  obtain i m' where i: "intern_edge_identity src rt dst ek m = (i, m')" by fastforce
  note s = intern_edge_identity_spec [OF i assms]
  have "same_nodes m (m\<lparr>m_interner := m_interner m'\<rparr>)" using s(1) by (simp add: same_nodes_def)
  then show "same_nodes m (snd (intern_edge_identity src rt dst ek m))" "room n (snd (intern_edge_identity src rt dst ek m))"
    using s(2,5) i by simp_all
qed

lemma edge_writes_keep:
  assumes "room (n + 6) m"
  shows "same_nodes m (upsert_edge_keyed lay src rt dst (Some s) (Some d) ek rep ps m)"
    "room n (upsert_edge_keyed lay src rt dst (Some s) (Some d) ek rep ps m)"
    "same_nodes m (patch_core_edge_keyed lay src rt dst (Some s) (Some d) ek cid rep ps m)"
    "room n (patch_core_edge_keyed lay src rt dst (Some s) (Some d) ek cid rep ps m)"
    "same_nodes m (delete_edge_keyed lay src rt dst (Some s) (Some d) ek m)"
    "room n (delete_edge_keyed lay src rt dst (Some s) (Some d) ek m)"
  using intern_edge_keeps [OF assms, of src rt dst ek]
  by (auto simp: upsert_edge_keyed_def patch_core_edge_keyed_def delete_edge_keyed_def edge_prologue_def
      endpoint_dense_or_create_def born_endpoint_dense_def edge_at_keeps split: prod.splits)

lemma replay_born_edge_keeps:
  assumes "room (n + 12) m"
  shows "same_nodes m (replay_born_edge lay f m) \<and> room n (replay_born_edge lay f m)"
proof -
  have r: "room (n + 6 + 6) m" using assms by (simp add: add.assoc)
  define m1 where "m1 = upsert_edge_keyed lay (fe_src f) (fe_reltype f) (fe_dst f) (Some (fe_src_dense f)) (Some (fe_dst_dense f))
      (fe_edge_key f) (ed_replaced (fe_delta f)) (sorted_list_of_fmap (ed_patches (fe_delta f))) m"
  have 1: "same_nodes m m1" "room (n + 6) m1" using edge_writes_keep(1,2) [OF r] by (simp_all add: m1_def)
  have 2: "same_nodes m1 (delete_folded_edge lay f m1)" "room n (delete_folded_edge lay f m1)"
    using edge_writes_keep(5,6) [OF 1(2)] by (simp_all add: delete_folded_edge_def)
  have "replay_born_edge lay f m = (if ed_tombstoned (fe_delta f) then delete_folded_edge lay f m1 else m1)"
    by (simp add: replay_born_edge_def m1_def)
  then show ?thesis using 1 2 same_nodes_trans by (auto simp: room_def)
qed

lemma replay_born_edges_keep:
  assumes "room (n + 12 * length fs) m"
  shows "same_nodes m (fold (replay_born_edge lay) fs m) \<and> room n (fold (replay_born_edge lay) fs m)"
  using assms
proof (induction fs arbitrary: m)
  case (Cons f fs)
  have "room ((n + 12 * length fs) + 12) m" using Cons.prems by (simp add: algebra_simps)
  note 1 = replay_born_edge_keeps [OF this, of lay f]
  then show ?case using Cons.IH [of "replay_born_edge lay f m"] same_nodes_trans by auto
qed (simp add: same_nodes_refl)

lemma replay_core_edges_keep:
  assumes "room (n + 6 * length fs) m" "replay_core_edges lay fs m = Some m'"
  shows "same_nodes m m' \<and> room n m'"
  using assms
proof (induction fs arbitrary: m)
  case (Cons f fs)
  have r: "room ((n + 6 * length fs) + 6) m" using Cons.prems(1) by (simp add: algebra_simps)
  obtain m1 where m1: "replay_core_edge lay f m = Some m1" "replay_core_edges lay fs m1 = Some m'"
    using Cons.prems(2) by (auto simp: Option.bind_eq_Some_conv)
  have "same_nodes m m1 \<and> room (n + 6 * length fs) m1"
    using m1(1) by (auto simp: replay_core_edge_def delete_folded_edge_def edge_writes_keep [OF r] split: if_splits option.splits)
  then show ?case using Cons.IH [OF _ m1(2)] same_nodes_trans by blast
qed (auto simp: same_nodes_refl)

section \<open>The merged level\<close>

text \<open>A sorted list of the ids of an interval lists them one by one.\<close>

lemma interval_nth:
  fixes xs :: "u64 list"
  assumes "sorted xs" "distinct xs" "set xs = {b..<t}"
  shows "length xs = unat t - unat b" "i < length xs \<Longrightarrow> xs ! i = b + of_nat i"
proof -
  have "unat ` {b..<t} = {unat b..<unat t}"
  proof (intro equalityI subsetI)
    fix n assume n: "n \<in> {unat b..<unat t}"
    have "n < 2 ^ 64" using n unat_u64_less [of t] by (simp add: less_trans)
    then have "unat (of_nat n :: u64) = n" by (simp add: unat_of_nat take_bit_nat_eq_self)
    then show "n \<in> unat ` {b..<t}" using n
      by (intro image_eqI [of _ _ "of_nat n"]) (simp_all add: word_le_nat_alt word_less_nat_alt)
  qed (auto simp: word_le_nat_alt word_less_nat_alt)
  moreover have "sorted (map unat xs)" using assms(1) by (simp add: sorted_iff_nth_mono word_le_nat_alt)
  moreover have "distinct (map unat xs)" using assms(2) unfolding distinct_map inj_on_def by (metis word_unat_eq_iff)
  ultimately have eq: "map unat xs = [unat b..<unat t]"
    using assms(3) by (intro sorted_distinct_set_unique) simp_all
  then show len: "length xs = unat t - unat b" using length_map [of unat xs] by simp
  assume i: "i < length xs"
  then have "unat (xs ! i) = unat b + i" using arg_cong [OF eq, of "\<lambda>ys. ys ! i"] len by simp
  then have "of_nat (unat (xs ! i)) = (of_nat (unat b + i) :: u64)" by simp
  then show "xs ! i = b + of_nat i" by simp
qed

lemma born_of_tiles:
  assumes st: "stack_ok probe (run @ below) base" and ne: "run \<noteq> []" and nm: "list_all names_storable run"
  defines "fs \<equiv> born_of (m_base (last run)) (fold_nodes run)"
  shows "length fs = unat base - unat (m_base (last run))"
    "i < length fs \<Longrightarrow> fn_dense (fs ! i) = m_base (last run) + of_nat i"
proof -
  let ?b = "m_base (last run)" and ?V = "fold_values (fold_nodes run)"
  have iff: "d \<in> fn_dense ` set ?V \<longleftrightarrow> (\<exists>k. in_run run k d)" for d
  proof
    assume "d \<in> fn_dense ` set ?V"
    then obtain f where "f \<in> set ?V" "d = fn_dense f" by blast
    then show "\<exists>k. in_run run k d" using fold_values_iff [OF st nm, of f] by (metis folded_fields(2))
  next
    assume "\<exists>k. in_run run k d"
    then obtain k nd where "in_run run k d" "run_patches run d = Some nd" using run_patches_iff [OF st] by blast
    then have "folded k d nd \<in> set ?V" unfolding fold_values_iff [OF st nm] by blast
    then show "d \<in> fn_dense ` set ?V" by (rule rev_image_eqI) simp
  qed
  have covered: "\<exists>k. in_run run k d" if "?b \<le> d" "d < base" for d
    using run_covers [OF ne st that] patch_identity unfolding in_run_def by (metis not_None_eq)
  have all: "d \<in> set (map fn_dense fs) \<longleftrightarrow> d \<in> {?b..<base}" for d
  proof -
    have "d \<in> set (map fn_dense fs) \<longleftrightarrow> ?b \<le> d \<and> d \<in> fn_dense ` set ?V" by (auto simp: fs_def born_of_def)
    also have "\<dots> \<longleftrightarrow> d \<in> {?b..<base}"
      unfolding iff using covered in_run_facts(3) [OF st] by (auto simp del: split_paired_Ex split_paired_All)
    finally show ?thesis .
  qed
  have "distinct (map fn_dense (filter (\<lambda>f. ?b \<le> fn_dense f) ?V))"
    using fold_values_distinct(2) [OF st nm] by (simp add: distinct_map_filter)
  then have "distinct (map fn_dense fs)" "sorted (map fn_dense fs)"
    by (simp_all add: fs_def born_of_def distinct_map)
  from interval_nth [OF this(2,1) set_eqI [OF all]]
  show "length fs = unat base - unat ?b" "i < length fs \<Longrightarrow> fn_dense (fs ! i) = ?b + of_nat i" by auto
qed

lemma distinct_sort_filter: "distinct (map g xs) \<Longrightarrow> distinct (map g (sort_key h (filter P xs)))"
  by (auto simp: distinct_map intro: inj_on_subset)

lemma born_core_split:
  "set (born_of b fn) = {f \<in> set (fold_values fn). b \<le> fn_dense f}"
  "set (core_of b fn) = {f \<in> set (fold_values fn). fn_dense f < b}"
  "length (born_of b fn) + length (core_of b fn) = fcard (fmdom fn)"
  "distinct (map folded_name (fold_values fn)) \<Longrightarrow> distinct (map folded_name (born_of b fn))"
  "distinct (map folded_name (fold_values fn)) \<Longrightarrow> distinct (map folded_name (core_of b fn))"
proof -
  show "set (born_of b fn) = {f \<in> set (fold_values fn). b \<le> fn_dense f}"
    "set (core_of b fn) = {f \<in> set (fold_values fn). fn_dense f < b}"
    unfolding born_of_def core_of_def set_sort set_filter by simp_all
  have "length (filter (\<lambda>f. b \<le> fn_dense f) (fold_values fn)) + length (filter (\<lambda>f. \<not> b \<le> fn_dense f) (fold_values fn)) = fcard (fmdom fn)"
    using sum_length_filter_compl [of "\<lambda>f. b \<le> fn_dense f" "fold_values fn"] by simp
  then show "length (born_of b fn) + length (core_of b fn) = fcard (fmdom fn)"
    by (simp add: born_of_def core_of_def not_le)
  assume "distinct (map folded_name (fold_values fn))"
  then show "distinct (map folded_name (born_of b fn))" "distinct (map folded_name (core_of b fn))"
    unfolding born_of_def core_of_def by (rule distinct_sort_filter)+
qed

lemma delta_at_empty [simp]: "delta_at (with_bases b eb) k = None" "node_at (with_bases b eb) k = None"
  by (simp_all add: delta_at_def node_at_def with_bases_def split: prod.splits Option.bind_splits)

lemma folded_entry:
  assumes st: "stack_ok probe (run @ below) base" and ne: "run \<noteq> []" and nm: "list_all names_storable run"
    and f: "f \<in> set (fold_values (fold_nodes run))"
  shows "key_ok (folded_name f)" "delta_ok (fn_delta f)"
    "level_resolver probe below (folded_name f) = (if fn_dense f < m_base (last run) then Some (fn_dense f) else None)"
    "level_resolver probe (run @ below) (folded_name f) = Some (fn_dense f)"
    "run_patches run (fn_dense f) = Some (fn_delta f)"
proof -
  obtain k d nd where f: "in_run run k d" "run_patches run d = Some nd" "f = folded k d nd"
    using f unfolding fold_values_iff [OF st nm] by blast
  note r = in_run_facts [OF st f(1)]
  show "key_ok (folded_name f)" "delta_ok (fn_delta f)"
    "level_resolver probe below (folded_name f) = (if fn_dense f < m_base (last run) then Some (fn_dense f) else None)"
    "level_resolver probe (run @ below) (folded_name f) = Some (fn_dense f)"
    "run_patches run (fn_dense f) = Some (fn_delta f)"
    using r(1,2) run_patch_ok [OF st f(2)] run_resolver [OF ne st r(1)] f(2,3) by simp_all
qed

text \<open>The nodes of the merged level, before its edges are replayed.\<close>

lemma merged_nodes:
  assumes st: "stack_ok probe (run @ below) base" and ne: "run \<noteq> []" and nm: "list_all names_storable run"
    and cap: "8 * fcard (fmdom (fold_nodes run)) \<le> 2 ^ 32"
  defines "b \<equiv> m_base (last run)" and "\<rho> \<equiv> level_resolver probe below"
  assumes m1_def: "m1 = fold (replay_born_node lay) (born_of b (fold_nodes run)) (with_bases b eb)"
    and m2_def: "m2 = fold (replay_core_node lay) (core_of b (fold_nodes run)) m1"
  shows "nodes_ok \<rho> m2" "m_base m2 = b" "unat (m_base m2) + length (m_born m2) = unat base"
    "length (inames (m_interner m2)) \<le> 8 * fcard (fmdom (fold_nodes run))"
    "f \<in> set (fold_values (fold_nodes run)) \<Longrightarrow> delta_at m2 (folded_name f) = Some (fn_delta f) \<and> dense_of \<rho> m2 (folded_name f) = Some (fn_dense f)"
    "key_ok k \<Longrightarrow> k \<notin> folded_name ` set (fold_values (fold_nodes run)) \<Longrightarrow> delta_at m2 k = None \<and> dense_of \<rho> m2 k = \<rho> k"
proof -
  let ?V = "fold_values (fold_nodes run)" and ?B = "born_of b (fold_nodes run)" and ?C = "core_of b (fold_nodes run)"
  note split = born_core_split [where b = b and fn = "fold_nodes run"]
  have inj: "inj_on folded_name (set ?V)"
    using fold_values_distinct(1) [OF st nm] unfolding distinct_map [of folded_name] by blast
  have sub: "set ?B \<subseteq> set ?V" "set ?C \<subseteq> set ?V" unfolding split(1,2) by blast+
  have entry: "key_ok (folded_name f) \<and> delta_ok (fn_delta f) \<and> \<rho> (folded_name f) = (if fn_dense f < b then Some (fn_dense f) else None)"
    if "f \<in> set ?V" for f using folded_entry [OF st ne nm that] by (simp add: \<rho>_def b_def)
  have lens: "8 * length ?B + 6 * length ?C \<le> 8 * fcard (fmdom (fold_nodes run))" using split(3) by linarith
  have ble: "unat b \<le> unat base" using run_base_le [OF ne st] by (simp add: b_def word_le_nat_alt)
  have bl: "length ?B = unat base - unat b" using born_of_tiles(1) [OF st ne nm] by (simp add: b_def)
  have 0: "nodes_ok \<rho> (with_bases b eb)"
    unfolding \<rho>_def b_def by (rule with_bases_ok [OF stack_resolver_ok [OF run_below [OF st ne]]])
  have new: "length (inames (m_interner (with_bases b eb))) = 0" "m_base (with_bases b eb) = b" "m_born (with_bases b eb) = []"
    "length (m_born (with_bases b eb)) = 0"
    by (simp_all add: with_bases_def interner_new_def)
  have 1: "fills \<rho> 8 ?B (with_bases b eb) m1 \<and> length (m_born m1) = 0 + length ?B"
    unfolding m1_def new(4) [symmetric]
  proof (rule replay_born_fills [OF 0 split(4) [OF fold_values_distinct(1) [OF st nm]]])
    show "length (inames (m_interner (with_bases b eb))) + 8 * length ?B \<le> 2 ^ 32" using new lens cap by simp
    show "unat (m_base (with_bases b eb)) + length (m_born (with_bases b eb)) + length ?B < 2 ^ 64"
      using new bl ble unat_u64_less [of base] by simp
    show "\<forall>f \<in> set ?B. key_ok (folded_name f) \<and> delta_ok (fn_delta f) \<and> \<rho> (folded_name f) = None \<and> delta_at (with_bases b eb) (folded_name f) = None"
      using entry split(1) by (metis (mono_tags, lifting) delta_at_empty(1) leD mem_Collect_eq)
    show "\<forall>i < length ?B. fn_dense (?B ! i) = m_base (with_bases b eb) + of_nat (length (m_born (with_bases b eb)) + i)"
      unfolding new(2,4) using born_of_tiles(2) [OF st ne nm, folded b_def] by simp
  qed
  have 2: "fills \<rho> 6 ?C m1 m2 \<and> length (m_born m2) = length (m_born m1)"
    unfolding m2_def
  proof (rule replay_core_fills)
    show "nodes_ok \<rho> m1" using 1 fillsD(1) by blast
    show "distinct (map folded_name ?C)" using split(5) fold_values_distinct(1) [OF st nm] .
    show "length (inames (m_interner m1)) + 6 * length ?C \<le> 2 ^ 32" using fillsD(3) [OF conjunct1 [OF 1]] new lens cap by simp
    show "unat (m_base m1) + length (m_born m1) < 2 ^ 64"
      using fillsD(2) [OF conjunct1 [OF 1]] 1 new bl ble unat_u64_less [of base] by simp
    show "\<forall>f \<in> set ?C. key_ok (folded_name f) \<and> delta_ok (fn_delta f) \<and> \<rho> (folded_name f) = Some (fn_dense f) \<and> delta_at m1 (folded_name f) = None"
    proof
      fix f assume f: "f \<in> set ?C"
      then have fb: "f \<in> set ?V" "fn_dense f < b" using split(2) by auto
      have "folded_name f \<notin> folded_name ` set ?B"
        unfolding inj_on_image_mem_iff [OF inj fb(1) sub(1)] using fb(2) unfolding split(1) by (simp add: not_le)
      then show "key_ok (folded_name f) \<and> delta_ok (fn_delta f) \<and> \<rho> (folded_name f) = Some (fn_dense f) \<and> delta_at m1 (folded_name f) = None"
        using entry [OF fb(1)] fb(2) fillsD(6) [OF conjunct1 [OF 1]] by simp
    qed
  qed
  note f1 = fillsD [OF conjunct1 [OF 1]] and f2 = fillsD [OF conjunct1 [OF 2]]
  show "nodes_ok \<rho> m2" "m_base m2 = b" "unat (m_base m2) + length (m_born m2) = unat base"
    "length (inames (m_interner m2)) \<le> 8 * fcard (fmdom (fold_nodes run))"
    using f1(2,3) f2(1-3) 1 2 new bl ble lens by simp_all
  show "delta_at m2 (folded_name f) = Some (fn_delta f) \<and> dense_of \<rho> m2 (folded_name f) = Some (fn_dense f)" if f: "f \<in> set ?V"
  proof (cases "fn_dense f < b")
    case True
    then show ?thesis using f2(4,5) split(2) f by blast
  next
    case False
    then have B: "f \<in> set ?B" using f split(1) by auto
    have "folded_name f \<notin> folded_name ` set ?C"
      unfolding inj_on_image_mem_iff [OF inj f sub(2)] using False unfolding split(2) by simp
    then show ?thesis using f2(6,7) f1(4,5) [OF B] entry [OF f] by simp
  qed
  show "delta_at m2 k = None \<and> dense_of \<rho> m2 k = \<rho> k" if k: "key_ok k" "k \<notin> folded_name ` set ?V"
  proof -
    have "k \<notin> folded_name ` set ?B" "k \<notin> folded_name ` set ?C" using k(2) split(1,2) by auto
    then show ?thesis using f1(6,7) [OF k(1)] f2(6,7) [OF k(1)] by (simp add: dense_of_def split: option.splits)
  qed
qed

lemma run_resolver_in_run:
  assumes "stack_ok probe (run @ below) base" "level_resolver probe (run @ below) k = Some d" "level_resolver probe below k = None"
  shows "in_run run k d"
  using assms
proof (induction run arbitrary: base)
  case (Cons m run)
  have ok: "nodes_ok (level_resolver probe (run @ below)) m" using Cons.prems(1) by simp
  show ?case
  proof (cases "level_resolver probe (run @ below) k")
    case None
    then have b: "key_ok k" "Option.bind (node_at m k) ne_synthetic = Some d"
      using Cons.prems(2) by (simp_all add: level_resolver_Cons [OF ok] split: if_splits)
    then obtain e where e: "node_at m k = Some e" by (auto simp: Option.bind_eq_Some_conv)
    have "dense_of (level_resolver probe (run @ below)) m k = Some d" using None b(2) by (simp add: dense_of_def)
    from identity_by_dense [OF dense_of_stored [OF ok b(1) e this]] node_at_Some(2) [OF ok b(1) e]
    have "node_identity_by_dense m d = Some k" by simp
    then show ?thesis unfolding in_run_def by (meson list.set_intros(1))
  next
    case (Some d')
    then have "level_resolver probe (run @ below) k = Some d" using Cons.prems(2) by (simp add: level_resolver_Cons [OF ok])
    then have "in_run run k d" using Cons.IH [of "m_base m"] Cons.prems(1,3) by simp
    then show ?thesis unfolding in_run_def by (meson list.set_intros(2))
  qed
qed simp

lemma fold_levels_head: "fold_levels None (p # ps) = fold_levels p ps"
  by (cases p) simp_all

lemma fold_levels_append: "fold_levels acc (xs @ ys) = fold_levels (fold_levels acc xs) ys"
  by (induction acc xs rule: fold_levels.induct) simp_all

lemma unfolded_resolver:
  assumes st: "stack_ok probe (run @ below) base" and nm: "list_all names_storable run"
    and k: "k \<notin> folded_name ` set (fold_values (fold_nodes run))"
  shows "level_resolver probe (run @ below) k = level_resolver probe below k"
proof (cases "level_resolver probe below k")
  case (Some d)
  then show ?thesis using run_resolver_mono [OF st] by simp
next
  case none: None
  show ?thesis
  proof (cases "level_resolver probe (run @ below) k")
    case (Some d)
    then have i: "in_run run k d" using run_resolver_in_run [OF st _ none] by blast
    then obtain nd where "run_patches run d = Some nd" using run_patches_iff [OF st] by blast
    then have "folded k d nd \<in> set (fold_values (fold_nodes run))" unfolding fold_values_iff [OF st nm] using i by blast
    then have "k \<in> folded_name ` set (fold_values (fold_nodes run))" by (rule rev_image_eqI) simp
    then show ?thesis using k by blast
  qed (simp add: none)
qed

lemma merge_levels_nodes:
  assumes st: "stack_ok probe (run @ below) base" and ne: "run \<noteq> []" and nm: "list_all names_storable run"
    and cap: "8 * fcard (fmdom (fold_nodes run)) + 12 * fcard (fmdom (fold_edges run)) \<le> 2 ^ 32"
    and m: "merge_levels lay run = Some m"
  defines "\<rho> \<equiv> level_resolver probe below"
  shows "nodes_ok \<rho> m" "unat (m_base m) + length (m_born m) = unat base" "m_base m = m_base (last run)"
    "f \<in> set (fold_values (fold_nodes run)) \<Longrightarrow> node_patch m (fn_dense f) = Some (fn_delta f) \<and> dense_of \<rho> m (folded_name f) = Some (fn_dense f)"
    "key_ok k \<Longrightarrow> k \<notin> folded_name ` set (fold_values (fold_nodes run)) \<Longrightarrow> delta_at m k = None \<and> dense_of \<rho> m k = \<rho> k"
proof -
  let ?b = "m_base (last run)" and ?E = "fold_values (fold_edges run)"
  define m1 where "m1 = fold (replay_born_node lay) (born_of ?b (fold_nodes run)) (with_bases ?b (m_edge_base (last run)))"
  define m2 where "m2 = fold (replay_core_node lay) (core_of ?b (fold_nodes run)) m1"
  define bs where "bs = sort_key (\<lambda>f. the (fe_born f)) (filter (\<lambda>f. fe_born f \<noteq> None) ?E)"
  define cs where "cs = sort_key (\<lambda>f. (fe_src_dense f, fe_dst_dense f, fe_reltype f)) (filter (\<lambda>f. fe_born f = None) ?E)"
  have eq: "replay_core_edges lay cs (fold (replay_born_edge lay) bs m2) = Some m"
    using m ne by (simp add: merge_levels_def Let_def m1_def m2_def bs_def cs_def)
  have "8 * fcard (fmdom (fold_nodes run)) \<le> 2 ^ 32" using cap by linarith
  note n = merged_nodes [OF st ne nm this m1_def m2_def, folded \<rho>_def]
  have len: "length bs + length cs = fcard (fmdom (fold_edges run))"
    using sum_length_filter_compl [of "\<lambda>f. fe_born f \<noteq> None" ?E] by (simp add: bs_def cs_def)
  have "room ((6 * length cs) + 12 * length bs) m2"
    unfolding room_def using nodes_okD(1) [OF n(1)] n(4) cap len by linarith
  from replay_born_edges_keep [OF this] replay_core_edges_keep [where n = 0, OF _ eq] same_nodes_trans
  have same: "same_nodes m2 m" by auto
  show ok: "nodes_ok \<rho> m" using same_nodes_ok [OF same n(1)] .
  show "unat (m_base m) + length (m_born m) = unat base" "m_base m = ?b" using same n(2,3) by (auto simp: same_nodes_def)
  have at: "node_at m k = node_at m2 k" if "key_ok k" for k
  proof -
    have "node_at m k = node_at (m2\<lparr>m_interner := m_interner m\<rparr>) k" using same by (simp add: same_nodes_def node_at_def)
    then show ?thesis using node_at_grow [OF n(1) _ that] same by (simp add: same_nodes_def)
  qed
  show "node_patch m (fn_dense f) = Some (fn_delta f) \<and> dense_of \<rho> m (folded_name f) = Some (fn_dense f)"
    if f: "f \<in> set (fold_values (fold_nodes run))"
  proof -
    have k: "key_ok (folded_name f)" using folded_entry(1) [OF st ne nm f] .
    have "dense_of \<rho> m (folded_name f) = dense_of \<rho> m2 (folded_name f)" unfolding dense_of_def at [OF k] ..
    moreover have "node_patch m2 (fn_dense f) = delta_at m2 (folded_name f)" using n(5) [OF f] node_patch_by_key [OF n(1)] k by blast
    ultimately show ?thesis using n(5) [OF f] same_nodes_patch [OF same] by simp
  qed
  show "delta_at m k = None \<and> dense_of \<rho> m k = \<rho> k" if k: "key_ok k" "k \<notin> folded_name ` set (fold_values (fold_nodes run))"
    using n(6) [OF k] unfolding delta_at_def dense_of_def at [OF k(1)] .
qed

text \<open>C9: Merging a run of levels keeps what they say about nodes: the merged level stands in the run's place
  in the stack, answers for every id with the fold of the run's deltas, and every business key resolves
  to the id it had. If nothing lies below the run, every read through levels above it is unchanged.\<close>

theorem merge_levels_keeps_node_reads:
  assumes st: "stack_ok probe (run @ below) base" and ne: "run \<noteq> []" and nm: "list_all names_storable run"
    and cap: "8 * fcard (fmdom (fold_nodes run)) + 12 * fcard (fmdom (fold_edges run)) \<le> 2 ^ 32"
    and m: "merge_levels lay run = Some m"
  shows "stack_ok probe (m # below) base \<and>
    (\<forall>d. node_patch m d = fold_levels None (map (\<lambda>l. node_patch l d) (rev run))) \<and>
    (\<forall>k. level_resolver probe (m # below) k = level_resolver probe (run @ below) k) \<and>
    (\<forall>upper d. fold_levels None (map (\<lambda>l. node_patch l d) (rev (upper @ [m]))) =
       fold_levels None (map (\<lambda>l. node_patch l d) (rev (upper @ run))))"
proof (intro conjI allI)
  let ?V = "fold_values (fold_nodes run)" and ?\<rho> = "level_resolver probe below"
  note n = merge_levels_nodes [OF assms]
  have base: "of_nat (unat (m_base m) + length (m_born m)) = base" unfolding n(2) by simp
  then show "stack_ok probe (m # below) base"
    using run_below [OF st ne] n(1-3) unat_u64_less [of base] by (simp add: fits_def)
  have patch: "node_patch m d = run_patches run d" for d
  proof (cases "run_patches run d")
    case (Some nd)
    then obtain k where "in_run run k d" using run_patches_iff [OF st] by blast
    then have "folded k d nd \<in> set ?V" using Some unfolding fold_values_iff [OF st nm] by blast
    then show ?thesis using n(4) Some by fastforce
  next
    case None
    show ?thesis
    proof (rule ccontr)
      assume "node_patch m d \<noteq> run_patches run d"
      then obtain k nd where k: "key_ok k" "dense_of ?\<rho> m k = Some d" "delta_at m k = Some nd"
        using node_patch_by_key [OF n(1)] None by (metis not_None_eq)
      then obtain f where "f \<in> set ?V" "k = folded_name f" using n(5) by fastforce
      then show False using n(4) k(2) folded_entry(5) [OF st ne nm] None by fastforce
    qed
  qed
  then show "node_patch m d = fold_levels None (map (\<lambda>l. node_patch l d) (rev run))" for d by (simp add: run_patches_def)
  show "level_resolver probe (m # below) k = level_resolver probe (run @ below) k" for k
  proof (cases "k \<in> folded_name ` set ?V")
    case True
    then obtain f where f: "f \<in> set ?V" "k = folded_name f" by blast
    then show ?thesis using n(4) [OF f(1)] folded_entry(1,4) [OF st ne nm f(1)]
      by (simp add: level_resolver_Cons [OF n(1)] dense_of_def)
  next
    case False
    then show ?thesis using n(5) [OF _ False] unfolded_resolver [OF st nm False]
      by (auto simp: level_resolver_Cons [OF n(1)] dense_of_def split: option.splits)
  qed
  show "fold_levels None (map (\<lambda>l. node_patch l d) (rev (upper @ [m]))) =
      fold_levels None (map (\<lambda>l. node_patch l d) (rev (upper @ run)))" for upper d
    using patch [of d] by (simp add: fold_levels_append fold_levels_head run_patches_def)
qed

theorem merge_levels_keeps_node_reads_witness:
  "\<exists>m. merge_levels ex_layout [ex_upper, ex_mem] = Some m \<and> stack_ok ex_probe [m] 6 \<and>
     node_patch m 5 = fold_levels None [node_patch ex_mem 5, node_patch ex_upper 5] \<and>
     level_resolver ex_probe [m] (ex_person 2) = Some 5"
proof -
  have "inames (m_interner ex_upper) = [ascii ''Person'', ascii ''id'']" "inames (m_interner ex_mem) = [ascii ''Person'', ascii ''id'']"
    by code_simp+
  then have n: "list_all names_storable [ex_upper, ex_mem]" by (simp add: names_storable_def str_ok_def ascii_def)
  have c: "length (sorted_list_of_fmap (fold_nodes [ex_upper, ex_mem])) = 1" "fold_edges [ex_upper, ex_mem] = fmempty"
    "merge_levels ex_layout [ex_upper, ex_mem] \<noteq> None" by code_simp+
  have s: "stack_ok ex_probe ([ex_upper, ex_mem] @ []) 6" using ex_stack unfolding append.simps .
  have r: "level_resolver ex_probe ([ex_upper, ex_mem] @ []) (ex_person 2) = Some 5"
    using level_resolver_Cons [of ex_probe "[ex_mem]" ex_upper] ex_stack ex_stack_resolver by simp
  obtain m where m: "merge_levels ex_layout [ex_upper, ex_mem] = Some m" using c(3) by blast
  have cap: "8 * fcard (fmdom (fold_nodes [ex_upper, ex_mem])) + 12 * fcard (fmdom (fold_edges [ex_upper, ex_mem])) \<le> 2 ^ 32"
    using c(1,2) by (simp add: fcard.rep_eq)
  note t = merge_levels_keeps_node_reads [OF s list.distinct(2) n cap m]
  have "level_resolver ex_probe [m] (ex_person 2) = level_resolver ex_probe ([ex_upper, ex_mem] @ []) (ex_person 2)"
    using t by blast
  then have "level_resolver ex_probe [m] (ex_person 2) = Some 5" using r by (rule trans)
  moreover have "stack_ok ex_probe [m] 6" using t by blast
  moreover have "node_patch m 5 = fold_levels None [node_patch ex_mem 5, node_patch ex_upper 5]" using t by simp
  ultimately show ?thesis using m by blast
qed

text \<open>A level in which a relationship that does not exist was deleted and then merged cannot be merged: its
  live entry has neither a born nor a core id, and the replay panics. The compaction of such a level
  fails every time it is tried.\<close>

lemma merge_levels_panics:
  "let a = ex_person 1; b = ex_person 3;
       m1 = delete_edge ex_layout a (ascii ''KNOWS'') b (Some 3) (Some 4) (with_bases 5 7);
       m2 = upsert_edge ex_layout a (ascii ''KNOWS'') b (Some 3) (Some 4) [] m1
   in merge_levels ex_layout [m1] \<noteq> None \<and> merge_levels ex_layout [m2] = None"
  by code_simp

end
