(* ===== verification/Seal.thy ===== *)
theory Seal
  imports Slater_Prelude
begin

text \<open>
  At-rest sealing of the delta's artifacts: the associated data and the one-shot blob framing of
  \<^verbatim>\<open>graph-format/src/crypto.rs\<close>, and the framed blobs of
  \<^verbatim>\<open>slater-delta/src/seal.rs\<close>. The AEAD (XChaCha20-Poly1305), the BLAKE3 key derivation, the
  checksum and the random nonces are third-party code and stand as parameters.
\<close>

section \<open>Ciphers\<close>

text \<open>A cipher bound to one file: its key is fixed, so it is a pair of functions of the nonce, the
  associated data and the text.\<close>

record file_cipher =
  aead_encrypt :: "byte list \<Rightarrow> byte list \<Rightarrow> byte list \<Rightarrow> byte list option"
  aead_decrypt :: "byte list \<Rightarrow> byte list \<Rightarrow> byte list \<Rightarrow> byte list option"

text \<open>The delta key of a graph derives one cipher per artifact name.\<close>

type_synonym delta_cipher = "str \<Rightarrow> file_cipher"

definition NONCE_LEN :: nat where "NONCE_LEN = 24"

record block_aad =
  ba_ordinal :: u64
  ba_first_record :: u64
  ba_raw_len :: u32
  ba_rec_count :: u32

definition aad_block :: "u64 \<Rightarrow> u64 \<Rightarrow> u32 \<Rightarrow> u32 \<Rightarrow> block_aad" where
  "aad_block ordinal first_record raw_len rec_count =
     \<lparr>ba_ordinal = ordinal, ba_first_record = first_record, ba_raw_len = raw_len,
      ba_rec_count = rec_count\<rparr>"

definition position_only :: "u64 \<Rightarrow> block_aad" where
  "position_only ordinal =
     \<lparr>ba_ordinal = ordinal, ba_first_record = 0, ba_raw_len = 0, ba_rec_count = 0\<rparr>"

definition aad_bytes :: "block_aad \<Rightarrow> byte list" where
  "aad_bytes a = le_bytes 8 (ba_ordinal a) @ le_bytes 8 (ba_first_record a) @
     le_bytes 4 (ba_raw_len a) @ le_bytes 4 (ba_rec_count a)"

definition cipher_seal :: "file_cipher \<Rightarrow> block_aad \<Rightarrow> byte list \<Rightarrow> byte list \<Rightarrow> error + byte list" where
  "cipher_seal c aad nonce plaintext =
     (case aead_encrypt c nonce (aad_bytes aad) plaintext of
        None \<Rightarrow> Inl AeadEncryptFailed | Some ct \<Rightarrow> Inr ct)"

definition cipher_open :: "file_cipher \<Rightarrow> block_aad \<Rightarrow> byte list \<Rightarrow> byte list \<Rightarrow> error + byte list" where
  "cipher_open c aad nonce ciphertext =
     (case aead_decrypt c nonce (aad_bytes aad) ciphertext of
        None \<Rightarrow> Inl AeadRejected | Some p \<Rightarrow> Inr p)"

definition seal_blob :: "file_cipher \<Rightarrow> byte list \<Rightarrow> u64 \<Rightarrow> byte list \<Rightarrow> error + byte list" where
  "seal_blob c nonce ordinal payload =
     (case cipher_seal c (position_only ordinal) nonce payload of
        Inl e \<Rightarrow> Inl e | Inr ct \<Rightarrow> Inr (nonce @ ct))"

definition open_blob :: "file_cipher \<Rightarrow> u64 \<Rightarrow> byte list \<Rightarrow> error + byte list" where
  "open_blob c ordinal stored =
     (if length stored < NONCE_LEN then Inl SealedTooShort
      else cipher_open c (position_only ordinal) (take NONCE_LEN stored) (drop NONCE_LEN stored))"

text \<open>What the code relies on of the AEAD: below its message limit it encrypts, appends a tag of
  16 bytes, and decrypts what it encrypted under the same nonce and associated data.\<close>

definition AEAD_MAX :: nat where "AEAD_MAX = 2 ^ 38 - 64"

definition aead_ok :: "file_cipher \<Rightarrow> bool" where
  "aead_ok c \<longleftrightarrow> (\<forall>n a p. length n = NONCE_LEN \<and> length p \<le> AEAD_MAX \<longrightarrow>
     (\<exists>ct. aead_encrypt c n a p = Some ct \<and> length ct = length p + 16 \<and>
           aead_decrypt c n a ct = Some p))"

lemma seal_blob_ok:
  assumes "aead_ok c" "length nonce = NONCE_LEN" "length p \<le> AEAD_MAX"
  obtains stored where "seal_blob c nonce ordinal p = Inr stored"
    and "length stored = length p + 40" and "open_blob c ordinal stored = Inr p"
proof -
  obtain ct where ct: "aead_encrypt c nonce (aad_bytes (position_only ordinal)) p = Some ct"
    "length ct = length p + 16" "aead_decrypt c nonce (aad_bytes (position_only ordinal)) ct = Some p"
    using assms unfolding aead_ok_def by blast
  show thesis
    by (rule that [of "nonce @ ct"])
      (use ct assms(2) in \<open>simp_all add: seal_blob_def open_blob_def cipher_seal_def cipher_open_def NONCE_LEN_def\<close>)
qed

lemma le_bytes_inj:
  "LENGTH('a) = 8 * n \<Longrightarrow> le_bytes n (v :: 'a::len word) = le_bytes n w \<Longrightarrow> v = w"
  by (metis from_le_le_bytes)

lemma aad_bytes_inj: "aad_bytes a = aad_bytes b \<Longrightarrow> a = b"
proof -
  assume "aad_bytes a = aad_bytes b"
  then have "le_bytes 8 (ba_ordinal a) = le_bytes 8 (ba_ordinal b)"
    "le_bytes 8 (ba_first_record a) = le_bytes 8 (ba_first_record b)"
    "le_bytes 4 (ba_raw_len a) = le_bytes 4 (ba_raw_len b)"
    "le_bytes 4 (ba_rec_count a) = le_bytes 4 (ba_rec_count b)"
    by (simp_all add: aad_bytes_def)
  then show "a = b" by (intro block_aad.equality) (auto intro: le_bytes_inj)
qed

text \<open>A cipher that satisfies the hypothesis, for concrete instances.\<close>

definition null_cipher :: file_cipher where
  "null_cipher = \<lparr>aead_encrypt = (\<lambda>n a p. Some (p @ replicate 16 0)),
     aead_decrypt = (\<lambda>n a ct. if length ct < 16 then None else Some (take (length ct - 16) ct))\<rparr>"

lemma null_cipher_ok: "aead_ok null_cipher"
  by (simp add: aead_ok_def null_cipher_def)

section \<open>Named artifacts\<close>

definition wal_name :: "str \<Rightarrow> str" where
  "wal_name file_name = ascii ''wal/'' @ file_name"

definition l0_name :: "str \<Rightarrow> str option \<Rightarrow> str" where
  "l0_name name sub = (case sub of None \<Rightarrow> ascii ''l0/'' @ name
     | Some sub \<Rightarrow> ascii ''l0/'' @ name @ ascii ''/'' @ sub)"

definition bind_cipher :: "delta_cipher option \<Rightarrow> str \<Rightarrow> file_cipher option" where
  "bind_cipher c name = map_option (\<lambda>c. c name) c"

definition seal_frame :: "file_cipher \<Rightarrow> byte list \<Rightarrow> u64 \<Rightarrow> byte list \<Rightarrow> error + byte list" where
  "seal_frame c nonce ordinal payload = seal_blob c nonce ordinal payload"

definition open_frame :: "file_cipher \<Rightarrow> u64 \<Rightarrow> byte list \<Rightarrow> error + byte list" where
  "open_frame c ordinal stored = open_blob c ordinal stored"

section \<open>Framed blobs\<close>

definition frame_blob ::
    "(byte list \<Rightarrow> u32) \<Rightarrow> byte list \<Rightarrow> byte list \<Rightarrow> file_cipher option \<Rightarrow> byte list \<Rightarrow> byte list
       \<Rightarrow> error + byte list" where
  "frame_blob crc plain sealed cipher nonce body =
     (case (case cipher of None \<Rightarrow> Inr (plain, body)
            | Some c \<Rightarrow> (case seal_frame c nonce 0 body of Inl e \<Rightarrow> Inl e
                         | Inr stored \<Rightarrow> Inr (sealed, stored))) of
        Inl e \<Rightarrow> Inl e
      | Inr (magic, stored) \<Rightarrow> Inr (magic @ le_bytes 4 (crc stored) @ stored))"

definition unframe_blob ::
    "(byte list \<Rightarrow> u32) \<Rightarrow> byte list \<Rightarrow> byte list \<Rightarrow> file_cipher option \<Rightarrow> byte list
       \<Rightarrow> error + byte list" where
  "unframe_blob crc plain sealed cipher bytes =
     (if length bytes < 12 then Inl (BlobTooShort (length bytes))
      else let magic = take 8 bytes; c = from_le (take 4 (drop 8 bytes)); stored = drop 12 bytes
        in if magic \<noteq> plain \<and> magic \<noteq> sealed then Inl BlobBadMagic
           else let is_sealed = (magic \<noteq> plain)
             in if is_sealed \<and> cipher = None then Inl KeyRequired
                else if \<not> is_sealed \<and> cipher \<noteq> None then Inl Unsealed
                else if crc stored \<noteq> c then Inl BlobChecksum
                else (case cipher of None \<Rightarrow> Inr stored | Some k \<Rightarrow> open_frame k 0 stored))"

lemma frame_blob_ok:
  assumes "length plain = 8" "length sealed = 8" "plain \<noteq> sealed"
    and "length nonce = NONCE_LEN" "length body \<le> AEAD_MAX"
    and "case cipher of None \<Rightarrow> True | Some c \<Rightarrow> aead_ok c"
  shows "\<exists>img. frame_blob crc plain sealed cipher nonce body = Inr img \<and>
    unframe_blob crc plain sealed cipher img = Inr body \<and>
    (\<forall>other. (other = None) \<noteq> (cipher = None) \<longrightarrow>
       unframe_blob crc plain sealed other img = Inl (if cipher = None then Unsealed else KeyRequired))"
proof (cases cipher)
  case None
  then show ?thesis
    using assms(1) by (auto simp: frame_blob_def unframe_blob_def codec_simps)
next
  case (Some c)
  obtain stored where "seal_blob c nonce 0 body = Inr stored" "open_blob c 0 stored = Inr body"
    using seal_blob_ok [OF _ assms(4,5)] assms(6) Some by (metis option.simps(5))
  then show ?thesis
    using assms Some
    by (simp add: frame_blob_def unframe_blob_def seal_frame_def open_frame_def codec_simps)
qed

text \<open>C39: A blob framed under a key policy (no key, or an AEAD that decrypts what it encrypted)
  unframes to the same body under the same policy, and under the opposite policy it is refused as
  unsealed or as needing a key, never as corruption and never read.\<close>

theorem unframe_frame_blob:
  assumes "length plain = 8" "length sealed = 8" "plain \<noteq> sealed"
    and "length nonce = NONCE_LEN" "length body \<le> AEAD_MAX"
    and "case cipher of None \<Rightarrow> True | Some c \<Rightarrow> aead_ok c"
  shows "\<exists>img. frame_blob crc plain sealed cipher nonce body = Inr img \<and>
    unframe_blob crc plain sealed cipher img = Inr body \<and>
    (\<forall>other. (other = None) \<noteq> (cipher = None) \<longrightarrow>
       unframe_blob crc plain sealed other img = Inl (if cipher = None then Unsealed else KeyRequired))"
  by (rule frame_blob_ok [OF assms])

theorem unframe_frame_blob_witness:
  "\<exists>img. frame_blob (\<lambda>_. 7) (ascii ''SLL0SEG1'') (ascii ''SLL0SEGE'') (Some null_cipher) (replicate 24 1) [5, 6] = Inr img \<and>
    unframe_blob (\<lambda>_. 7) (ascii ''SLL0SEG1'') (ascii ''SLL0SEGE'') (Some null_cipher) img = Inr [5, 6] \<and>
    unframe_blob (\<lambda>_. 7) (ascii ''SLL0SEG1'') (ascii ''SLL0SEGE'') None img = Inl KeyRequired"
  using unframe_frame_blob [of "ascii ''SLL0SEG1''" "ascii ''SLL0SEGE''" "replicate 24 1" "[5, 6]"
      "Some null_cipher" "\<lambda>_. 7"]
  by (auto simp: ascii_def NONCE_LEN_def AEAD_MAX_def null_cipher_ok)

end
