(* ===== verification/Wal_Log.thy ===== *)
theory Wal_Log
  imports Wal_Record Seal
begin

text \<open>
  Replay of the write-ahead log (\<^verbatim>\<open>slater-delta/src/wal.rs\<close>): frames, one segment image, a directory
  of segments. The abstract side is a stream of items (records and commit markers) and the fold that
  keeps what a marker committed; replay of a written stream, torn anywhere in its last frames, is
  that fold.
\<close>

section \<open>Frames\<close>

definition WAL_MAGIC :: "byte list" where "WAL_MAGIC = ascii ''SLWAL001''"
definition WAL_MAGIC_SEALED :: "byte list" where "WAL_MAGIC_SEALED = ascii ''SLWALE01''"

definition write_frame :: "(byte list \<Rightarrow> u32) \<Rightarrow> byte list \<Rightarrow> byte list" where
  "write_frame crc payload =
     le_bytes 4 (of_nat (length payload) :: u32) @ le_bytes 4 (crc payload) @ payload"

definition frame_len :: "nat \<Rightarrow> nat" where
  "frame_len payload_len = 8 + payload_len"

definition next_frame :: "(byte list \<Rightarrow> u32) \<Rightarrow> byte list \<Rightarrow> (byte list \<times> byte list) option" where
  "next_frame crc r =
     (if length r < 8 then None
      else let len = unat (from_le (take 4 r) :: u32); c = from_le (take 4 (drop 4 r));
               stored = take len (drop 8 r)
        in if len = 0 then None
           else if length r < 8 + len then None
           else if crc stored \<noteq> c then None
           else Some (stored, drop (8 + len) r))"

section \<open>Segment replay\<close>

record replay =
  records :: "wal_record list"
  last_seq :: u64

definition replay_default :: replay where
  "replay_default = \<lparr>records = [], last_seq = 0\<rparr>"

definition commit_pending :: "u64 \<Rightarrow> wal_record list \<Rightarrow> replay \<Rightarrow> replay" where
  "commit_pending committed_seq pending out =
     out\<lparr>records := records out @ pending,
         last_seq := (if committed_seq > last_seq out then committed_seq else last_seq out)\<rparr>"

definition replay_payload ::
    "byte list \<Rightarrow> wal_record list \<times> replay \<Rightarrow> error + wal_record list \<times> replay" where
  "replay_payload payload st = (case st of (pending, out) \<Rightarrow>
     (case read_u8 payload of Inl e \<Rightarrow> Inl e
      | Inr (kind, r) \<Rightarrow>
        if kind = KIND_RECORD then
          (case decode_record_body r of Inl e \<Rightarrow> Inl e | Inr (rec, _) \<Rightarrow> Inr (pending @ [rec], out))
        else if kind = KIND_COMMIT then
          (case read_uvarint r of Inl e \<Rightarrow> Inl e
           | Inr (committed_seq, _) \<Rightarrow> Inr ([], commit_pending committed_seq pending out))
        else Inl (UnknownFrameKind kind)))"

definition open_stored :: "file_cipher option \<Rightarrow> u64 \<Rightarrow> byte list \<Rightarrow> error + byte list" where
  "open_stored cipher ordinal stored =
     (case cipher of None \<Rightarrow> Inr stored | Some c \<Rightarrow> open_frame c ordinal stored)"

lemma next_frame_shorter: "next_frame crc r = Some (stored, r') \<Longrightarrow> length r' < length r"
  by (auto simp: next_frame_def Let_def split: if_splits)

function replay_frames ::
    "(byte list \<Rightarrow> u32) \<Rightarrow> file_cipher option \<Rightarrow> u64 \<Rightarrow> wal_record list \<times> replay \<Rightarrow> byte list
       \<Rightarrow> error + replay" where
  "replay_frames crc cipher ordinal st r =
     (case next_frame crc r of None \<Rightarrow> Inr (snd st)
      | Some (stored, r') \<Rightarrow>
        (case open_stored cipher ordinal stored of Inl e \<Rightarrow> Inl e
         | Inr payload \<Rightarrow>
           (case replay_payload payload st of Inl e \<Rightarrow> Inl e
            | Inr st' \<Rightarrow> replay_frames crc cipher (ordinal + 1) st' r')))"
  by pat_completeness auto
termination
  by (relation "measure (\<lambda>(_, _, _, _, r). length r)") (auto dest: next_frame_shorter)

declare replay_frames.simps [simp del]

definition replay_bytes ::
    "(byte list \<Rightarrow> u32) \<Rightarrow> file_cipher option \<Rightarrow> byte list \<Rightarrow> replay \<Rightarrow> error + replay" where
  "replay_bytes crc cipher bytes out =
     (if bytes = [] then Inr out
      else if length bytes < length WAL_MAGIC then Inl BadWalMagic
      else let m = take (length WAL_MAGIC) bytes
        in if m \<noteq> WAL_MAGIC \<and> m \<noteq> WAL_MAGIC_SEALED then Inl BadWalMagic
           else let sealed = (m \<noteq> WAL_MAGIC)
             in if sealed \<and> cipher = None then Inl KeyRequired
                else if \<not> sealed \<and> cipher \<noteq> None then Inl Unsealed
                else replay_frames crc cipher 0 ([], out) (drop (length WAL_MAGIC) bytes))"

section \<open>Written streams\<close>

datatype wal_item = Rec wal_record | Commit u64

fun item_payload :: "wal_item \<Rightarrow> byte list" where
  "item_payload (Rec rec) = encode_payload rec"
| "item_payload (Commit committed_seq) = KIND_COMMIT # write_uvarint committed_seq"

fun item_ok :: "wal_item \<Rightarrow> bool" where
  "item_ok (Rec rec) \<longleftrightarrow> wal_op_ok (rop rec) \<and> length (encode_payload rec) + 40 < 2 ^ 32"
| "item_ok (Commit _) \<longleftrightarrow> True"

definition store_payload ::
    "file_cipher option \<Rightarrow> byte list \<Rightarrow> u64 \<Rightarrow> byte list \<Rightarrow> error + byte list" where
  "store_payload cipher nonce ordinal payload =
     (case cipher of None \<Rightarrow> Inr payload | Some c \<Rightarrow> seal_frame c nonce ordinal payload)"

text \<open>\<open>stream crc cipher n items bs\<close>: the bytes \<open>bs\<close> are the frames of \<open>items\<close>, the first at
  ordinal \<open>n\<close>, under some nonces.\<close>

inductive stream :: "(byte list \<Rightarrow> u32) \<Rightarrow> file_cipher option \<Rightarrow> nat \<Rightarrow> wal_item list \<Rightarrow> byte list \<Rightarrow> bool"
  for crc cipher where
  stream_Nil: "stream crc cipher n [] []"
| stream_Cons: "\<lbrakk>length nonce = NONCE_LEN;
     store_payload cipher nonce (of_nat n) (item_payload item) = Inr stored;
     stream crc cipher (Suc n) items bs\<rbrakk>
   \<Longrightarrow> stream crc cipher n (item # items) (write_frame crc stored @ bs)"

inductive_cases stream_ConsE: "stream crc cipher n (item # items) bs"
inductive_cases stream_NilE: "stream crc cipher n [] bs"

fun replay_items :: "wal_item list \<Rightarrow> wal_record list \<times> replay \<Rightarrow> wal_record list \<times> replay" where
  "replay_items [] st = st"
| "replay_items (Rec rec # items) (pending, out) = replay_items items (pending @ [rec], out)"
| "replay_items (Commit q # items) (pending, out) = replay_items items ([], commit_pending q pending out)"

definition cipher_ok :: "file_cipher option \<Rightarrow> bool" where
  "cipher_ok cipher \<longleftrightarrow> (\<forall>c. cipher = Some c \<longrightarrow> aead_ok c)"

lemma WAL_MAGIC_length [simp]: "length WAL_MAGIC = 8" "length WAL_MAGIC_SEALED = 8"
  by (simp_all add: WAL_MAGIC_def WAL_MAGIC_SEALED_def ascii_def)

lemma WAL_MAGIC_nonempty [simp]: "WAL_MAGIC \<noteq> []" "WAL_MAGIC_SEALED \<noteq> []"
  by (simp_all add: WAL_MAGIC_def WAL_MAGIC_SEALED_def ascii_def)

lemma WAL_MAGIC_distinct [simp]: "WAL_MAGIC_SEALED \<noteq> WAL_MAGIC" "WAL_MAGIC \<noteq> WAL_MAGIC_SEALED"
  by (simp_all add: WAL_MAGIC_def WAL_MAGIC_SEALED_def ascii_def)

lemma length_write_frame: "length (write_frame crc payload) = frame_len (length payload)"
  by (simp add: write_frame_def frame_len_def)

lemma next_frame_write:
  assumes "payload \<noteq> []" "length payload < 2 ^ 32"
  shows "next_frame crc (write_frame crc payload @ rest) = Some (payload, rest)"
  using assms by (simp add: next_frame_def write_frame_def codec_simps unat_of_nat_u32 Let_def)

lemma next_frame_torn:
  assumes "length payload < 2 ^ 32" "k < length (write_frame crc payload)"
  shows "next_frame crc (take k (write_frame crc payload)) = None"
proof (cases "k < 8")
  case False
  then have "take 4 (take k (write_frame crc payload)) = le_bytes 4 (of_nat (length payload) :: u32)"
    by (simp add: write_frame_def min_def)
  then show ?thesis
    using assms False by (simp add: next_frame_def codec_simps unat_of_nat_u32 Let_def length_write_frame frame_len_def)
next
  case True
  then have "length (take k (write_frame crc payload)) < 8" by simp
  then show ?thesis by (simp only: next_frame_def if_True)
qed

section \<open>Replay of a written stream\<close>

lemma uvarint_len_le: "uvarint_len v \<le> 10"
  by (auto simp: uvarint_len_def Let_def)

lemma replay_payload_item:
  "item_ok item \<Longrightarrow> replay_payload (item_payload item) st = Inr (replay_items [item] st)"
  by (cases st; cases item)
    (auto simp: replay_payload_def encode_payload_def decode_record_body_def codec_simps
      KIND_RECORD_def KIND_COMMIT_def walopc.dec_enc_nil uvarint.dec_enc_nil)

lemma item_payload_nonempty [simp]: "item_payload item \<noteq> []"
  by (cases item) (simp_all add: encode_payload_def)

lemma item_payload_length: "item_ok item \<Longrightarrow> length (item_payload item) + 40 < 2 ^ 32"
  using le_less_trans [OF uvarint_len_le, of 4294967255] by (cases item) (auto simp: length_write_uvarint)

lemma store_payload_ok:
  assumes "cipher_ok cipher" "item_ok item" "length nonce = NONCE_LEN"
    and "store_payload cipher nonce n (item_payload item) = Inr stored"
  shows "open_stored cipher n stored = Inr (item_payload item)"
    and "length stored < 2 ^ 32" and "stored \<noteq> []"
proof -
  note len = item_payload_length [OF assms(2)]
  then have max: "length (item_payload item) \<le> AEAD_MAX" by (simp add: AEAD_MAX_def)
  have "open_stored cipher n stored = Inr (item_payload item) \<and> length stored < 2 ^ 32 \<and> stored \<noteq> []"
  proof (cases cipher)
    case None
    then show ?thesis using assms(4) len by (auto simp: store_payload_def open_stored_def)
  next
    case (Some c)
    then have "aead_ok c" using assms(1) by (simp add: cipher_ok_def)
    from seal_blob_ok [OF this assms(3) max, of n] obtain st where
      "seal_blob c nonce n (item_payload item) = Inr st" "length st = length (item_payload item) + 40"
      "open_blob c n st = Inr (item_payload item)" by blast
    then show ?thesis
      using assms(4) Some len by (auto simp: store_payload_def open_stored_def seal_frame_def open_frame_def)
  qed
  then show "open_stored cipher n stored = Inr (item_payload item)"
    and "length stored < 2 ^ 32" and "stored \<noteq> []" by auto
qed

lemma replay_frames_Cons:
  assumes "cipher_ok cipher" "item_ok item" "length nonce = NONCE_LEN"
    and "store_payload cipher nonce (of_nat n) (item_payload item) = Inr stored"
  shows "replay_frames crc cipher (of_nat n) st (write_frame crc stored @ rest) =
         replay_frames crc cipher (of_nat (Suc n)) (replay_items [item] st) rest"
proof -
  note ok = store_payload_ok [OF assms]
  have "of_nat (Suc n) = (of_nat n + 1 :: u64)" by simp
  then show ?thesis
    by (subst replay_frames.simps)
      (simp only: next_frame_write [OF ok(3,2)] ok(1) replay_payload_item [OF assms(2)]
        option.case sum.case prod.case)
qed

lemma replay_items_append:
  "replay_items (xs @ ys) st = replay_items ys (replay_items xs st)"
  by (induction xs st rule: replay_items.induct) simp_all

lemma replay_items_Cons: "replay_items (x # xs) st = replay_items xs (replay_items [x] st)"
  using replay_items_append [of "[x]" xs st] by (simp only: append_Cons append_Nil)

lemma replay_frames_stream:
  assumes "stream crc cipher n items bs" "cipher_ok cipher" "list_all item_ok items"
  shows "replay_frames crc cipher (of_nat n) st (bs @ tail) =
         replay_frames crc cipher (of_nat (n + length items)) (replay_items items st) tail"
  using assms
proof (induction arbitrary: st rule: stream.induct)
  case (stream_Cons nonce n item stored items bs)
  then have ok: "item_ok item" "list_all item_ok items" by simp_all
  note replay_frames_Cons [OF stream_Cons.prems(1) ok(1) stream_Cons.hyps(1,2), of crc st "bs @ tail"]
  also note stream_Cons.IH [OF stream_Cons.prems(1) ok(2), of "replay_items [item] st"]
  also note replay_items_Cons [of item items st, symmetric]
  finally show ?case by (simp only: append_assoc list.size add_Suc_right add_Suc add_0_right)
qed simp

text \<open>Cut anywhere, a stream replays as the whole frames before the cut.\<close>

lemma replay_frames_torn:
  assumes "stream crc cipher n items bs" "cipher_ok cipher" "list_all item_ok items"
  shows "\<exists>m \<le> length items. replay_frames crc cipher (of_nat n) st (take k bs) =
           Inr (snd (replay_items (take m items) st))"
  using assms
proof (induction arbitrary: st k rule: stream.induct)
  case (stream_Nil n)
  then show ?case by (simp add: replay_frames.simps next_frame_def)
next
  case (stream_Cons nonce n item stored items bs)
  then have ok: "item_ok item" "list_all item_ok items" by simp_all
  note step = stream_Cons.prems(1) ok(1) stream_Cons.hyps(1,2)
  let ?f = "write_frame crc stored"
  show ?case
  proof (cases "k < length ?f")
    case True
    then have "next_frame crc (take k (?f @ bs)) = None"
      using next_frame_torn [OF store_payload_ok(2) [OF step]] by simp
    then have "replay_frames crc cipher (of_nat n) st (take k (?f @ bs)) = Inr (snd st)"
      by (subst replay_frames.simps) (simp only: option.case)
    then show ?thesis by (intro exI [of _ 0]) simp
  next
    case False
    then have cut: "take k (?f @ bs) = ?f @ take (k - length ?f) bs" by simp
    obtain m where m: "m \<le> length items"
      "replay_frames crc cipher (of_nat (Suc n)) (replay_items [item] st) (take (k - length ?f) bs) =
        Inr (snd (replay_items (take m items) (replay_items [item] st)))"
      using stream_Cons.IH [OF stream_Cons.prems(1) ok(2)] by blast
    have "replay_frames crc cipher (of_nat n) st (take k (?f @ bs)) =
        Inr (snd (replay_items (take (Suc m) (item # items)) st))"
      by (simp only: cut replay_frames_Cons [OF step] m(2) take_Suc_Cons
          replay_items_Cons [of item "take m items"])
    then show ?thesis using m(1) by (intro exI [of _ "Suc m"]) simp
  qed
qed

section \<open>Committed batches\<close>

type_synonym batch = "wal_record list \<times> u64"

definition batch_items :: "batch \<Rightarrow> wal_item list" where
  "batch_items b = map Rec (fst b) @ [Commit (snd b)]"

definition replay_of :: "batch list \<Rightarrow> replay" where
  "replay_of bs = \<lparr>records = concat (map fst bs), last_seq = foldl max 0 (map snd bs)\<rparr>"

lemma replay_items_Recs: "replay_items (map Rec rs) (p, out) = (p @ rs, out)"
  by (induction rs arbitrary: p) simp_all

lemma replay_items_batches:
  "replay_items (concat (map batch_items bs)) ([], out) =
     ([], \<lparr>records = records out @ concat (map fst bs), last_seq = foldl max (last_seq out) (map snd bs)\<rparr>)"
proof (induction bs arbitrary: out)
  case (Cons b bs)
  then show ?case
    by (cases b) (simp add: batch_items_def replay_items_append replay_items_Recs commit_pending_def
        max_def less_imp_le)
qed simp

definition magic_of :: "file_cipher option \<Rightarrow> byte list" where
  "magic_of cipher = (if cipher = None then WAL_MAGIC else WAL_MAGIC_SEALED)"

lemma replay_bytes_magic:
  "replay_bytes crc cipher (magic_of cipher @ r) out = replay_frames crc cipher 0 ([], out) r"
  by (simp add: replay_bytes_def magic_of_def Let_def)

lemma batches_cut:
  "\<exists>j \<le> length bs. snd (replay_items (take m (concat (map batch_items bs))) ([], out)) =
     snd (replay_items (concat (map batch_items (take j bs))) ([], out))"
proof (induction bs arbitrary: m out)
  case (Cons b bs)
  let ?n = "length (fst b)"
  show ?case
  proof (cases "m \<le> ?n")
    case True
    then have "take m (batch_items b @ rest) = map Rec (take m (fst b))" for rest
      by (simp add: batch_items_def take_map)
    then show ?thesis by (intro exI [of _ 0]) (simp add: replay_items_Recs)
  next
    case False
    then have "take m (batch_items b @ rest) = batch_items b @ take (m - Suc ?n) rest" for rest
      by (simp add: batch_items_def Suc_diff_le take_Cons')
    moreover have "replay_items (batch_items b) ([], out) = ([], commit_pending (snd b) (fst b) out)"
      by (simp add: batch_items_def replay_items_append replay_items_Recs)
    moreover obtain j where "j \<le> length bs"
      "snd (replay_items (take (m - Suc ?n) (concat (map batch_items bs))) ([], commit_pending (snd b) (fst b) out)) =
       snd (replay_items (concat (map batch_items (take j bs))) ([], commit_pending (snd b) (fst b) out))"
      using Cons.IH by blast
    ultimately show ?thesis by (intro exI [of _ "Suc j"]) (simp add: replay_items_append)
  qed
qed simp

lemma replay_of_batches:
  "snd (replay_items (concat (map batch_items bs)) ([], replay_default)) = replay_of bs"
  by (simp add: replay_items_batches replay_of_def replay_default_def)

text \<open>Without a cipher the stream of given items is unique; concrete instances use it.\<close>

definition plain_stream :: "(byte list \<Rightarrow> u32) \<Rightarrow> wal_item list \<Rightarrow> byte list" where
  "plain_stream crc items = concat (map (write_frame crc \<circ> item_payload) items)"

lemma stream_plain: "stream crc None n items (plain_stream crc items)"
proof (induction items arbitrary: n)
  case (Cons item items)
  then show ?case
    using stream_Cons [of "replicate NONCE_LEN 0" None n item "item_payload item" crc items]
    by (simp add: plain_stream_def store_payload_def)
qed (simp add: plain_stream_def stream_Nil)

definition sample_record :: wal_record where
  "sample_record = \<lparr>rseq = 1, rop = DeleteNode (ascii ''P'') (ascii ''id'') (VInt 5)\<rparr>"

definition sample_batch :: batch where
  "sample_batch = ([sample_record], 1)"

lemma sample_ok: "item_ok (Rec sample_record)" "list_all item_ok (batch_items sample_batch)"
proof -
  show "item_ok (Rec sample_record)"
    using uvarint_len_le [of 1] uvarint_len_le [of 2] uvarint_len_le [of "zigzag 5"]
    by (simp add: sample_record_def key3_ok_def str_ok_def utf8_valid_ascii_bytes ascii_def
        value_storable_def MAX_VALUE_DEPTH_def encode_payload_def write_key3_def write_str_def
        length_write_uvarint)
  then show "list_all item_ok (batch_items sample_batch)"
    by (simp add: batch_items_def sample_batch_def)
qed



text \<open>C26: Records appended after the last commit marker are never replayed: a segment holding the
  committed batches \<open>bs\<close> followed by any prefix of uncommitted record frames replays to exactly
  \<open>bs\<close>.\<close>

theorem replay_drops_uncommitted_tail:
  assumes "stream crc cipher 0 (concat (map batch_items bs)) img"
    and "stream crc cipher (length (concat (map batch_items bs))) (map Rec pending) tail"
    and "cipher_ok cipher" "list_all item_ok (concat (map batch_items bs))"
    and "list_all item_ok (map Rec pending)"
  shows "replay_bytes crc cipher (magic_of cipher @ img @ take k tail) replay_default =
           Inr (replay_of bs)"
proof -
  let ?st = "replay_items (concat (map batch_items bs)) ([], replay_default)"
  have st: "?st = ([], replay_of bs)"
    by (simp add: replay_items_batches replay_of_def replay_default_def)
  have "replay_frames crc cipher 0 ([], replay_default) (img @ take k tail) =
      replay_frames crc cipher (of_nat (length (concat (map batch_items bs)))) ?st (take k tail)"
    using replay_frames_stream [OF assms(1,3,4), of "([], replay_default)" "take k tail"]
    by (simp only: semiring_1_class.of_nat_0 add_0)
  moreover obtain m where
    "replay_frames crc cipher (of_nat (length (concat (map batch_items bs)))) ?st (take k tail) =
       Inr (snd (replay_items (take m (map Rec pending)) ?st))"
    using replay_frames_torn [OF assms(2,3,5), of ?st k] by blast
  ultimately show ?thesis
    by (simp add: replay_bytes_magic st take_map replay_items_Recs)
qed

theorem replay_drops_uncommitted_tail_witness:
  "replay_bytes (\<lambda>_. 7) None (WAL_MAGIC @ plain_stream (\<lambda>_. 7) (concat (map batch_items [sample_batch])) @
      take 9 (plain_stream (\<lambda>_. 7) (map Rec [sample_record]))) replay_default = Inr (replay_of [sample_batch])"
  using replay_drops_uncommitted_tail [of "\<lambda>_. 7" None "[sample_batch]", OF stream_plain stream_plain,
      of "[sample_record]" 9] sample_ok by (simp add: cipher_ok_def magic_of_def)

text \<open>The key policy fails closed in both directions: a sealed segment without a key and a
  plaintext segment under a key are refused, whatever follows the magic.\<close>

theorem replay_key_policy:
  "replay_bytes crc None (WAL_MAGIC_SEALED @ r) out = Inl KeyRequired \<and>
   replay_bytes crc (Some c) (WAL_MAGIC @ r) out = Inl Unsealed"
  by (simp add: replay_bytes_def)

text \<open>C38: In a sealed segment a frame whose checksum holds but which the cipher refuses to open at
  its ordinal (a wrong key, a forged frame, a frame lifted from elsewhere) is a hard error after the
  genuine frames before it, not a crash tail that is silently dropped.\<close>

theorem replay_refuses_foreign_frame:
  assumes "stream crc (Some c) 0 items img" "aead_ok c" "list_all item_ok items"
    and "stored \<noteq> []" "length stored < 2 ^ 32"
    and "open_frame c (of_nat (length items)) stored = Inl e"
  shows "replay_bytes crc (Some c) (WAL_MAGIC_SEALED @ img @ write_frame crc stored @ rest) out = Inl e"
proof -
  have "cipher_ok (Some c)" using assms(2) by (simp add: cipher_ok_def)
  from replay_frames_stream [OF assms(1) this assms(3), of "([], out)" "write_frame crc stored @ rest"]
  have "replay_frames crc (Some c) 0 ([], out) (img @ write_frame crc stored @ rest) =
      replay_frames crc (Some c) (of_nat (length items)) (replay_items items ([], out))
        (write_frame crc stored @ rest)"
    by (simp only: semiring_1_class.of_nat_0 add_0)
  also have "\<dots> = Inl e"
    by (subst replay_frames.simps)
      (simp add: next_frame_write [OF assms(4,5)] open_stored_def assms(6))
  finally show ?thesis
    using replay_bytes_magic [of crc "Some c"] by (simp add: magic_of_def)
qed

theorem replay_refuses_foreign_frame_witness:
  "replay_bytes (\<lambda>_. 7) (Some null_cipher) (WAL_MAGIC_SEALED @ [] @ write_frame (\<lambda>_. 7) (replicate 30 0) @ []) replay_default
     = Inl AeadRejected"
  by (rule replay_refuses_foreign_frame [OF stream_Nil null_cipher_ok])
    (simp_all add: open_frame_def open_blob_def NONCE_LEN_def cipher_open_def null_cipher_def)

section \<open>Segment directories\<close>

function decimal :: "nat \<Rightarrow> str" where
  "decimal n = (if n < 10 then [of_nat (48 + n)] else decimal (n div 10) @ [of_nat (48 + n mod 10)])"
  by pat_completeness auto
termination by (relation "measure (\<lambda>n. n)") auto

declare decimal.simps [simp del]

definition segment_file_name :: "u64 \<Rightarrow> str" where
  "segment_file_name segment = (let d = decimal (unat segment)
     in replicate (10 - length d) 48 @ d @ ascii ''.wal'')"

text \<open>\<^verbatim>\<open>str::parse::<u64>\<close>: an optional plus sign, then decimal digits, checked for overflow.\<close>

fun parse_digits :: "nat \<Rightarrow> str \<Rightarrow> nat option" where
  "parse_digits acc [] = Some acc"
| "parse_digits acc (b # bs) =
     (if 48 \<le> b \<and> b \<le> 57 \<and> acc * 10 + (unat b - 48) < 2 ^ 64
      then parse_digits (acc * 10 + (unat b - 48)) bs else None)"

definition parse_u64 :: "str \<Rightarrow> u64 option" where
  "parse_u64 s = (let ds = (if s \<noteq> [] \<and> hd s = 43 then tl s else s)
     in if ds = [] then None else map_option of_nat (parse_digits 0 ds))"

text \<open>\<^verbatim>\<open>Path::file_stem\<close> and \<^verbatim>\<open>Path::extension\<close>: split at the last dot, unless nothing is before it.\<close>

definition split_extension :: "str \<Rightarrow> (str \<times> str) option" where
  "split_extension name = (let after = rev (takeWhile (\<lambda>b. b \<noteq> 46) (rev name));
       before = take (length name - length after - 1) name
     in if 46 \<in> set name \<and> before \<noteq> [] then Some (before, after) else None)"

definition wal_segment_number :: "str \<Rightarrow> u64 option" where
  "wal_segment_number name = (case split_extension name of
       None \<Rightarrow> None
     | Some (stem, ext) \<Rightarrow> if ext = ascii ''wal'' \<and> utf8_valid stem then parse_u64 stem else None)"

text \<open>A directory listing: each entry's name and what reading the file gives.\<close>

type_synonym dir_entry = "str \<times> (error + byte list)"

definition wal_segments :: "dir_entry list \<Rightarrow> (u64 \<times> dir_entry) list" where
  "wal_segments entries = sort_key fst (List.map_filter
     (\<lambda>e. map_option (\<lambda>n. (n, e)) (wal_segment_number (fst e))) entries)"

fun replay_segments ::
    "(byte list \<Rightarrow> u32) \<Rightarrow> delta_cipher option \<Rightarrow> (u64 \<times> dir_entry) list \<Rightarrow> replay \<Rightarrow> error + replay" where
  "replay_segments crc cipher [] out = Inr out"
| "replay_segments crc cipher ((n, name, content) # segs) out =
     (case content of Inl e \<Rightarrow> Inl e
      | Inr bytes \<Rightarrow>
        (case replay_bytes crc (bind_cipher cipher (wal_name name)) bytes out of
           Inl e \<Rightarrow> Inl e
         | Inr out' \<Rightarrow> replay_segments crc cipher segs out'))"

definition replay_dir ::
    "(byte list \<Rightarrow> u32) \<Rightarrow> delta_cipher option \<Rightarrow> dir_entry list option \<Rightarrow> error + replay" where
  "replay_dir crc cipher dir = (case dir of None \<Rightarrow> Inr replay_default
     | Some entries \<Rightarrow> let segments = wal_segments entries
        in if segments \<noteq> [] \<and>
              of_nat (length segments) \<noteq> fst (last segments) - fst (hd segments) + 1
           then Inl (WalGap (length segments) (unat (fst (last segments) - fst (hd segments) + 1)))
           else replay_segments crc cipher segments replay_default)"

subsection \<open>Names\<close>

lemma parse_digits_append:
  "parse_digits acc (xs @ ys) = (case parse_digits acc xs of None \<Rightarrow> None | Some a \<Rightarrow> parse_digits a ys)"
  by (induction acc xs rule: parse_digits.induct) simp_all

lemma digit_byte: "d < 10 \<Longrightarrow> unat (of_nat (48 + d) :: byte) = 48 + d"
  by (simp add: unat_of_nat take_bit_nat_eq_self del: of_nat_add)

lemma parse_digits_single:
  assumes "d < 10" "acc * 10 + d < 2 ^ 64"
  shows "parse_digits acc [of_nat (48 + d)] = Some (acc * 10 + d)"
  using assms digit_byte [OF assms(1)] by (simp add: word_le_nat_alt del: of_nat_add)

lemma parse_decimal: "n < 2 ^ 64 \<Longrightarrow> parse_digits 0 (decimal n) = Some n"
proof (induction n rule: decimal.induct)
  case (1 n)
  show ?case
  proof (cases "n < 10")
    case True
    then show ?thesis using parse_digits_single [of n 0] by (simp add: decimal.simps)
  next
    case False
    then have "parse_digits 0 (decimal (n div 10)) = Some (n div 10)" using 1 by simp
    moreover have "n div 10 * 10 + n mod 10 = n" by simp
    ultimately show ?thesis
      using False 1(2) parse_digits_single [of "n mod 10" "n div 10"]
      by (simp only: decimal.simps [of n] if_False parse_digits_append option.case)
  qed
qed

lemma parse_zeros: "parse_digits 0 (replicate k 48 @ ds) = parse_digits 0 ds"
  by (induction k) (simp_all add: parse_digits_append)

lemma decimal_bytes: "b \<in> set (decimal n) \<Longrightarrow> 48 \<le> unat b \<and> unat b \<le> 57"
proof (induction n rule: decimal.induct)
  case (1 n)
  have "48 \<le> unat (of_nat (48 + d) :: byte) \<and> unat (of_nat (48 + d) :: byte) \<le> 57" if "d < 10" for d
    using digit_byte [OF that] that by simp
  then show ?case
    using 1 by (subst (asm) (2) decimal.simps) (auto split: if_splits simp del: of_nat_add)
qed

lemma decimal_nonempty [simp]: "decimal n \<noteq> []"
  by (subst decimal.simps) simp

lemma split_extension_wal:
  assumes "stem \<noteq> []"
  shows "split_extension (stem @ ascii ''.wal'') = Some (stem, ascii ''wal'')"
  using assms by (simp add: split_extension_def ascii_def)

lemma segment_number_name: "wal_segment_number (segment_file_name n) = Some n"
proof -
  define stem where "stem = replicate (10 - length (decimal (unat n))) 48 @ decimal (unat n)"
  have bytes: "48 \<le> unat b \<and> unat b \<le> 57" if "b \<in> set stem" for b
    using that decimal_bytes unfolding stem_def by auto
  then have "utf8_valid stem"
    by (intro utf8_valid_ascii_bytes) (fastforce simp: list_all_iff word_less_nat_alt)
  moreover have ne: "stem \<noteq> []" by (simp add: stem_def)
  moreover have "hd stem \<noteq> 43" using bytes [OF hd_in_set [OF ne]] by auto
  moreover have "parse_digits 0 stem = Some (unat n)"
    using parse_decimal [OF unat_u64_less [of n]] by (simp add: stem_def parse_zeros)
  moreover have "segment_file_name n = stem @ ascii ''.wal''"
    by (simp add: segment_file_name_def stem_def Let_def)
  ultimately show ?thesis
    by (simp add: wal_segment_number_def split_extension_wal parse_u64_def)
qed

text \<open>The name of a segment file determines its number: replay reads back the number the sink
  wrote into the name, for every 64-bit segment number, so distinct segments have distinct names.\<close>

theorem wal_segment_number_of_file_name:
  "wal_segment_number (segment_file_name n) = Some n \<and>
   (segment_file_name n = segment_file_name m \<longleftrightarrow> n = m)"
  using segment_number_name by (metis option.inject)

subsection \<open>Gaps\<close>

lemma of_nat_run:
  assumes "1 \<le> k" "k \<le> m" "m \<le> 2 ^ 64" "(of_nat k :: u64) = of_nat m"
  shows "k = m"
proof -
  have mod: "k mod 2 ^ 64 = m mod 2 ^ 64"
    using assms(4) by (simp add: word_of_nat_eq_iff take_bit_eq_mod)
  show ?thesis
  proof (cases "m = 2 ^ 64")
    case True
    then have "2 ^ 64 dvd k" using mod by (simp add: mod_eq_0_iff_dvd)
    then show ?thesis using assms(1,2) True dvd_imp_le [of "2 ^ 64" k] by simp
  next
    case False
    then show ?thesis using mod assms(2,3) by simp
  qed
qed

lemma sorted_bounds:
  assumes "sorted xs" "x \<in> set xs"
  shows "hd xs \<le> x" and "x \<le> last xs"
  using assms by (induction xs) auto

lemma full_run:
  fixes ns :: "u64 list"
  assumes "sorted ns" "distinct ns" "ns \<noteq> []" "of_nat (length ns) = last ns - hd ns + 1"
  shows "set ns = {hd ns..last ns}"
proof -
  let ?f = "unat (hd ns)" and ?l = "unat (last ns)"
  have inj: "inj_on unat A" for A :: "u64 set" by (rule inj_onI) (simp only: word_unat_eq_iff)
  have sub: "unat ` set ns \<subseteq> {?f..?l}"
    using sorted_bounds [OF assms(1)] by (auto simp: word_le_nat_alt)
  have card: "card (unat ` set ns) = length ns"
    using assms(2) by (simp add: card_image [OF inj] distinct_card)
  have le: "?f \<le> ?l" using sorted_bounds(1) [OF assms(1) last_in_set [OF assms(3)]]
    by (simp add: word_le_nat_alt)
  have "length ns = Suc ?l - ?f"
  proof (rule of_nat_run)
    show "1 \<le> length ns" using assms(3) by (cases ns) simp_all
    show "length ns \<le> Suc ?l - ?f" using card_mono [OF _ sub] card by simp
    show "Suc ?l - ?f \<le> 2 ^ 64" using unat_u64_less [of "last ns"] by simp
    show "(of_nat (length ns) :: u64) = of_nat (Suc ?l - ?f)"
      using le assms(4) by (simp add: Suc_diff_le of_nat_diff)
  qed
  then have img: "unat ` set ns = {?f..?l}"
    using card_subset_eq [OF _ sub] card by simp
  have "x \<in> set ns" if "hd ns \<le> x" "x \<le> last ns" for x
  proof -
    have "unat x \<in> {?f..?l}" using that by (simp add: word_le_nat_alt)
    then have "unat x \<in> unat ` set ns" unfolding img .
    then obtain y where y: "y \<in> set ns" and "unat x = unat y" by blast
    then have "x = y" by (simp only: word_unat_eq_iff)
    with y show ?thesis by (simp only:)
  qed
  then show ?thesis using sorted_bounds [OF assms(1)] by (intro set_eqI iffI) (simp_all only: atLeastAtMost_iff)
qed



end
