(* ===== verification/Wal_Sink.thy ===== *)
theory Wal_Sink
  imports Wal_Log
begin

text \<open>
  The write side of the log (\<^verbatim>\<open>WalSink\<close> of \<^verbatim>\<open>slater-delta/src/wal.rs\<close>) over a file whose every call
  may fail: the buffered writer, batch append with its rollback guard, the self-heal of an earlier
  failed rollback, and creation of a segment. A fault script decides the outcome of each system
  call, so the theorems hold for every pattern of failures.
\<close>

section \<open>The file and the buffered writer\<close>

text \<open>The outcome of one system call. A failing write has transferred some bytes first.\<close>

datatype io = IoOk | IoFail nat

text \<open>The state of a sink. \<open>fdata\<close> and \<open>fpos\<close> are the operating system's view of the file,
  \<open>synced\<close> the bytes a crash cannot take away, \<open>wbuf\<close> what the buffered writer still holds.
  \<open>faults\<close> is the script of outcomes (calls past its end succeed) and \<open>draws\<close> the nonces the
  random generator will return.\<close>

record wal_sink =
  segment :: u64
  committed_len :: nat
  cur_len :: nat
  committed_frames :: nat
  cur_frames :: nat
  cipher :: "file_cipher option"
  wbuf :: "byte list"
  fdata :: "byte list"
  fpos :: nat
  synced :: "byte list"
  faults :: "io list"
  draws :: "byte list list"

text \<open>Fallible operations keep the state they reached when they fail.\<close>

type_synonym 'a sink_op = "wal_sink \<Rightarrow> (error + 'a) \<times> wal_sink"

definition sbind ::
    "('s \<Rightarrow> (error + 'a) \<times> 's) \<Rightarrow> ('a \<Rightarrow> 's \<Rightarrow> (error + 'b) \<times> 's) \<Rightarrow> 's \<Rightarrow> (error + 'b) \<times> 's" where
  "sbind m f s = (case m s of (Inl e, s') \<Rightarrow> (Inl e, s') | (Inr x, s') \<Rightarrow> f x s')"

definition syscall :: "wal_sink \<Rightarrow> io \<times> wal_sink" where
  "syscall s = (case faults s of [] \<Rightarrow> (IoOk, s) | f # fs \<Rightarrow> (f, s\<lparr>faults := fs\<rparr>))"

definition write_at :: "nat \<Rightarrow> byte list \<Rightarrow> byte list \<Rightarrow> byte list" where
  "write_at pos new old =
     take pos old @ replicate (pos - length old) 0 @ new @ drop (pos + length new) old"

definition os_write :: "byte list \<Rightarrow> wal_sink \<Rightarrow> wal_sink" where
  "os_write bs s = s\<lparr>fdata := write_at (fpos s) bs (fdata s), fpos := fpos s + length bs\<rparr>"

text \<open>\<^verbatim>\<open>BufWriter::flush_buf\<close>: on failure the bytes already transferred leave the buffer, the rest
  stays for the next attempt.\<close>

definition flush_buf :: "unit sink_op" where
  "flush_buf s =
     (if wbuf s = [] then (Inr (), s)
      else case syscall s of
        (IoOk, s') \<Rightarrow> (Inr (), os_write (wbuf s) s'\<lparr>wbuf := []\<rparr>)
      | (IoFail k, s') \<Rightarrow>
          (Inl IoError, os_write (take k (wbuf s)) s'\<lparr>wbuf := drop k (wbuf s)\<rparr>))"

text \<open>\<^verbatim>\<open>BufWriter::write_all\<close> at buffer capacity \<open>cap\<close>: small writes go to the buffer, a write that
  does not fit flushes first, one as large as the buffer goes straight to the file.\<close>

definition direct_write :: "byte list \<Rightarrow> unit sink_op" where
  "direct_write bs s = (case syscall s of
       (IoOk, s') \<Rightarrow> (Inr (), os_write bs s')
     | (IoFail k, s') \<Rightarrow> (Inl IoError, os_write (take k bs) s'))"

definition write_all_cold :: "nat \<Rightarrow> byte list \<Rightarrow> unit sink_op" where
  "write_all_cold cap bs =
     sbind (\<lambda>s. if length bs > cap - length (wbuf s) then flush_buf s else (Inr (), s)) (\<lambda>_ s.
       if length bs \<ge> cap then direct_write bs s else (Inr (), s\<lparr>wbuf := wbuf s @ bs\<rparr>))"

definition buf_write_all :: "nat \<Rightarrow> byte list \<Rightarrow> unit sink_op" where
  "buf_write_all cap bs s =
     (if length bs < cap - length (wbuf s) then (Inr (), s\<lparr>wbuf := wbuf s @ bs\<rparr>)
      else write_all_cold cap bs s)"

definition sync_data :: "unit sink_op" where
  "sync_data s = (case syscall s of
       (IoOk, s') \<Rightarrow> (Inr (), s'\<lparr>synced := fdata s\<rparr>)
     | (IoFail _, s') \<Rightarrow> (Inl IoError, s'))"

definition set_len :: "nat \<Rightarrow> unit sink_op" where
  "set_len off s = (case syscall s of
       (IoOk, s') \<Rightarrow> (Inr (), s'\<lparr>fdata := take off (fdata s) @ replicate (off - length (fdata s)) 0\<rparr>)
     | (IoFail _, s') \<Rightarrow> (Inl IoError, s'))"

definition seek_start :: "nat \<Rightarrow> unit sink_op" where
  "seek_start off s = (case syscall s of
       (IoOk, s') \<Rightarrow> (Inr (), s'\<lparr>fpos := off\<rparr>)
     | (IoFail _, s') \<Rightarrow> (Inl IoError, s'))"

definition random_nonce :: "wal_sink \<Rightarrow> byte list \<times> wal_sink" where
  "random_nonce s = (case draws s of [] \<Rightarrow> (replicate NONCE_LEN 0, s)
     | d # ds \<Rightarrow> (take NONCE_LEN (d @ replicate NONCE_LEN 0), s\<lparr>draws := ds\<rparr>))"

section \<open>Frames and batches\<close>

definition write_frame_to :: "(byte list \<Rightarrow> u32) \<Rightarrow> nat \<Rightarrow> byte list \<Rightarrow> unit sink_op" where
  "write_frame_to crc cap payload =
     sbind (buf_write_all cap (le_bytes 4 (of_nat (length payload) :: u32))) (\<lambda>_.
     sbind (buf_write_all cap (le_bytes 4 (crc payload))) (\<lambda>_.
     buf_write_all cap payload))"

definition write_payload :: "(byte list \<Rightarrow> u32) \<Rightarrow> nat \<Rightarrow> byte list \<Rightarrow> unit sink_op" where
  "write_payload crc cap payload s =
     (let (stored, s1) = (case cipher s of None \<Rightarrow> (Inr payload, s)
            | Some c \<Rightarrow> (let (nonce, s') = random_nonce s
                         in (seal_frame c nonce (of_nat (cur_frames s)) payload, s')))
      in case stored of Inl e \<Rightarrow> (Inl e, s1)
         | Inr st \<Rightarrow> sbind (write_frame_to crc cap st) (\<lambda>_ s2.
             (Inr (), s2\<lparr>cur_len := cur_len s2 + frame_len (length st),
                         cur_frames := cur_frames s2 + 1\<rparr>)) s1)"

definition write_record_frame :: "(byte list \<Rightarrow> u32) \<Rightarrow> nat \<Rightarrow> wal_record \<Rightarrow> unit sink_op" where
  "write_record_frame crc cap rec = write_payload crc cap (encode_payload rec)"

definition write_commit_frame :: "(byte list \<Rightarrow> u32) \<Rightarrow> nat \<Rightarrow> u64 \<Rightarrow> unit sink_op" where
  "write_commit_frame crc cap committed_seq =
     sbind (write_payload crc cap (KIND_COMMIT # write_uvarint committed_seq)) (\<lambda>_.
     sbind flush_buf (\<lambda>_.
     sbind sync_data (\<lambda>_ s.
       (Inr (), s\<lparr>committed_len := cur_len s, committed_frames := cur_frames s\<rparr>))))"

definition truncate_to :: "nat \<Rightarrow> nat \<Rightarrow> unit sink_op" where
  "truncate_to off frames =
     sbind flush_buf (\<lambda>_.
     sbind (set_len off) (\<lambda>_.
     sbind (seek_start off) (\<lambda>_.
     sbind sync_data (\<lambda>_ s.
       (Inr (), s\<lparr>cur_len := off, cur_frames := frames\<rparr>)))))"

definition append :: "(byte list \<Rightarrow> u32) \<Rightarrow> nat \<Rightarrow> wal_record \<Rightarrow> unit sink_op" where
  "append crc cap rec s =
     (case write_record_frame crc cap rec s of
        (Inr _, s1) \<Rightarrow> (Inr (), s1)
      | (Inl e, s1) \<Rightarrow> sbind (truncate_to (committed_len s1) (committed_frames s1)) (\<lambda>_ s2. (Inl e, s2)) s1)"

definition commit :: "(byte list \<Rightarrow> u32) \<Rightarrow> nat \<Rightarrow> u64 \<Rightarrow> unit sink_op" where
  "commit crc cap committed_seq s =
     (case write_commit_frame crc cap committed_seq s of
        (Inr _, s1) \<Rightarrow> (Inr (), s1)
      | (Inl e, s1) \<Rightarrow> sbind (truncate_to (committed_len s1) (committed_frames s1)) (\<lambda>_ s2. (Inl e, s2)) s1)"

fun write_records :: "(byte list \<Rightarrow> u32) \<Rightarrow> nat \<Rightarrow> wal_record list \<Rightarrow> unit sink_op" where
  "write_records crc cap [] s = (Inr (), s)"
| "write_records crc cap (rec # recs) s =
     sbind (write_record_frame crc cap rec) (\<lambda>_. write_records crc cap recs) s"

text \<open>\<^verbatim>\<open>Rollback\<close>: run the body armed at the offset and ordinal of the batch start; if it fails, the
  guard's drop truncates and discards the truncation's own error.\<close>

definition with_rollback :: "unit sink_op \<Rightarrow> unit sink_op" where
  "with_rollback body s =
     (case body s of
        (Inr _, s1) \<Rightarrow> (Inr (), s1)
      | (Inl e, s1) \<Rightarrow> (Inl e, snd (truncate_to (committed_len s) (committed_frames s) s1)))"

definition append_batch :: "(byte list \<Rightarrow> u32) \<Rightarrow> nat \<Rightarrow> wal_record list \<Rightarrow> u64 \<Rightarrow> unit sink_op" where
  "append_batch crc cap recs committed_seq =
     sbind (\<lambda>s. if cur_len s \<noteq> committed_len s
                then truncate_to (committed_len s) (committed_frames s) s else (Inr (), s)) (\<lambda>_.
     with_rollback (sbind (write_records crc cap recs) (\<lambda>_. write_commit_frame crc cap committed_seq)))"

definition fsync_dir :: "unit sink_op" where
  "fsync_dir s = (case syscall s of (IoOk, s') \<Rightarrow> (Inr (), s') | (IoFail _, s') \<Rightarrow> (Inl IoError, s'))"

definition seal_segment :: "u64 sink_op" where
  "seal_segment = sbind flush_buf (\<lambda>_. sbind sync_data (\<lambda>_. sbind fsync_dir (\<lambda>_ s. (Inr (segment s), s))))"

section \<open>Creating a segment\<close>

text \<open>The directory of the log: whether it and its parent exist, and which names a power loss cannot
  take away. The script of outcomes is shared with the file.\<close>

record wal_dir =
  parent_is_dir :: bool
  dir_exists :: bool
  dir_durable :: bool
  entry_durable :: bool
  dfaults :: "io list"

definition dir_call :: "(wal_dir \<Rightarrow> wal_dir) \<Rightarrow> wal_dir \<Rightarrow> (error + unit) \<times> wal_dir" where
  "dir_call f d = (case dfaults d of [] \<Rightarrow> (Inr (), f d)
     | IoOk # fs \<Rightarrow> (Inr (), f (d\<lparr>dfaults := fs\<rparr>))
     | IoFail _ # fs \<Rightarrow> (Inl IoError, d\<lparr>dfaults := fs\<rparr>))"

definition fresh_sink :: "u64 \<Rightarrow> file_cipher option \<Rightarrow> byte list list \<Rightarrow> io list \<Rightarrow> wal_sink" where
  "fresh_sink seg c nonces fs =
     \<lparr>segment = seg, committed_len = length WAL_MAGIC, cur_len = length WAL_MAGIC,
      committed_frames = 0, cur_frames = 0, cipher = c, wbuf = [], fdata = [], fpos = 0,
      synced = [], faults = fs, draws = nonces\<rparr>"

definition create_file ::
    "nat \<Rightarrow> u64 \<Rightarrow> file_cipher option \<Rightarrow> byte list list \<Rightarrow> wal_dir \<Rightarrow> (error + wal_sink) \<times> wal_dir" where
  "create_file cap seg c nonces d =
     (case sbind (buf_write_all cap (magic_of c)) (\<lambda>_. flush_buf) (fresh_sink seg c nonces (dfaults d)) of
        (Inl e, s) \<Rightarrow> (Inl e, d\<lparr>dfaults := faults s\<rparr>)
      | (Inr _, s) \<Rightarrow> (Inr s, d\<lparr>dfaults := faults s\<rparr>))"

definition create ::
    "nat \<Rightarrow> u64 \<Rightarrow> delta_cipher option \<Rightarrow> byte list list \<Rightarrow> wal_dir \<Rightarrow> (error + wal_sink) \<times> wal_dir" where
  "create cap seg cph nonces d =
     (let dir_existed = dir_exists d; c = bind_cipher cph (wal_name (segment_file_name seg)) in
      sbind (\<lambda>d. if dir_existed then (Inr (), d) else dir_call (dir_exists_update (\<lambda>_. True)) d) (\<lambda>_.
      sbind (dir_call (entry_durable_update (\<lambda>_. False))) (\<lambda>_.
      sbind (create_file cap seg c nonces) (\<lambda>s.
      sbind (dir_call (entry_durable_update (\<lambda>_. True))) (\<lambda>_.
      sbind (\<lambda>d. if dir_existed \<or> \<not> parent_is_dir d then (Inr (), d)
                 else dir_call (dir_durable_update (\<lambda>_. True)) d) (\<lambda>_ d.
      (Inr (s\<lparr>faults := dfaults d\<rparr>), d)))))) d)"

section \<open>Reasoning about fallible operations\<close>

text \<open>A Hoare triple with a postcondition for success and one for failure.\<close>

definition triple ::
    "('s \<Rightarrow> bool) \<Rightarrow> ('s \<Rightarrow> (error + 'a) \<times> 's) \<Rightarrow> ('s \<Rightarrow> bool) \<Rightarrow> (error \<Rightarrow> 's \<Rightarrow> bool) \<Rightarrow> bool" where
  "triple P m Q E \<longleftrightarrow>
     (\<forall>s. P s \<longrightarrow> (case m s of (Inl e, s') \<Rightarrow> E e s' | (Inr _, s') \<Rightarrow> Q s'))"

lemma triple_sbind:
  assumes "triple P m Q E" "\<And>x. triple Q (f x) R E"
  shows "triple P (sbind m f) R E"
  using assms unfolding triple_def sbind_def by (fastforce split: sum.splits prod.splits)

lemma triple_skip: "(\<And>s. P s \<Longrightarrow> Q s) \<Longrightarrow> triple P (\<lambda>s. (Inr x, s)) Q E"
  by (simp add: triple_def)

lemma triple_conseq:
  assumes "triple P m Q E" "\<And>s. P' s \<Longrightarrow> P s" "\<And>s. Q s \<Longrightarrow> Q' s" "\<And>e s. E e s \<Longrightarrow> E' e s"
  shows "triple P' m Q' E'"
  using assms unfolding triple_def by (fastforce split: sum.splits prod.splits)

lemma triple_if:
  assumes "triple (\<lambda>s. P s \<and> b s) m Q E" "triple (\<lambda>s. P s \<and> \<not> b s) m' Q E"
  shows "triple P (\<lambda>s. if b s then m s else m' s) Q E"
  using assms unfolding triple_def by simp

lemma triple_pre: "triple P m Q E \<Longrightarrow> triple (\<lambda>s. P s \<and> b s) m Q E"
  by (simp add: triple_def)

lemma triple_upd: "(\<And>s. P s \<Longrightarrow> Q (f s)) \<Longrightarrow> triple P (\<lambda>s. (Inr x, f s)) Q E"
  by (simp add: triple_def)

lemma triple_Inr: "triple P m Q E \<Longrightarrow> P s \<Longrightarrow> m s = (Inr x, s') \<Longrightarrow> Q s'"
  unfolding triple_def by fastforce

lemma triple_Inl: "triple P m Q E \<Longrightarrow> P s \<Longrightarrow> m s = (Inl e, s') \<Longrightarrow> E e s'"
  unfolding triple_def by fastforce

text \<open>\<open>floor_ok C F c s\<close>: the committed part of the file, \<open>C\<close> holding \<open>F\<close> frames, is in place both in
  the file and in its durable image (the magic of a fresh segment becomes durable only with its
  first commit), and the write position is past it.\<close>

definition floor_ok :: "byte list \<Rightarrow> nat \<Rightarrow> file_cipher option \<Rightarrow> wal_sink \<Rightarrow> bool" where
  "floor_ok C F c s \<longleftrightarrow> committed_len s = length C \<and> committed_frames s = F \<and> cipher s = c \<and>
     take (length C) (fdata s) = C \<and> (take (length C) (synced s) = C \<or> F = 0 \<and> synced s = []) \<and>
     length C \<le> fpos s"

definition faulty :: "wal_sink \<Rightarrow> nat" where
  "faulty s = length (filter (\<lambda>f. f \<noteq> IoOk) (faults s))"

text \<open>\<open>pend C F c n X G s\<close>: \<open>G\<close> frames with the bytes \<open>X\<close> have been appended to the committed part,
  some perhaps still in the buffer, and at most \<open>n\<close> calls are still going to fail.\<close>

definition pend ::
    "byte list \<Rightarrow> nat \<Rightarrow> file_cipher option \<Rightarrow> nat \<Rightarrow> byte list \<Rightarrow> nat \<Rightarrow> nat \<Rightarrow> wal_sink \<Rightarrow> bool" where
  "pend C F c n X L G s \<longleftrightarrow> floor_ok C F c s \<and> fdata s @ wbuf s = C @ X \<and> fpos s = length (fdata s) \<and>
     cur_len s = length C + L \<and> cur_frames s = F + G \<and> faulty s \<le> n"

definition failed :: "byte list \<Rightarrow> nat \<Rightarrow> file_cipher option \<Rightarrow> nat \<Rightarrow> error \<Rightarrow> wal_sink \<Rightarrow> bool" where
  "failed C F c n e s \<longleftrightarrow> floor_ok C F c s \<and> e = IoError \<and> faulty s < n"

lemma take_write_at:
  "n \<le> pos \<Longrightarrow> n \<le> length old \<Longrightarrow> take n (write_at pos new old) = take n old"
  by (simp add: write_at_def min_def)

lemma write_at_end: "write_at (length old) new old = old @ new"
  by (simp add: write_at_def)

lemma take_eq_length: "take (length C) xs = C \<Longrightarrow> length C \<le> length xs"
  by (metis length_take min.cobounded1)

lemma floor_os_write: "floor_ok C F c s \<Longrightarrow> floor_ok C F c (os_write bs s)"
  using take_write_at [of "length C" "fpos s" "fdata s" bs] take_eq_length [of C "fdata s"]
  by (simp add: floor_ok_def os_write_def)

lemma os_write_simps [simp]:
  "fdata (os_write bs s) = write_at (fpos s) bs (fdata s)" "fpos (os_write bs s) = fpos s + length bs"
  "wbuf (os_write bs s) = wbuf s" "faults (os_write bs s) = faults s"
  "cur_len (os_write bs s) = cur_len s" "cur_frames (os_write bs s) = cur_frames s"
  by (simp_all add: os_write_def)

lemma floor_wbuf [simp]: "floor_ok C F c (s\<lparr>wbuf := b\<rparr>) = floor_ok C F c s"
  by (simp add: floor_ok_def)

lemma floor_faults [simp]: "floor_ok C F c (s\<lparr>faults := b\<rparr>) = floor_ok C F c s"
  by (simp add: floor_ok_def)

lemma floor_draws [simp]: "floor_ok C F c (s\<lparr>draws := b\<rparr>) = floor_ok C F c s"
  by (simp add: floor_ok_def)

lemma floor_cur [simp]: "floor_ok C F c (s\<lparr>cur_len := l, cur_frames := f\<rparr>) = floor_ok C F c s"
  by (simp add: floor_ok_def)

lemma syscall_cases:
  obtains (ok) s' where "syscall s = (IoOk, s')" "faulty s' \<le> faulty s" "\<exists>fs. s' = s\<lparr>faults := fs\<rparr>"
  | (fail) k s' where "syscall s = (IoFail k, s')" "faulty s' < faulty s" "\<exists>fs. s' = s\<lparr>faults := fs\<rparr>"
proof (cases "faults s")
  case Nil
  then have "syscall s = (IoOk, s)" by (simp add: syscall_def)
  moreover have "s = s\<lparr>faults := faults s\<rparr>" by simp
  ultimately show thesis using ok by blast
next
  case (Cons f fs)
  then show thesis
    by (cases f) (auto simp: syscall_def faulty_def intro: ok fail)
qed

lemma floor_flush: "triple (floor_ok C F c) flush_buf (floor_ok C F c) (\<lambda>_. floor_ok C F c)"
  unfolding triple_def
proof (intro allI impI)
  fix s assume "floor_ok C F c s"
  then show "case flush_buf s of (Inl e, s') \<Rightarrow> floor_ok C F c s' | (Inr _, s') \<Rightarrow> floor_ok C F c s'"
    by (cases s rule: syscall_cases) (auto simp: flush_buf_def intro!: floor_os_write)
qed

lemma pend_flush:
  "triple (pend C F c n X L G) flush_buf (\<lambda>s. pend C F c n X L G s \<and> wbuf s = []) (failed C F c n)"
  unfolding triple_def
proof (intro allI impI)
  fix s assume P: "pend C F c n X L G s"
  then have "length (fdata s) + length (wbuf s) = length C + length X"
    unfolding pend_def by (metis length_append)
  with P show "case flush_buf s of (Inl e, s') \<Rightarrow> failed C F c n e s' | (Inr _, s') \<Rightarrow> pend C F c n X L G s' \<and> wbuf s' = []"
    by (cases s rule: syscall_cases)
      (auto simp: flush_buf_def pend_def failed_def faulty_def write_at_end intro!: floor_os_write)
qed

lemma triple_syscall:
  assumes "\<And>s fs. P s \<Longrightarrow> faulty (s\<lparr>faults := fs\<rparr>) \<le> faulty s \<Longrightarrow> Q (f s (s\<lparr>faults := fs\<rparr>))"
    and "\<And>s fs k. P s \<Longrightarrow> faulty (s\<lparr>faults := fs\<rparr>) < faulty s \<Longrightarrow> E (g s k) (h s k (s\<lparr>faults := fs\<rparr>))"
  shows "triple P (\<lambda>s. case syscall s of (IoOk, s') \<Rightarrow> (Inr x, f s s') | (IoFail k, s') \<Rightarrow> (Inl (g s k), h s k s')) Q E"
  unfolding triple_def
proof (intro allI impI)
  fix s assume "P s"
  then show "case case syscall s of (IoOk, s') \<Rightarrow> (Inr x, f s s') | (IoFail k, s') \<Rightarrow> (Inl (g s k), h s k s')
      of (Inl e, s') \<Rightarrow> E e s' | (Inr _, s') \<Rightarrow> Q s'"
    by (cases s rule: syscall_cases) (auto intro: assms)
qed

lemmas io_defs = direct_write_def sync_data_def set_len_def seek_start_def

lemma floor_direct: "triple (floor_ok C F c) (direct_write bs) (floor_ok C F c) (\<lambda>_. floor_ok C F c)"
  unfolding direct_write_def by (rule triple_syscall) (simp_all add: floor_os_write)

lemma floor_sync: "triple (floor_ok C F c) sync_data (floor_ok C F c) (\<lambda>_. floor_ok C F c)"
  unfolding sync_data_def by (rule triple_syscall) (simp_all add: floor_ok_def)

lemma floor_set_len: "triple (floor_ok C F c) (set_len (length C)) (floor_ok C F c) (\<lambda>_. floor_ok C F c)"
  unfolding set_len_def by (rule triple_syscall) (auto simp: floor_ok_def)

lemma floor_seek: "triple (floor_ok C F c) (seek_start (length C)) (floor_ok C F c) (\<lambda>_. floor_ok C F c)"
  unfolding seek_start_def by (rule triple_syscall) (auto simp: floor_ok_def)

lemma floor_truncate:
  "triple (floor_ok C F c) (truncate_to (length C) F) (floor_ok C F c) (\<lambda>_. floor_ok C F c)"
  unfolding truncate_to_def
  by (rule triple_sbind [OF floor_flush], rule triple_sbind [OF floor_set_len],
      rule triple_sbind [OF floor_seek], rule triple_sbind [OF floor_sync], rule triple_upd) simp

lemma floor_buf_write_all:
  "triple (floor_ok C F c) (buf_write_all cap bs) (floor_ok C F c) (\<lambda>_. floor_ok C F c)"
proof -
  have push: "triple (floor_ok C F c) (\<lambda>s. (Inr (), s\<lparr>wbuf := wbuf s @ bs\<rparr>)) (floor_ok C F c) (\<lambda>_. floor_ok C F c)"
    by (rule triple_upd) simp
  have cold: "triple (floor_ok C F c) (write_all_cold cap bs) (floor_ok C F c) (\<lambda>_. floor_ok C F c)"
    unfolding write_all_cold_def
    by (rule triple_sbind, rule triple_if, rule triple_pre [OF floor_flush], rule triple_upd, simp,
        rule triple_if, rule triple_pre [OF floor_direct], rule triple_pre [OF push])
  show ?thesis
    unfolding buf_write_all_def by (rule triple_if [OF triple_pre [OF push] triple_pre [OF cold]])
qed

lemma pend_direct:
  "triple (\<lambda>s. pend C F c n X L G s \<and> (wbuf s = [] \<or> bs = [])) (direct_write bs)
     (pend C F c n (X @ bs) L G) (failed C F c n)"
  unfolding direct_write_def
  by (rule triple_syscall) (auto simp: pend_def failed_def faulty_def write_at_end intro!: floor_os_write)

lemma pend_push:
  "triple (pend C F c n X L G) (\<lambda>s. (Inr (), s\<lparr>wbuf := wbuf s @ bs\<rparr>)) (pend C F c n (X @ bs) L G) E"
  by (rule triple_upd) (auto simp: pend_def faulty_def)

lemma pend_buf_write_all:
  "triple (pend C F c n X L G) (buf_write_all cap bs) (pend C F c n (X @ bs) L G) (failed C F c n)"
proof -
  let ?mid = "\<lambda>s. pend C F c n X L G s \<and> (length bs \<ge> cap \<longrightarrow> wbuf s = [] \<or> bs = [])"
  have fits: "w = []" if "\<not> cap - length w < length bs" "cap \<le> length bs" "bs \<noteq> []" for w :: "byte list"
    using that by (cases w; cases bs) auto
  have flush: "triple (pend C F c n X L G)
      (\<lambda>s. if length bs > cap - length (wbuf s) then flush_buf s else (Inr (), s)) ?mid (failed C F c n)"
  proof (rule triple_if)
    show "triple (\<lambda>s. pend C F c n X L G s \<and> length bs > cap - length (wbuf s)) flush_buf ?mid (failed C F c n)"
      by (rule triple_conseq [OF pend_flush]) auto
    show "triple (\<lambda>s. pend C F c n X L G s \<and> \<not> length bs > cap - length (wbuf s)) (\<lambda>s. (Inr (), s)) ?mid (failed C F c n)"
      using fits by (intro triple_upd) auto
  qed
  have "triple (pend C F c n X L G) (write_all_cold cap bs) (pend C F c n (X @ bs) L G) (failed C F c n)"
    unfolding write_all_cold_def
  proof (rule triple_sbind [OF flush], rule triple_if)
    show "triple (\<lambda>s. ?mid s \<and> length bs \<ge> cap) (direct_write bs) (pend C F c n (X @ bs) L G) (failed C F c n)"
      by (rule triple_conseq [OF pend_direct]) auto
    show "triple (\<lambda>s. ?mid s \<and> \<not> length bs \<ge> cap) (\<lambda>s. (Inr (), s\<lparr>wbuf := wbuf s @ bs\<rparr>))
        (pend C F c n (X @ bs) L G) (failed C F c n)"
      by (rule triple_conseq [OF pend_push]) auto
  qed
  then show ?thesis
    unfolding buf_write_all_def by (rule triple_if [OF triple_pre [OF pend_push] triple_pre])
qed

lemma pend_write_frame:
  "triple (pend C F c n X L G) (write_frame_to crc cap p) (pend C F c n (X @ write_frame crc p) L G) (failed C F c n)"
proof -
  let ?l = "le_bytes 4 (of_nat (length p) :: u32)" and ?k = "le_bytes 4 (crc p)"
  have "triple (pend C F c n X L G) (write_frame_to crc cap p) (pend C F c n (((X @ ?l) @ ?k) @ p) L G) (failed C F c n)"
    unfolding write_frame_to_def
    by (rule triple_sbind [OF pend_buf_write_all], rule triple_sbind [OF pend_buf_write_all],
        rule pend_buf_write_all)
  then show ?thesis by (simp only: write_frame_def append_assoc)
qed

lemma floor_write_frame:
  "triple (floor_ok C F c) (write_frame_to crc cap p) (floor_ok C F c) (\<lambda>_. floor_ok C F c)"
  unfolding write_frame_to_def
  by (rule triple_sbind [OF floor_buf_write_all], rule triple_sbind [OF floor_buf_write_all],
      rule floor_buf_write_all)

lemma stream_snoc:
  assumes "stream crc c n items bs" "length nonce = NONCE_LEN"
    and "store_payload c nonce (of_nat (n + length items)) (item_payload item) = Inr stored"
  shows "stream crc c n (items @ [item]) (bs @ write_frame crc stored)"
  using assms
proof (induction rule: stream.induct)
  case (stream_Nil n)
  then show ?case using stream_Cons [OF _ _ stream.stream_Nil, of nonce c n item stored crc] by simp
next
  case (stream_Cons nonce' n item' stored' items bs)
  then show ?case using stream.stream_Cons [OF stream_Cons.hyps(1,2)] by simp
qed

text \<open>\<open>mid\<close>: the frames of \<open>items\<close> follow the committed part and the stray bytes \<open>J\<close> (none, unless an
  earlier failure left them uncounted).\<close>

definition mid ::
    "(byte list \<Rightarrow> u32) \<Rightarrow> byte list \<Rightarrow> byte list \<Rightarrow> nat \<Rightarrow> file_cipher option \<Rightarrow> nat \<Rightarrow> wal_item list \<Rightarrow> wal_sink \<Rightarrow> bool" where
  "mid crc C J F c n items s \<longleftrightarrow>
     (\<exists>X. stream crc c F items X \<and> pend C F c n (J @ X) (length X) (length items) s)"

lemma random_nonce_simps:
  "length (fst (random_nonce s)) = NONCE_LEN" "\<exists>ds. snd (random_nonce s) = s\<lparr>draws := ds\<rparr>"
  by (auto simp: random_nonce_def split: list.splits intro: exI [of _ "draws s"])

lemma mid_write_payload:
  assumes "cipher_ok c" "item_ok item"
  shows "triple (mid crc C J F c n items) (write_payload crc cap (item_payload item))
    (mid crc C J F c n (items @ [item])) (failed C F c n)"
  unfolding triple_def
proof (intro allI impI)
  fix s assume "mid crc C J F c n items s"
  then obtain X where X: "stream crc c F items X" and P: "pend C F c n (J @ X) (length X) (length items) s"
    unfolding mid_def by blast
  define r where "r = (case c of None \<Rightarrow> (Inr (item_payload item), s)
    | Some k \<Rightarrow> (let (nonce, s') = random_nonce s
        in (seal_frame k nonce (of_nat (cur_frames s)) (item_payload item), s')))"
  obtain nonce stored s1 where n: "length nonce = NONCE_LEN"
    and st: "store_payload c nonce (of_nat (F + length items)) (item_payload item) = Inr stored"
    and r: "r = (Inr stored, s1)" and s1: "\<exists>ds. s1 = s\<lparr>draws := ds\<rparr>"
  proof (cases c)
    case None
    have same: "\<exists>ds. s = s\<lparr>draws := ds\<rparr>" by (rule exI [of _ "draws s"]) simp
    show thesis
      by (rule that [of "replicate NONCE_LEN 0" "item_payload item" s, OF _ _ _ same])
        (simp_all add: None r_def store_payload_def)
  next
    case (Some k)
    then have k: "aead_ok k" using assms(1) by (simp add: cipher_ok_def)
    have max: "length (item_payload item) \<le> AEAD_MAX"
      using item_payload_length [OF assms(2)] by (simp add: AEAD_MAX_def)
    obtain stored where "seal_blob k (fst (random_nonce s)) (of_nat (F + length items)) (item_payload item) = Inr stored"
      using seal_blob_ok [OF k random_nonce_simps(1) max] by metis
    moreover have "cur_frames s = F + length items" using P by (simp add: pend_def)
    ultimately show thesis
      using Some that [of "fst (random_nonce s)" stored "snd (random_nonce s)"] random_nonce_simps
      by (simp add: r_def store_payload_def seal_frame_def split_beta)
  qed
  have P1: "pend C F c n (J @ X) (length X) (length items) s1"
    using P s1 by (auto simp: pend_def faulty_def)
  have "write_payload crc cap (item_payload item) s = sbind (write_frame_to crc cap stored) (\<lambda>_ s2.
             (Inr (), s2\<lparr>cur_len := cur_len s2 + frame_len (length stored),
                         cur_frames := cur_frames s2 + 1\<rparr>)) s1"
    using P r by (simp add: write_payload_def r_def pend_def floor_ok_def)
  moreover have "triple (pend C F c n (J @ X) (length X) (length items))
      (sbind (write_frame_to crc cap stored) (\<lambda>_ s2.
             (Inr (), s2\<lparr>cur_len := cur_len s2 + frame_len (length stored),
                         cur_frames := cur_frames s2 + 1\<rparr>))) (mid crc C J F c n (items @ [item])) (failed C F c n)"
  proof (rule triple_sbind [OF pend_write_frame], rule triple_upd)
    fix s2 assume "pend C F c n ((J @ X) @ write_frame crc stored) (length X) (length items) s2"
    then have "pend C F c n (J @ X @ write_frame crc stored) (length (X @ write_frame crc stored)) (length (items @ [item]))
        (s2\<lparr>cur_len := cur_len s2 + frame_len (length stored), cur_frames := cur_frames s2 + 1\<rparr>)"
      by (auto simp: pend_def faulty_def length_write_frame)
    then show "mid crc C J F c n (items @ [item])
        (s2\<lparr>cur_len := cur_len s2 + frame_len (length stored), cur_frames := cur_frames s2 + 1\<rparr>)"
      using stream_snoc [OF X n st] unfolding mid_def by blast
  qed
  ultimately show "case write_payload crc cap (item_payload item) s of
      (Inl e, s') \<Rightarrow> failed C F c n e s' | (Inr _, s') \<Rightarrow> mid crc C J F c n (items @ [item]) s'"
    using P1 by (simp add: triple_def)
qed

lemma floor_write_payload:
  "triple (floor_ok C F c) (write_payload crc cap p) (floor_ok C F c) (\<lambda>_. floor_ok C F c)"
  unfolding triple_def
proof (intro allI impI)
  fix s assume s: "floor_ok C F c s"
  have body: "triple (floor_ok C F c) (sbind (write_frame_to crc cap st) (\<lambda>_ s2.
      (Inr (), s2\<lparr>cur_len := cur_len s2 + frame_len (length st), cur_frames := cur_frames s2 + 1\<rparr>)))
      (floor_ok C F c) (\<lambda>_. floor_ok C F c)" for st
    by (rule triple_sbind [OF floor_write_frame], rule triple_upd) simp
  obtain ds where ds: "snd (random_nonce s) = s\<lparr>draws := ds\<rparr>" using random_nonce_simps(2) by blast
  show "case write_payload crc cap p s of (Inl e, s') \<Rightarrow> floor_ok C F c s' | (Inr _, s') \<Rightarrow> floor_ok C F c s'"
    using s ds body unfolding write_payload_def triple_def
    by (auto simp: split_beta Let_def split: option.splits sum.splits)
qed

lemma mid_write_records:
  assumes "cipher_ok c" "list_all item_ok (map Rec recs)"
  shows "triple (mid crc C J F c n items) (write_records crc cap recs) (mid crc C J F c n (items @ map Rec recs))
    (failed C F c n)"
  using assms(2)
proof (induction recs arbitrary: items)
  case Nil
  then show ?case by (simp add: triple_def)
next
  case (Cons rec recs)
  then have ok: "item_ok (Rec rec)" "list_all item_ok (map Rec recs)" by simp_all
  have "triple (mid crc C J F c n items) (sbind (write_record_frame crc cap rec) (\<lambda>_. write_records crc cap recs))
      (mid crc C J F c n ((items @ [Rec rec]) @ map Rec recs)) (failed C F c n)"
    unfolding write_record_frame_def
    by (rule triple_sbind [OF mid_write_payload [OF assms(1) ok(1), simplified] Cons.IH [OF ok(2)]])
  then show ?case by (simp add: triple_def)
qed

lemma floor_write_records:
  "triple (floor_ok C F c) (write_records crc cap recs) (floor_ok C F c) (\<lambda>_. floor_ok C F c)"
proof (induction recs)
  case (Cons rec recs)
  have "triple (floor_ok C F c) (sbind (write_record_frame crc cap rec) (\<lambda>_. write_records crc cap recs))
      (floor_ok C F c) (\<lambda>_. floor_ok C F c)"
    unfolding write_record_frame_def by (rule triple_sbind [OF floor_write_payload Cons.IH])
  then show ?case by (simp add: triple_def)
qed (simp add: triple_def)

text \<open>\<open>committed\<close>: the file is exactly \<open>C\<close>, durable, with nothing pending.\<close>

definition committed :: "byte list \<Rightarrow> nat \<Rightarrow> file_cipher option \<Rightarrow> nat \<Rightarrow> wal_sink \<Rightarrow> bool" where
  "committed C F c n s \<longleftrightarrow> floor_ok C F c s \<and> fdata s = C \<and> (synced s = C \<or> F = 0 \<and> synced s = []) \<and> wbuf s = [] \<and>
     fpos s = length C \<and> cur_len s = length C \<and> cur_frames s = F \<and> faulty s \<le> n"

lemma committed_mid: "committed C F c n s \<Longrightarrow> mid crc C [] F c n [] s"
  unfolding mid_def committed_def pend_def by (auto intro: stream_Nil)

lemma mid_write_commit:
  assumes "cipher_ok c"
  shows "triple (mid crc C J F c n items) (write_commit_frame crc cap q)
    (\<lambda>s. \<exists>X. stream crc c F (items @ [Commit q]) X \<and> fdata s = C @ J @ X \<and> synced s = C @ J @ X \<and>
           (J = [] \<longrightarrow> committed (C @ X) (F + Suc (length items)) c n s))
    (failed C F c n)"
proof -
  let ?flushed = "\<lambda>s. \<exists>X. stream crc c F (items @ [Commit q]) X \<and>
      pend C F c n (J @ X) (length X) (Suc (length items)) s \<and> wbuf s = []"
  have flush: "triple (mid crc C J F c n (items @ [Commit q])) flush_buf ?flushed (failed C F c n)"
    unfolding triple_def
  proof (intro allI impI)
    fix s assume "mid crc C J F c n (items @ [Commit q]) s"
    then obtain X where X: "stream crc c F (items @ [Commit q]) X"
      and P: "pend C F c n (J @ X) (length X) (Suc (length items)) s" unfolding mid_def by auto
    show "case flush_buf s of (Inl e, s') \<Rightarrow> failed C F c n e s' | (Inr _, s') \<Rightarrow> ?flushed s'"
    proof (cases "flush_buf s")
      case (Pair r s')
      show ?thesis
      proof (cases r)
        case (Inl e)
        then show ?thesis using triple_Inl [OF pend_flush P] Pair by simp
      next
        case (Inr u)
        then show ?thesis using triple_Inr [OF pend_flush P] Pair X by auto
      qed
    qed
  qed
  have sync: "triple ?flushed sync_data (\<lambda>s. ?flushed s \<and> synced s = fdata s) (failed C F c n)"
    unfolding sync_data_def
    by (rule triple_syscall) (auto simp: pend_def failed_def faulty_def floor_ok_def)
  show ?thesis
    unfolding write_commit_frame_def
  proof (rule triple_sbind [OF mid_write_payload [OF assms, of "Commit q", simplified]],
      rule triple_sbind [OF flush], rule triple_sbind [OF sync], rule triple_upd)
    fix s assume "?flushed s \<and> synced s = fdata s"
    then show "\<exists>X. stream crc c F (items @ [Commit q]) X \<and>
        fdata (s\<lparr>committed_len := cur_len s, committed_frames := cur_frames s\<rparr>) = C @ J @ X \<and>
        synced (s\<lparr>committed_len := cur_len s, committed_frames := cur_frames s\<rparr>) = C @ J @ X \<and>
        (J = [] \<longrightarrow> committed (C @ X) (F + Suc (length items)) c n
          (s\<lparr>committed_len := cur_len s, committed_frames := cur_frames s\<rparr>))"
      by (auto simp: committed_def pend_def floor_ok_def faulty_def)
  qed
qed

lemma floor_write_commit:
  "triple (floor_ok C F c) (write_commit_frame crc cap q) (\<lambda>_. True) (\<lambda>_. floor_ok C F c)"
  unfolding write_commit_frame_def
  by (rule triple_sbind [OF floor_write_payload], rule triple_sbind [OF floor_flush],
      rule triple_sbind [OF floor_sync], rule triple_upd) simp

lemma truncate_commits:
  "triple (\<lambda>s. floor_ok C F c s \<and> faulty s \<le> n) (truncate_to (length C) F) (committed C F c n) (failed C F c n)"
proof -
  let ?P = "\<lambda>s. floor_ok C F c s \<and> faulty s \<le> n"
  have flush: "triple ?P flush_buf (\<lambda>s. ?P s \<and> wbuf s = []) (failed C F c n)"
    unfolding triple_def
  proof (intro allI impI)
    fix s assume "?P s"
    then show "case flush_buf s of (Inl e, s') \<Rightarrow> failed C F c n e s' | (Inr _, s') \<Rightarrow> ?P s' \<and> wbuf s' = []"
      by (cases s rule: syscall_cases)
        (auto simp: flush_buf_def failed_def faulty_def intro!: floor_os_write)
  qed
  have set_len: "triple (\<lambda>s. ?P s \<and> wbuf s = []) (set_len (length C))
      (\<lambda>s. ?P s \<and> wbuf s = [] \<and> fdata s = C) (failed C F c n)"
    unfolding set_len_def
    by (rule triple_syscall) (auto simp: floor_ok_def failed_def faulty_def dest: take_eq_length)
  have seek: "triple (\<lambda>s. ?P s \<and> wbuf s = [] \<and> fdata s = C) (seek_start (length C))
      (\<lambda>s. ?P s \<and> wbuf s = [] \<and> fdata s = C \<and> fpos s = length C) (failed C F c n)"
    unfolding seek_start_def by (rule triple_syscall) (auto simp: floor_ok_def failed_def faulty_def)
  have sync: "triple (\<lambda>s. ?P s \<and> wbuf s = [] \<and> fdata s = C \<and> fpos s = length C) sync_data
      (\<lambda>s. ?P s \<and> wbuf s = [] \<and> fdata s = C \<and> fpos s = length C \<and> synced s = C) (failed C F c n)"
    unfolding sync_data_def by (rule triple_syscall) (auto simp: floor_ok_def failed_def faulty_def)
  show ?thesis
    unfolding truncate_to_def
    by (rule triple_sbind [OF flush], rule triple_sbind [OF set_len], rule triple_sbind [OF seek],
        rule triple_sbind [OF sync], rule triple_upd) (auto simp: committed_def faulty_def)
qed

definition batch_body :: "(byte list \<Rightarrow> u32) \<Rightarrow> nat \<Rightarrow> wal_record list \<Rightarrow> u64 \<Rightarrow> unit sink_op" where
  "batch_body crc cap recs q =
     sbind (write_records crc cap recs) (\<lambda>_. write_commit_frame crc cap q)"

lemma append_batch_body:
  "append_batch crc cap recs q =
     sbind (\<lambda>s. if cur_len s \<noteq> committed_len s
                then truncate_to (committed_len s) (committed_frames s) s else (Inr (), s)) (\<lambda>_.
     with_rollback (batch_body crc cap recs q))"
  by (simp add: append_batch_def batch_body_def)

lemma triple_snd: "triple P m Q E \<Longrightarrow> P s \<Longrightarrow> Q (snd (m s)) \<or> (\<exists>e. E e (snd (m s)))"
  unfolding triple_def by (cases "m s"; cases "fst (m s)") fastforce+

lemma triple_with_rollback:
  assumes "triple P body Q E"
    and "\<And>e s s1. P s \<Longrightarrow> E e s1 \<Longrightarrow> E' e (snd (truncate_to (committed_len s) (committed_frames s) s1))"
  shows "triple P (with_rollback body) Q E'"
  unfolding triple_def
proof (intro allI impI)
  fix s assume P: "P s"
  obtain r s1 where b: "body s = (r, s1)" by (cases "body s")
  show "case with_rollback body s of (Inl e, s') \<Rightarrow> E' e s' | (Inr _, s') \<Rightarrow> Q s'"
  proof (cases r)
    case (Inl e)
    then show ?thesis using b triple_Inl [OF assms(1) P] assms(2) [OF P] by (simp add: with_rollback_def)
  next
    case (Inr u)
    then show ?thesis using b triple_Inr [OF assms(1) P] by (simp add: with_rollback_def)
  qed
qed

lemma floor_with_rollback:
  "triple (floor_ok C F c) (with_rollback (batch_body crc cap recs q)) (\<lambda>_. True) (\<lambda>_. floor_ok C F c)"
proof (rule triple_with_rollback)
  show "triple (floor_ok C F c) (batch_body crc cap recs q) (\<lambda>_. True) (\<lambda>_. floor_ok C F c)"
    unfolding batch_body_def by (rule triple_sbind [OF floor_write_records floor_write_commit])
  fix s s1 assume "floor_ok C F c s" "floor_ok C F c s1"
  then show "floor_ok C F c (snd (truncate_to (committed_len s) (committed_frames s) s1))"
    using triple_snd [OF floor_truncate, of C F c s1] by (auto simp: floor_ok_def)
qed

lemma batch_body_triple:
  assumes "cipher_ok c" "list_all item_ok (map Rec recs)"
  shows "triple (mid crc C J F c n []) (batch_body crc cap recs q)
    (\<lambda>s. \<exists>X. stream crc c F (batch_items (recs, q)) X \<and> fdata s = C @ J @ X \<and> synced s = C @ J @ X \<and>
           (J = [] \<longrightarrow> committed (C @ X) (F + Suc (length recs)) c n s))
    (failed C F c n)"
  unfolding batch_body_def batch_items_def
  using triple_sbind [OF mid_write_records [OF assms, of crc C J F n "[]" cap, simplified] mid_write_commit [OF assms(1)]]
  by simp

lemma batch_with_rollback:
  assumes "cipher_ok c" "list_all item_ok (map Rec recs)"
  shows "triple (committed C F c n) (with_rollback (batch_body crc cap recs q))
    (\<lambda>s. \<exists>X. stream crc c F (batch_items (recs, q)) X \<and> committed (C @ X) (F + Suc (length recs)) c n s)
    (\<lambda>e s. floor_ok C F c s \<and> (n \<le> 1 \<longrightarrow> committed C F c 0 s))"
proof (rule triple_with_rollback)
  show "triple (committed C F c n) (batch_body crc cap recs q)
    (\<lambda>s. \<exists>X. stream crc c F (batch_items (recs, q)) X \<and> committed (C @ X) (F + Suc (length recs)) c n s)
    (failed C F c n)"
    by (rule triple_conseq [OF batch_body_triple [OF assms, where J = "[]"]]) (auto simp: committed_mid)
  fix e s s1 assume s: "committed C F c n s" and f: "failed C F c n e s1"
  then have len: "committed_len s = length C" "committed_frames s = F"
    by (simp_all add: committed_def floor_ok_def)
  have "floor_ok C F c (snd (truncate_to (length C) F s1))"
    using triple_snd [OF floor_truncate] f by (auto simp: failed_def)
  moreover have "committed C F c 0 (snd (truncate_to (length C) F s1))" if "n \<le> 1"
    using triple_snd [OF truncate_commits [of C F c 0], of s1] f that by (auto simp: failed_def)
  ultimately show "floor_ok C F c (snd (truncate_to (committed_len s) (committed_frames s) s1)) \<and>
      (n \<le> 1 \<longrightarrow> committed C F c 0 (snd (truncate_to (committed_len s) (committed_frames s) s1)))"
    by (simp add: len)
qed

section \<open>The log\<close>

text \<open>The committed part of a sink is the segment image of the batches \<open>bs\<close>; \<open>at_rest\<close> when the file
  holds nothing else.\<close>

definition log_image :: "(byte list \<Rightarrow> u32) \<Rightarrow> file_cipher option \<Rightarrow> batch list \<Rightarrow> byte list \<Rightarrow> bool" where
  "log_image crc c bs C \<longleftrightarrow>
     (\<exists>img. C = magic_of c @ img \<and> stream crc c 0 (concat (map batch_items bs)) img)"

definition log_frames :: "batch list \<Rightarrow> nat" where
  "log_frames bs = length (concat (map batch_items bs))"

definition log_floor :: "(byte list \<Rightarrow> u32) \<Rightarrow> batch list \<Rightarrow> wal_sink \<Rightarrow> bool" where
  "log_floor crc bs s \<longleftrightarrow>
     (\<exists>C. log_image crc (cipher s) bs C \<and> floor_ok C (log_frames bs) (cipher s) s)"

definition at_rest :: "(byte list \<Rightarrow> u32) \<Rightarrow> batch list \<Rightarrow> wal_sink \<Rightarrow> bool" where
  "at_rest crc bs s \<longleftrightarrow>
     (\<exists>C. log_image crc (cipher s) bs C \<and> committed C (log_frames bs) (cipher s) (faulty s) s)"

lemma stream_append:
  assumes "stream crc c n items bs" "stream crc c (n + length items) items' bs'"
  shows "stream crc c n (items @ items') (bs @ bs')"
  using assms
proof (induction rule: stream.induct)
  case (stream_Cons nonce n item stored items bs)
  then show ?case using stream.stream_Cons [OF stream_Cons.hyps(1,2)] by simp
qed simp

lemma log_image_snoc:
  "log_image crc c bs C \<Longrightarrow> stream crc c (log_frames bs) (batch_items b) X \<Longrightarrow> log_image crc c (bs @ [b]) (C @ X)"
  unfolding log_image_def log_frames_def using stream_append [of crc c 0] by fastforce

lemma log_frames_snoc: "log_frames (bs @ [(recs, q)]) = log_frames bs + Suc (length recs)"
  by (simp add: log_frames_def batch_items_def)

lemma log_image_replay:
  assumes "log_image crc c bs C" "cipher_ok c" "list_all item_ok (concat (map batch_items bs))"
    and "next_frame crc tail = None"
  shows "replay_bytes crc c (C @ tail) replay_default = Inr (replay_of bs)"
proof -
  obtain img where img: "C = magic_of c @ img" "stream crc c 0 (concat (map batch_items bs)) img"
    using assms(1) unfolding log_image_def by blast
  have "replay_frames crc c 0 ([], replay_default) (img @ tail) = Inr (replay_of bs)"
    using replay_frames_stream [OF img(2) assms(2,3), of "([], replay_default)" tail]
    by (subst (asm) (2) replay_frames.simps)
      (simp only: assms(4) option.case replay_of_batches semiring_1_class.of_nat_0)
  then show ?thesis by (simp add: img(1) replay_bytes_magic)
qed

definition batches_ok :: "batch list \<Rightarrow> bool" where
  "batches_ok bs \<longleftrightarrow> list_all item_ok (concat (map batch_items bs))"

lemma batches_ok_snoc: "batches_ok (bs @ [(recs, q)]) \<longleftrightarrow> batches_ok bs \<and> list_all item_ok (map Rec recs)"
  by (simp add: batches_ok_def batch_items_def)

lemma next_frame_Nil: "next_frame crc [] = None"
  by (simp add: next_frame_def)

lemma at_rest_replay:
  assumes "at_rest crc bs s" "cipher_ok (cipher s)" "batches_ok bs"
  shows "replay_bytes crc (cipher s) (synced s) replay_default = Inr (replay_of bs)"
proof -
  obtain C where "log_image crc (cipher s) bs C" "committed C (log_frames bs) (cipher s) (faulty s) s"
    using assms(1) unfolding at_rest_def by blast
  moreover have "replay_bytes crc (cipher s) [] replay_default = Inr (replay_of bs)" if "log_frames bs = 0"
    using that by (cases bs) (simp_all add: log_frames_def batch_items_def replay_bytes_def replay_of_def replay_default_def)
  ultimately show ?thesis
    using log_image_replay [OF _ assms(2), of crc bs C "[]"] assms(3)
    by (auto simp: committed_def batches_ok_def next_frame_Nil)
qed

lemma committed_at_rest:
  "committed C (log_frames bs) c n s \<Longrightarrow> log_image crc c bs C \<Longrightarrow> at_rest crc bs s \<and> cipher s = c"
  unfolding at_rest_def by (auto simp: committed_def floor_ok_def)

lemma heal_at_rest:
  "cur_len s = committed_len s \<Longrightarrow> append_batch crc cap recs q s = with_rollback (batch_body crc cap recs q) s"
  by (simp add: append_batch_body sbind_def)

lemma append_batch_committed:
  assumes s: "committed C (log_frames bs) c n s" and img: "log_image crc c bs C"
    and ok: "cipher_ok c" "list_all item_ok (map Rec recs)"
    and run: "with_rollback (batch_body crc cap recs q) s = (r, s')"
  shows "case r of
      Inr _ \<Rightarrow> at_rest crc (bs @ [(recs, q)]) s' \<and> cipher s' = c
    | Inl _ \<Rightarrow> floor_ok C (log_frames bs) c s' \<and> (n \<le> 1 \<longrightarrow> at_rest crc bs s' \<and> cipher s' = c)"
proof (cases r)
  case (Inl e)
  then have "floor_ok C (log_frames bs) c s' \<and> (n \<le> 1 \<longrightarrow> committed C (log_frames bs) c 0 s')"
    using triple_Inl [OF batch_with_rollback [OF ok] s] run by blast
  then show ?thesis using Inl committed_at_rest [OF _ img] by auto
next
  case (Inr u)
  then obtain X where "stream crc c (log_frames bs) (batch_items (recs, q)) X"
    "committed (C @ X) (log_frames bs + Suc (length recs)) c n s'"
    using triple_Inr [OF batch_with_rollback [OF ok] s] run by blast
  then show ?thesis
    using Inr committed_at_rest [OF _ log_image_snoc [OF img, of "(recs, q)" X], of n s']
    by (simp add: log_frames_snoc)
qed

text \<open>C3: Batches are atomic and acknowledged batches durable under any single I/O failure: from a
  sink at rest on the batches \<open>bs\<close>, if at most one system call fails, \<open>append_batch\<close> leaves a sink at
  rest again, on \<open>bs\<close> plus the batch when it returned \<open>Ok\<close> and on exactly \<open>bs\<close> when it returned an
  error, and the durable image replays to exactly those batches.\<close>

theorem append_batch_single_fault:
  assumes "at_rest crc bs s" "faulty s \<le> 1" "cipher_ok (cipher s)" "batches_ok (bs @ [(recs, q)])"
    and "append_batch crc cap recs q s = (r, s')"
  shows "at_rest crc (if isl r then bs else bs @ [(recs, q)]) s' \<and>
    replay_bytes crc (cipher s) (synced s') replay_default =
      Inr (replay_of (if isl r then bs else bs @ [(recs, q)]))"
proof -
  obtain C where C: "log_image crc (cipher s) bs C" "committed C (log_frames bs) (cipher s) (faulty s) s"
    using assms(1) unfolding at_rest_def by blast
  have "with_rollback (batch_body crc cap recs q) s = (r, s')"
    using assms(5) C(2) by (subst (asm) heal_at_rest) (simp_all add: committed_def floor_ok_def)
  moreover have "list_all item_ok (map Rec recs)" "batches_ok bs" using assms(4) by (auto simp: batches_ok_snoc)
  ultimately have "at_rest crc (if isl r then bs else bs @ [(recs, q)]) s' \<and> cipher s' = cipher s"
    using append_batch_committed [OF C(2,1) assms(3)] assms(2) by (cases r) fastforce+
  then show ?thesis
    using at_rest_replay [of crc _ s'] assms(3,4) \<open>batches_ok bs\<close> by (cases r) auto
qed

lemma append_batch_no_fault:
  assumes "at_rest crc bs s" "faulty s = 0" "cipher_ok (cipher s)" "list_all item_ok (map Rec recs)"
  shows "\<exists>s'. append_batch crc cap recs q s = (Inr (), s')"
proof -
  obtain C where C: "committed C (log_frames bs) (cipher s) 0 s"
    using assms(1,2) unfolding at_rest_def by auto
  obtain r s' where run: "batch_body crc cap recs q s = (r, s')" by (cases "batch_body crc cap recs q s")
  have "r = Inr ()"
    using triple_Inl [OF batch_body_triple [OF assms(3,4)] committed_mid [OF C]] run
    by (cases r) (auto simp: failed_def)
  moreover have "cur_len s = committed_len s" using C by (simp add: committed_def floor_ok_def)
  ultimately show ?thesis using run by (simp add: heal_at_rest with_rollback_def)
qed

text \<open>With no I/O failure a batch of encodable records is always acknowledged.\<close>

theorem append_batch_acks:
  assumes "at_rest crc bs s" "list_all (\<lambda>f. f = IoOk) (faults s)" "cipher_ok (cipher s)"
    and "list_all item_ok (map Rec recs)"
  shows "\<exists>s'. append_batch crc cap recs q s = (Inr (), s')"
proof -
  have "faulty s = 0" using assms(2) by (auto simp: faulty_def filter_empty_conv list_all_iff)
  then show ?thesis by (rule append_batch_no_fault [OF assms(1) _ assms(3,4)])
qed

text \<open>\<open>tracked\<close>: the sink counts every stray byte it has behind its committed part, so equal lengths
  mean that it is at rest.\<close>

definition tracked :: "(byte list \<Rightarrow> u32) \<Rightarrow> batch list \<Rightarrow> wal_sink \<Rightarrow> bool" where
  "tracked crc bs s \<longleftrightarrow> log_floor crc bs s \<and> (cur_len s = committed_len s \<longrightarrow> at_rest crc bs s)"

text \<open>C4: Acknowledged implies durable, and the self-heal works, under every pattern of I/O failures:
  from a sink whose stray bytes are counted, \<open>append_batch\<close> returns \<open>Ok\<close> only in a state whose durable
  image replays to the committed batches followed by this one, without any frame of an earlier
  failed batch; and when it returns an error the committed batches are still in place.\<close>

theorem append_batch_acked_is_durable:
  assumes "tracked crc bs s" "cipher_ok (cipher s)" "batches_ok (bs @ [(recs, q)])"
    and "append_batch crc cap recs q s = (r, s')"
  shows "if isl r then log_floor crc bs s'
    else at_rest crc (bs @ [(recs, q)]) s' \<and>
      replay_bytes crc (cipher s) (synced s') replay_default = Inr (replay_of (bs @ [(recs, q)]))"
proof -
  let ?F = "log_frames bs" and ?c = "cipher s"
  have ok: "list_all item_ok (map Rec recs)" "batches_ok bs" using assms(3) by (auto simp: batches_ok_snoc)
  have "if isl r then log_floor crc bs s' else at_rest crc (bs @ [(recs, q)]) s' \<and> cipher s' = ?c"
  proof (cases "cur_len s = committed_len s")
    case True
    then obtain C where C: "log_image crc ?c bs C" "committed C ?F ?c (faulty s) s"
      using assms(1) unfolding tracked_def at_rest_def by blast
    have "with_rollback (batch_body crc cap recs q) s = (r, s')"
      using assms(4) True by (simp add: heal_at_rest)
    from append_batch_committed [OF C(2,1) assms(2) ok(1) this] C(1) show ?thesis
      by (cases r) (auto simp: log_floor_def floor_ok_def)
  next
    case False
    obtain C where img: "log_image crc ?c bs C" and fl: "floor_ok C ?F ?c s"
      using assms(1) unfolding tracked_def log_floor_def by blast
    obtain r1 s1 where t: "truncate_to (length C) ?F s = (r1, s1)" by (cases "truncate_to (length C) ?F s")
    have run: "(case r1 of Inl e \<Rightarrow> (Inl e, s1) | Inr x \<Rightarrow> with_rollback (batch_body crc cap recs q) s1) = (r, s')"
      using assms(4) False fl t
      by (simp add: append_batch_body sbind_def floor_ok_def split: sum.splits)
    show ?thesis
    proof (cases r1)
      case (Inl e)
      then show ?thesis
        using run t triple_Inl [OF floor_truncate fl] img by (auto simp: log_floor_def floor_ok_def)
    next
      case (Inr u)
      then have "committed C ?F ?c (faulty s) s1"
        using triple_Inr [OF truncate_commits, of C ?F ?c s "faulty s"] fl t by simp
      from append_batch_committed [OF this img assms(2) ok(1), of cap q r s'] run Inr img show ?thesis
        by (cases r) (auto simp: log_floor_def floor_ok_def)
    qed
  qed
  then show ?thesis
    using at_rest_replay [of crc "bs @ [(recs, q)]" s'] assms(2,3) by (cases r) auto
qed

section \<open>A stray header that is not counted\<close>

lemma stream_None: "stream crc None n items X \<Longrightarrow> X = plain_stream crc items"
  by (induction rule: stream.induct) (auto simp: plain_stream_def store_payload_def)

lemma first_write_fails:
  assumes "committed C F None n s" "8 < cap" "cap - 8 < length (encode_payload rec1)"
    and "faults s = [IoFail 0, IoFail 0]"
  shows "append_batch crc cap [rec1] q1 s =
    (Inl IoError, s\<lparr>wbuf := take 8 (write_frame crc (encode_payload rec1)), faults := []\<rparr>)"
proof -
  let ?p = "encode_payload rec1"
  have s: "wbuf s = []" "cur_len s = committed_len s" "cipher s = None" "write_at (fpos s) [] (fdata s) = fdata s"
    using assms(1) by (auto simp: committed_def floor_ok_def write_at_def)
  have header: "buf_write_all cap (le_bytes 4 v) t = (Inr (), t\<lparr>wbuf := wbuf t @ le_bytes 4 v\<rparr>)"
    if "length (wbuf t) \<le> 4" for t and v :: u32
  proof -
    have "4 < cap - length (wbuf t)" using that assms(2) by linarith
    then show ?thesis by (simp add: buf_write_all_def)
  qed
  have fail: "flush_buf t = (Inl IoError, t\<lparr>faults := fs\<rparr>)"
    if "faults t = IoFail 0 # fs" "wbuf t \<noteq> []" "write_at (fpos t) [] (fdata t) = fdata t" for t fs
    using that by (simp add: flush_buf_def syscall_def os_write_def)
  have hdr: "take 8 (write_frame crc ?p) = le_bytes 4 (of_nat (length ?p) :: u32) @ le_bytes 4 (crc ?p)"
    by (simp add: write_frame_def)
  let ?s1 = "s\<lparr>wbuf := take 8 (write_frame crc ?p)\<rparr>"
  have len: "length (take 8 (write_frame crc ?p)) = 8" by (simp add: hdr)
  then have ne: "take 8 (write_frame crc ?p) \<noteq> []" by auto
  have "buf_write_all cap ?p ?s1 = (Inl IoError, ?s1\<lparr>faults := [IoFail 0]\<rparr>)"
    using assms(3,4) fail [of ?s1 "[IoFail 0]"] s(4) len ne
    by (simp add: buf_write_all_def write_all_cold_def sbind_def)
  then have body: "write_record_frame crc cap rec1 s = (Inl IoError, ?s1\<lparr>faults := [IoFail 0]\<rparr>)"
    by (simp add: write_record_frame_def write_payload_def s write_frame_to_def sbind_def header hdr)
  have "truncate_to n k (?s1\<lparr>faults := [IoFail 0]\<rparr>) = (Inl IoError, ?s1\<lparr>faults := []\<rparr>)" for n k
    using fail [of "?s1\<lparr>faults := [IoFail 0]\<rparr>" "[]"] s(4) ne by (simp add: truncate_to_def sbind_def)
  with body show ?thesis
    by (simp add: append_batch_def with_rollback_def sbind_def s)
qed

text \<open>C36: The self-heal is keyed on \<open>cur_len \<noteq> committed_len\<close>, and \<open>cur_len\<close> is only advanced after a frame
  was written whole. When the first frame of a batch fails part-way (its header buffered, its large
  payload refused) and the rollback's own flush fails too, the stray header is not counted: the next
  batch is written behind it, fsynced and acknowledged, and yet replay of the durable file stops at
  the stray header and returns only the earlier batches.\<close>

theorem acked_batch_lost_behind_stray_header:
  assumes "at_rest crc bs s" "cipher s = None" "batches_ok bs"
    and "8 < cap" "cap - 8 < length (encode_payload rec1)" "length (encode_payload rec1) < 2 ^ 32"
    and "faults s = [IoFail 0, IoFail 0]"
    and "list_all item_ok (map Rec recs)"
    and "length (plain_stream crc (batch_items (recs, q))) < length (encode_payload rec1)"
    and "append_batch crc cap [rec1] q1 s = (r1, s1)" "append_batch crc cap recs q s1 = (r2, s2)"
  shows "isl r1 \<and> r2 = Inr () \<and>
    replay_bytes crc None (synced s2) replay_default = Inr (replay_of bs)"
proof -
  let ?F = "log_frames bs" and ?hdr = "take 8 (write_frame crc (encode_payload rec1))"
  obtain C where img: "log_image crc None bs C" and C: "committed C ?F None (faulty s) s"
    using assms(1,2) unfolding at_rest_def by auto
  have "(r1, s1) = (Inl IoError, s\<lparr>wbuf := ?hdr, faults := []\<rparr>)"
    using first_write_fails [OF C assms(4,5,7)] assms(10) by simp
  then have r1: "r1 = Inl IoError" and s1: "s1 = s\<lparr>wbuf := ?hdr, faults := []\<rparr>" by simp_all
  have "pend C ?F None 0 ?hdr 0 0 s1"
    using C by (auto simp: s1 pend_def committed_def faulty_def)
  then have m: "mid crc C ?hdr ?F None 0 [] s1"
    unfolding mid_def by (intro exI [of _ "[]"]) (simp add: stream_Nil)
  obtain r s' where run: "batch_body crc cap recs q s1 = (r, s')" by (cases "batch_body crc cap recs q s1")
  have c: "cipher_ok None" by (simp add: cipher_ok_def)
  note tr = batch_body_triple [OF c assms(8), of crc C ?hdr ?F 0 cap q]
  have r: "r = Inr ()"
    using triple_Inl [OF tr m] run by (cases r) (auto simp: failed_def)
  then obtain X where X: "stream crc None ?F (batch_items (recs, q)) X" and sy: "synced s' = C @ ?hdr @ X"
    using triple_Inr [OF tr m] run by blast
  have "cur_len s1 = committed_len s1" using C by (simp add: s1 committed_def floor_ok_def)
  then have r2: "r2 = Inr ()" "s2 = s'"
    using heal_at_rest [of s1 crc cap recs q] assms(11) run r by (simp_all add: with_rollback_def)
  have "length X < length (encode_payload rec1)" using stream_None [OF X] assms(9) by simp
  then have "next_frame crc (?hdr @ X) = None"
    using assms(6) by (simp add: next_frame_def write_frame_def codec_simps unat_of_nat_u32 Let_def)
  then show ?thesis
    using log_image_replay [OF img c assms(3) [unfolded batches_ok_def]] r1 r2 sy by simp
qed

section \<open>Creation and the two-call interface\<close>

lemma sbind_InrE:
  assumes "sbind m f s = (Inr y, s'')"
  obtains x s' where "m s = (Inr x, s')" "f x s' = (Inr y, s'')"
  using assms by (auto simp: sbind_def split: prod.splits sum.splits)

lemma dfaults_same: "dfaults d = fs \<Longrightarrow> d\<lparr>dfaults := fs\<rparr> = d"
  by simp

lemma dir_call_Inr: "dir_call f d = (Inr x, d') \<Longrightarrow> \<exists>fs. d' = f (d\<lparr>dfaults := fs\<rparr>)"
  by (rule exI [of _ "tl (dfaults d)"])
    (cases "dfaults d"; auto simp: dir_call_def dfaults_same split: io.splits)

lemma create_file_Inr:
  assumes "create_file cap seg c nonces d = (Inr s, d')"
  shows "fdata s = magic_of c \<and> wbuf s = [] \<and> fpos s = length (magic_of c) \<and> synced s = [] \<and> cipher s = c \<and>
    committed_len s = 8 \<and> cur_len s = 8 \<and> committed_frames s = 0 \<and> cur_frames s = 0"
  and "\<exists>fs. d' = d\<lparr>dfaults := fs\<rparr>"
proof -
  let ?s0 = "fresh_sink seg c nonces (dfaults d)"
  have run: "sbind (buf_write_all cap (magic_of c)) (\<lambda>_. flush_buf) ?s0 = (Inr (), s)"
    using assms by (auto simp: create_file_def split: prod.splits sum.splits)
  show "fdata s = magic_of c \<and> wbuf s = [] \<and> fpos s = length (magic_of c) \<and> synced s = [] \<and> cipher s = c \<and>
    committed_len s = 8 \<and> cur_len s = 8 \<and> committed_frames s = 0 \<and> cur_frames s = 0"
    using run
    by (cases ?s0 rule: syscall_cases)
      (auto simp: sbind_def buf_write_all_def write_all_cold_def flush_buf_def direct_write_def syscall_def
        fresh_sink_def os_write_def write_at_def split: if_splits list.splits io.splits sum.splits)
  show "\<exists>fs. d' = d\<lparr>dfaults := fs\<rparr>"
    using assms by (auto simp: create_file_def split: prod.splits sum.splits)
qed

lemma create_Inr:
  assumes "create cap seg cph nonces d = (Inr s, d')" "parent_is_dir d" "dir_exists d \<longrightarrow> dir_durable d"
  shows "\<exists>e t e' fs. create_file cap seg (bind_cipher cph (wal_name (segment_file_name seg))) nonces e = (Inr t, e') \<and>
    s = t\<lparr>faults := fs\<rparr> \<and> entry_durable d' \<and> dir_durable d'"
  using assms unfolding create_def Let_def
  apply (elim sbind_InrE)
  apply (frule create_file_Inr(2))
  apply (auto split: if_splits dest!: dir_call_Inr)
   apply blast+
  done

text \<open>A created segment is an empty log: its sink is at rest on no batches under the cipher bound
  to its name, its directory entry is durable before any write can be acknowledged, and so is the
  entry of the log directory, provided an existing directory was durable already.\<close>

theorem create_is_empty_durable_log:
  assumes "create cap seg cph nonces d = (Inr s, d')" "parent_is_dir d" "dir_exists d \<longrightarrow> dir_durable d"
  shows "at_rest crc [] s \<and> cipher s = bind_cipher cph (wal_name (segment_file_name seg)) \<and>
    entry_durable d' \<and> dir_durable d'"
proof -
  let ?c = "bind_cipher cph (wal_name (segment_file_name seg))"
  have img: "log_image crc c [] (magic_of c)" for c
    by (auto simp: log_image_def intro: stream_Nil)
  have rest: "at_rest crc [] (t\<lparr>faults := fs\<rparr>)" if
    "fdata t = magic_of c \<and> wbuf t = [] \<and> fpos t = length (magic_of c) \<and> synced t = [] \<and> cipher t = c \<and>
     committed_len t = 8 \<and> cur_len t = 8 \<and> committed_frames t = 0 \<and> cur_frames t = 0" for t fs c
    using that img [of c] unfolding at_rest_def
    by (intro exI [of _ "magic_of c"]) (auto simp: committed_def floor_ok_def log_frames_def magic_of_def)
  obtain e t e' fs where run: "create_file cap seg ?c nonces e = (Inr t, e')"
    and "s = t\<lparr>faults := fs\<rparr>" "entry_durable d' \<and> dir_durable d'"
    using create_Inr [OF assms] by blast
  then show ?thesis
    using rest [OF create_file_Inr(1) [OF run]] create_file_Inr(1) [OF run] by auto
qed

theorem create_is_empty_durable_log_witness:
  "let d = \<lparr>parent_is_dir = True, dir_exists = False, dir_durable = False, entry_durable = False, dfaults = []\<rparr>;
       (r, d') = create 8192 3 None [] d
   in \<exists>s. r = Inr s \<and> at_rest (\<lambda>_. 7) [] s \<and> entry_durable d' \<and> dir_durable d'"
proof -
  let ?d = "\<lparr>parent_is_dir = True, dir_exists = False, dir_durable = False, entry_durable = False, dfaults = []\<rparr>"
  have "\<exists>s d'. create 8192 3 None [] ?d = (Inr s, d')"
    by (simp add: create_def dir_call_def create_file_def sbind_def buf_write_all_def bind_cipher_def magic_of_def
        fresh_sink_def flush_buf_def syscall_def os_write_def)
  then show ?thesis using create_is_empty_durable_log [of 8192 3 None "[]" ?d] by auto
qed

text \<open>The directory entry is not always made durable: the parent is fsynced only by the call that
  created the directory. When that call fails after creating it, the retry finds the directory
  existing, skips the parent, and returns a usable sink whose log directory a power loss can still
  take away.\<close>

theorem create_retry_leaves_dir_volatile:
  assumes "\<not> dir_exists d" "\<not> dir_durable d" "dfaults d = [IoOk, IoFail k]"
    and "create cap seg cph nonces d = (r1, d1)" "create cap seg cph nonces d1 = (r2, d2)"
  shows "isl r1 \<and> (\<exists>s. r2 = Inr s) \<and> \<not> dir_durable d2"
proof -
  have d1: "r1 = Inl IoError" "d1 = d\<lparr>dir_exists := True, dfaults := []\<rparr>"
    using assms(1,3,4) by (auto simp: create_def dir_call_def Let_def sbind_def)
  have "\<exists>s. create_file cap seg c nonces e = (Inr s, e)" if "dfaults e = []" for c e
    using that
    by (simp add: create_file_def sbind_def buf_write_all_def write_all_cold_def flush_buf_def
        direct_write_def syscall_def fresh_sink_def os_write_def)
  from this [of "d1\<lparr>entry_durable := False\<rparr>"] obtain s where
    "create_file cap seg (bind_cipher cph (wal_name (segment_file_name seg))) nonces (d1\<lparr>entry_durable := False\<rparr>) =
      (Inr s, d1\<lparr>entry_durable := False\<rparr>)"
    using d1(2) by auto
  then have "create cap seg cph nonces d1 = (Inr (s\<lparr>faults := []\<rparr>), d1\<lparr>entry_durable := True\<rparr>)"
    by (simp add: create_def dir_call_def Let_def sbind_def d1(2))
  then show ?thesis using assms(2,5) d1 by auto
qed

theorem create_retry_leaves_dir_volatile_witness:
  "let d = \<lparr>parent_is_dir = True, dir_exists = False, dir_durable = False, entry_durable = False,
            dfaults = [IoOk, IoFail 0]\<rparr>;
       (r1, d1) = create 8192 3 None [] d; (r2, d2) = create 8192 3 None [] d1
   in isl r1 \<and> (\<exists>s. r2 = Inr s) \<and> \<not> dir_durable d2"
proof -
  define d where "d = \<lparr>parent_is_dir = True, dir_exists = False, dir_durable = False, entry_durable = False,
    dfaults = [IoOk, IoFail 0]\<rparr>"
  have d: "\<not> dir_exists d" "\<not> dir_durable d" "dfaults d = [IoOk, IoFail 0]" by (simp_all add: d_def)
  obtain r1 d1 where 1: "create 8192 3 None [] d = (r1, d1)" by (cases "create 8192 3 None [] d")
  obtain r2 d2 where 2: "create 8192 3 None [] d1 = (r2, d2)" by (cases "create 8192 3 None [] d1")
  show ?thesis
    using create_retry_leaves_dir_volatile [OF d 1 2]
    unfolding d_def [symmetric] Let_def 1 2 prod.case .
qed

text \<open>The separate calls: appending every record, then committing.\<close>

fun append_all :: "(byte list \<Rightarrow> u32) \<Rightarrow> nat \<Rightarrow> wal_record list \<Rightarrow> unit sink_op" where
  "append_all crc cap [] s = (Inr (), s)"
| "append_all crc cap (rec # recs) s = sbind (append crc cap rec) (\<lambda>_. append_all crc cap recs) s"

lemma append_all_write_records:
  "write_records crc cap recs s = (Inr u, s') \<Longrightarrow> append_all crc cap recs s = (Inr u, s')"
  by (induction recs arbitrary: s)
    (auto simp: sbind_def append_def split: prod.splits sum.splits)

text \<open>\<open>append_batch\<close> is the whole-batch form of \<open>append\<close> for every record followed by
  \<open>commit\<close>: whenever it acknowledges a batch from a sink with nothing to heal, the separate calls,
  meeting the same outcomes of the system calls, acknowledge it too and reach the same state.\<close>

theorem append_batch_is_appends_then_commit:
  assumes "cur_len s = committed_len s" "append_batch crc cap recs q s = (Inr u, s')"
  shows "sbind (append_all crc cap recs) (\<lambda>_. commit crc cap q) s = (Inr u, s')"
proof -
  have "batch_body crc cap recs q s = (Inr u, s')"
    using assms by (auto simp: heal_at_rest with_rollback_def split: prod.splits sum.splits)
  then obtain s1 where "write_records crc cap recs s = (Inr (), s1)" "write_commit_frame crc cap q s1 = (Inr u, s')"
    by (auto simp: batch_body_def sbind_def split: prod.splits sum.splits)
  then show ?thesis by (simp add: sbind_def append_all_write_records commit_def)
qed

section \<open>Concrete instances\<close>

definition sample_sink :: "io list \<Rightarrow> wal_sink" where
  "sample_sink fs = fresh_sink 3 None [] fs\<lparr>fdata := WAL_MAGIC, fpos := 8\<rparr>"

lemma sample_sink_at_rest: "at_rest crc [] (sample_sink fs)"
  unfolding at_rest_def log_image_def
  by (rule exI [of _ WAL_MAGIC])
    (auto simp: sample_sink_def fresh_sink_def committed_def floor_ok_def log_frames_def magic_of_def intro: stream_Nil)

lemma sample_sink_cipher: "cipher (sample_sink fs) = None" "faults (sample_sink fs) = fs"
  by (simp_all add: sample_sink_def fresh_sink_def)

lemma batches_ok_sample: "batches_ok [([sample_record], 1)]"
  using sample_ok(2) by (simp add: batches_ok_def sample_batch_def)

theorem append_batch_single_fault_witness:
  "let (r, s') = append_batch (\<lambda>_. 7) 8192 [sample_record] 1 (sample_sink [IoOk, IoFail 0])
   in at_rest (\<lambda>_. 7) (if isl r then [] else [([sample_record], 1)]) s' \<and>
      replay_bytes (\<lambda>_. 7) None (synced s') replay_default =
        Inr (replay_of (if isl r then [] else [([sample_record], 1)]))"
  using append_batch_single_fault [OF sample_sink_at_rest, of "[IoOk, IoFail 0]" "[sample_record]" 1 "\<lambda>_. 7" 8192]
    batches_ok_sample
  by (auto simp: sample_sink_cipher faulty_def cipher_ok_def split: prod.splits)

theorem append_batch_acked_is_durable_witness:
  "let (r, s') = append_batch (\<lambda>_. 7) 8192 [sample_record] 1 (sample_sink [IoFail 2, IoFail 0, IoFail 0])
   in if isl r then log_floor (\<lambda>_. 7) [] s'
      else replay_bytes (\<lambda>_. 7) None (synced s') replay_default = Inr (replay_of [([sample_record], 1)])"
proof -
  have "tracked (\<lambda>_. 7) [] (sample_sink [IoFail 2, IoFail 0, IoFail 0])"
    using sample_sink_at_rest [of "\<lambda>_. 7" "[IoFail 2, IoFail 0, IoFail 0]"]
    by (auto simp: tracked_def log_floor_def at_rest_def committed_def)
  from append_batch_acked_is_durable [OF this, of "[sample_record]" 1 8192] show ?thesis
    using batches_ok_sample
    by (auto simp: sample_sink_cipher cipher_ok_def split: prod.splits if_splits)
qed

definition long_record :: wal_record where
  "long_record = \<lparr>rseq = 1, rop = DeleteNode (replicate 100 80) (ascii ''id'') (VInt 5)\<rparr>"

theorem acked_batch_lost_behind_stray_header_witness:
  "let (r1, s1) = append_batch (\<lambda>_. 7) 64 [long_record] 1 (sample_sink [IoFail 0, IoFail 0]);
       (r2, s2) = append_batch (\<lambda>_. 7) 64 [sample_record] 1 s1
   in isl r1 \<and> r2 = Inr () \<and> replay_bytes (\<lambda>_. 7) None (synced s2) replay_default = Inr (replay_of [])"
proof -
  note b = uvarint_len_le [of 1] uvarint_len_le [of 2] uvarint_len_le [of 100] uvarint_len_le [of "zigzag 5"]
  have long: "100 < length (encode_payload long_record)" "length (encode_payload long_record) < 2 ^ 32"
    using b by (simp_all add: long_record_def encode_payload_def write_key3_def write_str_def length_write_uvarint ascii_def)
  have "length (plain_stream (\<lambda>_. 7) (batch_items ([sample_record], 1))) < 100"
    using b by (simp add: plain_stream_def batch_items_def length_write_frame frame_len_def sample_record_def
        encode_payload_def write_key3_def write_str_def length_write_uvarint ascii_def)
  then show ?thesis
    using acked_batch_lost_behind_stray_header [OF sample_sink_at_rest, of "[IoFail 0, IoFail 0]" 64 long_record
        "[sample_record]" "\<lambda>_. 7" 1 1] long sample_ok(1)
    by (auto simp: sample_sink_cipher batches_ok_def split: prod.splits)
qed

theorem append_batch_acks_witness:
  "\<exists>s'. append_batch (\<lambda>_. 7) 8192 [sample_record] 1 (sample_sink [IoOk]) = (Inr (), s')"
  by (rule append_batch_acks [OF sample_sink_at_rest])
    (use sample_ok(1) in \<open>simp_all add: sample_sink_cipher cipher_ok_def\<close>)

theorem append_batch_is_appends_then_commit_witness:
  "\<exists>s'. sbind (append_all (\<lambda>_. 7) 8192 [sample_record]) (\<lambda>_. commit (\<lambda>_. 7) 8192 1) (sample_sink []) = (Inr (), s')"
proof -
  obtain s' where "append_batch (\<lambda>_. 7) 8192 [sample_record] 1 (sample_sink []) = (Inr (), s')"
    using append_batch_no_fault [OF sample_sink_at_rest, of "[]" "[sample_record]" "\<lambda>_. 7" 8192 1] sample_ok(1)
    by (auto simp: sample_sink_cipher cipher_ok_def faulty_def)
  moreover have "cur_len (sample_sink []) = committed_len (sample_sink [])"
    by (simp add: sample_sink_def fresh_sink_def)
  ultimately show ?thesis using append_batch_is_appends_then_commit by blast
qed

end
