(* ===== verification/L0_Segment.thy ===== *)
theory L0_Segment
  imports Memtable_Image Wal_Sink
begin

text \<open>
  Sealed level files, \<^verbatim>\<open>L0Segment\<close> of \<^verbatim>\<open>slater-delta/src/l0.rs\<close>: the image of a memtable staged in a
  temporary file, synced and renamed into place, over a directory whose every call may fail. A name
  becomes durable with the sync of the directory; after a power loss each name holds either what was
  durable or what was visible.
\<close>

section \<open>The directory\<close>

text \<open>Level files by number; \<open>lf_tmp\<close> the staging files, which no reader lists.\<close>

record l0_dir =
  lf_files :: "(u64, byte list) fmap"
  lf_durable :: "(u64, byte list) fmap"
  lf_tmp :: "(u64, byte list) fmap"
  lf_faults :: "io list"

type_synonym 'a l0_op = "l0_dir \<Rightarrow> (error + 'a) \<times> l0_dir"

definition l0_call :: "l0_dir \<Rightarrow> io \<times> l0_dir" where
  "l0_call d = (case lf_faults d of [] \<Rightarrow> (IoOk, d) | f # fs \<Rightarrow> (f, d\<lparr>lf_faults := fs\<rparr>))"

definition l0_step :: "(l0_dir \<Rightarrow> l0_dir) \<Rightarrow> (nat \<Rightarrow> l0_dir \<Rightarrow> l0_dir) \<Rightarrow> unit l0_op" where
  "l0_step ok fail d = (case l0_call d of (IoOk, d') \<Rightarrow> (Inr (), ok d') | (IoFail k, d') \<Rightarrow> (Inl IoError, fail k d'))"

definition crash_image :: "l0_dir \<Rightarrow> (u64, byte list) fmap \<Rightarrow> bool" where
  "crash_image d f \<longleftrightarrow> (\<forall>n. fmlookup f n \<in> {fmlookup (lf_files d) n, fmlookup (lf_durable d) n})"

section \<open>Writing and opening\<close>

definition L0_MAGIC :: "byte list" where "L0_MAGIC = ascii ''SLL0SEG1''"

definition L0_MAGIC_SEALED :: "byte list" where "L0_MAGIC_SEALED = ascii ''SLL0SEGE''"

definition l0_file_name :: "u64 \<Rightarrow> str" where
  "l0_file_name n = (let d = decimal (unat n) in replicate (10 - length d) 48 @ d @ ascii ''.l0'')"

record l0_segment =
  ls_path :: u64
  ls_mem :: memtable

definition frame_segment ::
    "(byte list \<Rightarrow> u32) \<Rightarrow> delta_cipher option \<Rightarrow> byte list \<Rightarrow> u64 \<Rightarrow> memtable \<Rightarrow> error + byte list" where
  "frame_segment crc cph nonce n mem =
     frame_blob crc L0_MAGIC L0_MAGIC_SEALED (bind_cipher cph (l0_name (l0_file_name n) None)) nonce (serialise mem)"

text \<open>The rename, and the sync of the directory whose failure is discarded.\<close>

definition rename_tmp :: "u64 \<Rightarrow> l0_dir \<Rightarrow> l0_dir" where
  "rename_tmp n d = (case fmlookup (lf_tmp d) n of None \<Rightarrow> d
     | Some bs \<Rightarrow> d\<lparr>lf_files := fmupd n bs (lf_files d), lf_tmp := fmdrop n (lf_tmp d)\<rparr>)"

definition sync_l0_dir :: "unit l0_op" where
  "sync_l0_dir d = (case l0_call d of
       (IoFail _, d1) \<Rightarrow> (Inr (), d1)
     | (IoOk, d1) \<Rightarrow> (case l0_call d1 of
         (IoFail _, d2) \<Rightarrow> (Inr (), d2)
       | (IoOk, d2) \<Rightarrow> (Inr (), d2\<lparr>lf_durable := lf_files d2\<rparr>)))"

definition l0_write ::
    "(byte list \<Rightarrow> u32) \<Rightarrow> delta_cipher option \<Rightarrow> byte list \<Rightarrow> memtable \<Rightarrow> u64 \<Rightarrow> unit l0_op" where
  "l0_write crc cph nonce mem n d =
     (case frame_segment crc cph nonce n mem of Inl e \<Rightarrow> (Inl e, d)
      | Inr framed \<Rightarrow>
        sbind (l0_step (\<lambda>d. d\<lparr>lf_tmp := fmupd n [] (lf_tmp d)\<rparr>) (\<lambda>_ d. d)) (\<lambda>_.
        sbind (l0_step (\<lambda>d. d\<lparr>lf_tmp := fmupd n framed (lf_tmp d)\<rparr>) (\<lambda>k d. d\<lparr>lf_tmp := fmupd n (take k framed) (lf_tmp d)\<rparr>)) (\<lambda>_.
        sbind (l0_step (\<lambda>d. d) (\<lambda>_ d. d)) (\<lambda>_.
        sbind (l0_step (rename_tmp n) (\<lambda>_ d. d)) (\<lambda>_.
        sync_l0_dir)))) d)"

text \<open>Opening a file that was read whole.\<close>

definition l0_parse :: "(byte list \<Rightarrow> u32) \<Rightarrow> delta_cipher option \<Rightarrow> u64 \<Rightarrow> byte list \<Rightarrow> error + l0_segment" where
  "l0_parse crc cph n bytes =
     (case unframe_blob crc L0_MAGIC L0_MAGIC_SEALED (bind_cipher cph (l0_name (l0_file_name n) None)) bytes of
        Inl e \<Rightarrow> Inl e
      | Inr body \<Rightarrow> (case deserialise body of Inl e \<Rightarrow> Inl e | Inr m \<Rightarrow> Inr \<lparr>ls_path = n, ls_mem = m\<rparr>))"

definition l0_open :: "(byte list \<Rightarrow> u32) \<Rightarrow> delta_cipher option \<Rightarrow> u64 \<Rightarrow> l0_segment l0_op" where
  "l0_open crc cph n d = (case l0_call d of
       (IoFail _, d') \<Rightarrow> (Inl IoError, d')
     | (IoOk, d') \<Rightarrow> (case fmlookup (lf_files d') n of None \<Rightarrow> (Inl IoError, d')
         | Some bytes \<Rightarrow> (l0_parse crc cph n bytes, d')))"

section \<open>Round trip and atomicity\<close>

definition l0_cipher_ok :: "delta_cipher option \<Rightarrow> bool" where
  "l0_cipher_ok cph \<longleftrightarrow> (case cph of None \<Rightarrow> True | Some c \<Rightarrow> \<forall>name. aead_ok (c name))"

lemma l0_parse_frame:
  assumes "memtable_ok \<rho> \<sigma> mem" "image_storable mem" "length (serialise mem) \<le> AEAD_MAX"
    and "l0_cipher_ok cph" "length nonce = NONCE_LEN"
  shows "\<exists>img. frame_segment crc cph nonce n mem = Inr img \<and> l0_parse crc cph n img = Inr \<lparr>ls_path = n, ls_mem = mem\<rparr>"
proof -
  have "case bind_cipher cph (l0_name (l0_file_name n) None) of None \<Rightarrow> True | Some c \<Rightarrow> aead_ok c"
    using assms(4) by (auto simp: bind_cipher_def l0_cipher_ok_def split: option.splits)
  moreover have "length L0_MAGIC = 8" "length L0_MAGIC_SEALED = 8" "L0_MAGIC \<noteq> L0_MAGIC_SEALED"
    by (simp_all add: L0_MAGIC_def L0_MAGIC_SEALED_def ascii_def)
  ultimately obtain img where "frame_segment crc cph nonce n mem = Inr img"
    "unframe_blob crc L0_MAGIC L0_MAGIC_SEALED (bind_cipher cph (l0_name (l0_file_name n) None)) img = Inr (serialise mem)"
    using frame_blob_ok [OF _ _ _ assms(5,3)] unfolding frame_segment_def by metis
  then show ?thesis using deserialise_serialise [OF assms(1,2)] by (simp add: l0_parse_def)
qed

lemma l0_call_cases:
  obtains f fs where "l0_call d = (f, d\<lparr>lf_faults := fs\<rparr>)"
  by (cases "lf_faults d") (auto simp: l0_call_def intro: that [of IoOk "lf_faults d"])

lemma sync_l0_dir_cases:
  "\<exists>fs. sync_l0_dir d = (Inr (), d\<lparr>lf_faults := fs\<rparr>) \<or>
        sync_l0_dir d = (Inr (), d\<lparr>lf_faults := fs, lf_durable := lf_files d\<rparr>)"
proof -
  obtain f fs where 1: "l0_call d = (f, d\<lparr>lf_faults := fs\<rparr>)" by (rule l0_call_cases)
  obtain f' fs' where 2: "l0_call (d\<lparr>lf_faults := fs\<rparr>) = (f', d\<lparr>lf_faults := fs'\<rparr>)"
    by (rule l0_call_cases [of "d\<lparr>lf_faults := fs\<rparr>"]) simp
  show ?thesis by (cases f; cases f') (auto simp: sync_l0_dir_def 1 2)
qed

text \<open>Whatever fails, the write leaves the visible names untouched or adds the whole image.\<close>

lemma triple_l0_step:
  assumes "\<And>d fs. P d \<Longrightarrow> Q (ok (d\<lparr>lf_faults := fs\<rparr>))" "\<And>d k fs. P d \<Longrightarrow> E IoError (fail k (d\<lparr>lf_faults := fs\<rparr>))"
  shows "triple P (l0_step ok fail) Q E"
  unfolding triple_def
proof (intro allI impI)
  fix d assume "P d"
  obtain f fs where "l0_call d = (f, d\<lparr>lf_faults := fs\<rparr>)" by (rule l0_call_cases)
  then show "case l0_step ok fail d of (Inl e, s') \<Rightarrow> E e s' | (Inr _, s') \<Rightarrow> Q s'"
    using assms \<open>P d\<close> by (cases f) (simp_all add: l0_step_def)
qed

lemma l0_write_triple:
  assumes "frame_segment crc cph nonce n mem = Inr img"
  shows "triple (\<lambda>d. lf_files d = F \<and> lf_durable d = D) (l0_write crc cph nonce mem n)
    (\<lambda>d. lf_files d = fmupd n img F \<and> (lf_durable d = D \<or> lf_durable d = lf_files d))
    (\<lambda>_ d. lf_files d = F \<and> lf_durable d = D)"
proof -
  let ?P = "\<lambda>d :: l0_dir. lf_files d = F \<and> lf_durable d = D"
  have sync: "triple (\<lambda>d. lf_files d = fmupd n img F \<and> lf_durable d = D) sync_l0_dir
    (\<lambda>d. lf_files d = fmupd n img F \<and> (lf_durable d = D \<or> lf_durable d = lf_files d)) (\<lambda>_. ?P)"
    unfolding triple_def
  proof (intro allI impI)
    fix d :: l0_dir assume "lf_files d = fmupd n img F \<and> lf_durable d = D"
    then show "case sync_l0_dir d of (Inl e, s') \<Rightarrow> ?P s'
      | (Inr _, s') \<Rightarrow> lf_files s' = fmupd n img F \<and> (lf_durable s' = D \<or> lf_durable s' = lf_files s')"
      using sync_l0_dir_cases [of d] by auto
  qed
  show ?thesis
    unfolding l0_write_def assms sum.case
    by (rule triple_sbind [where Q = ?P], rule triple_l0_step, simp_all,
        rule triple_sbind [where Q = "\<lambda>d. ?P d \<and> fmlookup (lf_tmp d) n = Some img"], rule triple_l0_step, simp_all,
        rule triple_sbind [where Q = "\<lambda>d. ?P d \<and> fmlookup (lf_tmp d) n = Some img"], rule triple_l0_step, simp_all,
        rule triple_sbind [OF _ sync], rule triple_l0_step, simp_all add: rename_tmp_def)
qed

lemma l0_write_cases:
  assumes "frame_segment crc cph nonce n mem = Inr img" "l0_write crc cph nonce mem n d = (r, d')"
  shows "isl r \<and> lf_files d' = lf_files d \<and> lf_durable d' = lf_durable d \<or>
    r = Inr () \<and> lf_files d' = fmupd n img (lf_files d) \<and> (lf_durable d' = lf_durable d \<or> lf_durable d' = lf_files d')"
  using l0_write_triple [OF assms(1), of "lf_files d" "lf_durable d"] assms(2)
  unfolding triple_def by (cases r) fastforce+

section \<open>Properties of level files\<close>

text \<open>C16: Writing a level file is atomic under every pattern of failures and a power loss at any later
  moment: at the file's name there is afterwards either what could be there before or the complete
  image, every other name is untouched, a failed write leaves all names as they were, and a complete
  image opens to the very memtable that was written.\<close>

theorem l0_write_is_atomic:
  assumes "memtable_ok \<rho> \<sigma> mem" "image_storable mem" "length (serialise mem) \<le> AEAD_MAX"
    and "l0_cipher_ok cph" "length nonce = NONCE_LEN"
    and "l0_write crc cph nonce mem n d = (r, d')"
  shows "\<exists>img. l0_parse crc cph n img = Inr \<lparr>ls_path = n, ls_mem = mem\<rparr> \<and>
    (isl r \<longrightarrow> lf_files d' = lf_files d) \<and> (\<not> isl r \<longrightarrow> fmlookup (lf_files d') n = Some img) \<and>
    (\<forall>f. crash_image d' f \<longrightarrow> (if fmlookup f n = Some img \<and> \<not> isl r then \<exists>g. crash_image d g \<and> f = fmupd n img g
       else crash_image d f))"
proof -
  obtain img where img: "frame_segment crc cph nonce n mem = Inr img" "l0_parse crc cph n img = Inr \<lparr>ls_path = n, ls_mem = mem\<rparr>"
    using l0_parse_frame [OF assms(1-5)] by blast
  have crash: "if fmlookup f n = Some img \<and> \<not> isl r then \<exists>g. crash_image d g \<and> f = fmupd n img g else crash_image d f"
    if f: "crash_image d' f" for f
  proof (cases "isl r")
    case True
    then show ?thesis using f l0_write_cases [OF img(1) assms(6)] by (auto simp: crash_image_def)
  next
    case False
    then have w: "lf_files d' = fmupd n img (lf_files d)" "lf_durable d' = lf_durable d \<or> lf_durable d' = fmupd n img (lf_files d)"
      using l0_write_cases [OF img(1) assms(6)] by auto
    have other: "fmlookup f k \<in> {fmlookup (lf_files d) k, fmlookup (lf_durable d) k}" if "k \<noteq> n" for k
      using f w that unfolding crash_image_def by (metis fmupd_lookup insert_iff)
    show ?thesis
    proof (cases "fmlookup f n = Some img")
      case True
      define g where "g = (case fmlookup (lf_files d) n of None \<Rightarrow> fmdrop n f | Some b \<Rightarrow> fmupd n b f)"
      have "fmlookup g n = fmlookup (lf_files d) n" by (auto simp: g_def split: option.splits)
      moreover have "fmlookup g k = fmlookup f k" if "k \<noteq> n" for k using that by (auto simp: g_def split: option.splits)
      ultimately have "crash_image d g" using other unfolding crash_image_def by (metis insert_iff)
      moreover have "f = fmupd n img g"
        using True by (intro fmap_ext) (auto simp: g_def split: option.splits)
      ultimately show ?thesis using True False by auto
    next
      case no: False
      have "fmlookup f n \<in> {fmlookup (lf_files d) n, fmlookup (lf_durable d) n}"
        using f w no unfolding crash_image_def by (metis fmupd_lookup insert_iff singletonD)
      then have "crash_image d f" using other unfolding crash_image_def by (metis (no_types))
      then show ?thesis using no by simp
    qed
  qed
  then show ?thesis using img(2) l0_write_cases [OF img(1) assms(6)] by (intro exI [of _ img]) auto
qed

theorem l0_write_is_atomic_witness:
  "\<exists>img. l0_parse (\<lambda>_. 7) None 3 img = Inr \<lparr>ls_path = 3, ls_mem = ex_mem\<rparr> \<and>
    fmlookup (lf_files (snd (l0_write (\<lambda>_. 7) None (replicate 24 0) ex_mem 3
      \<lparr>lf_files = fmempty, lf_durable = fmempty, lf_tmp = fmempty, lf_faults = []\<rparr>))) 3 = Some img"
proof -
  let ?d = "\<lparr>lf_files = fmempty, lf_durable = fmempty, lf_tmp = fmempty, lf_faults = []\<rparr>"
  have "length (serialise ex_mem) < 1000" by code_simp
  then have "length (serialise ex_mem) \<le> AEAD_MAX" by (simp add: AEAD_MAX_def)
  moreover note ex_mem_memtable_ok
  moreover obtain r d' where w: "l0_write (\<lambda>_. 7) None (replicate 24 0) ex_mem 3 ?d = (r, d')" by (rule prod.exhaust)
  moreover have "\<not> isl r"
    using w by (auto simp: l0_write_def frame_segment_def frame_blob_def bind_cipher_def sbind_def l0_step_def l0_call_def sync_l0_dir_def rename_tmp_def)
  ultimately show ?thesis
    using l0_write_is_atomic [of ex_resolver "\<lambda>_. None" ex_mem None "replicate 24 0" "\<lambda>_. 7" 3 ?d r d'] ex_mem_storable
    by (auto simp: l0_cipher_ok_def NONCE_LEN_def)
qed

text \<open>The result of the directory's sync is discarded: a write can be acknowledged and its name still be
  lost to a power failure, although the log segments it replaces are then deleted.\<close>

lemma l0_write_acks_volatile_name:
  assumes "lf_faults d = [IoOk, IoOk, IoOk, IoOk, IoOk, IoFail 0]" "frame_segment crc cph nonce n mem = Inr img"
  shows "l0_write crc cph nonce mem n d = (r, d') \<Longrightarrow> r = Inr () \<and> lf_durable d' = lf_durable d"
  using assms by (auto simp: l0_write_def sbind_def l0_step_def l0_call_def sync_l0_dir_def rename_tmp_def)

end
