(* ===== verification/Compaction_Run.thy ===== *)
theory Compaction_Run
  imports Slater_Prelude
begin

text \<open>
  Which sealed levels a compaction merges: \<^verbatim>\<open>select_compaction_run\<close> and
  \<^verbatim>\<open>select_compaction_run_in_stack\<close> of \<^verbatim>\<open>slater/src/delta_writer.rs\<close>. The run it picks is a
  contiguous stretch of at least two levels of one format and one size tier, and it picks none only
  when no two neighbours could be merged.
\<close>

section \<open>Selection\<close>

definition SIZE_TIER_RATIO :: u64 where
  "SIZE_TIER_RATIO = 4"

definition saturating_mul :: "u64 \<Rightarrow> u64 \<Rightarrow> u64" where
  "saturating_mul a b = (if b = 0 \<or> a \<le> (- 1) div b then a * b else - 1)"

lemma saturating_mul_nat: "saturating_mul a b = (if unat a * unat b < 2 ^ 64 then a * b else - 1)"
proof (cases "b = 0")
  case False
  then have b: "0 < unat b" by (simp add: unat_gt_0)
  have top: "unat (- 1 :: u64) = 2 ^ 64 - 1" by (simp add: unsigned_minus_1_eq_mask mask_eq_exp_minus_1)
  have "a \<le> (- 1) div b \<longleftrightarrow> unat a \<le> (2 ^ 64 - 1) div unat b"
    unfolding word_le_nat_alt unat_div_distrib top ..
  also have "\<dots> \<longleftrightarrow> unat a * unat b \<le> 2 ^ 64 - 1" using b by (rule less_eq_div_iff_mult_less_eq)
  also have "\<dots> \<longleftrightarrow> unat a * unat b < 2 ^ 64" by (simp add: less_Suc_eq_le [symmetric])
  finally show ?thesis using False by (simp add: saturating_mul_def)
qed (simp add: saturating_mul_def)

text \<open>The inner loop: extend the run while its smallest and largest size stay within the ratio.\<close>

function extend_run :: "u64 list \<Rightarrow> u64 \<Rightarrow> u64 \<Rightarrow> nat \<Rightarrow> nat" where
  "extend_run sizes lo hi j =
     (if j < length sizes
      then let s = max (sizes ! j) 1; nlo = min lo s; nhi = max hi s
           in if nhi > saturating_mul nlo SIZE_TIER_RATIO then j else extend_run sizes nlo nhi (j + 1)
      else j)"
  by pat_completeness auto
termination by (relation "measure (\<lambda>(sizes, lo, hi, j). length sizes - j)") auto

declare extend_run.simps [simp del]

definition take_run :: "nat \<Rightarrow> nat \<Rightarrow> (nat \<times> nat) option \<Rightarrow> (nat \<times> nat) option" where
  "take_run s e best = (case best of None \<Rightarrow> Some (s, e)
     | Some (bs, be) \<Rightarrow> if e - s \<ge> be - bs then Some (s, e) else best)"

function select_from :: "u64 list \<Rightarrow> nat \<Rightarrow> (nat \<times> nat) option \<Rightarrow> (nat \<times> nat) option" where
  "select_from sizes i best =
     (if i < length sizes
      then let j = extend_run sizes (max (sizes ! i) 1) (max (sizes ! i) 1) (i + 1);
               best' = (if j - i \<ge> 2 then take_run i j best else best)
           in select_from sizes (max j (i + 1)) best'
      else best)"
  by pat_completeness auto
termination by (relation "measure (\<lambda>(sizes, i, best). length sizes - i)") auto

declare select_from.simps [simp del]

definition select_compaction_run :: "u64 list \<Rightarrow> (nat \<times> nat) option" where
  "select_compaction_run sizes = select_from sizes 0 None"

function span_end :: "bool list \<Rightarrow> nat \<Rightarrow> nat \<Rightarrow> nat" where
  "span_end off_heap start e =
     (if e < length off_heap \<and> off_heap ! e = off_heap ! start then span_end off_heap start (e + 1) else e)"
  by pat_completeness auto
termination by (relation "measure (\<lambda>(off_heap, start, e). length off_heap - e)") auto

declare span_end.simps [simp del]

lemma span_end_ge: "e \<le> span_end off_heap start e"
proof (induction off_heap start e rule: span_end.induct)
  case (1 off_heap start e)
  then show ?case by (subst span_end.simps) (auto dest: Suc_leD)
qed

function select_spans :: "u64 list \<Rightarrow> bool list \<Rightarrow> nat \<Rightarrow> (nat \<times> nat) option \<Rightarrow> (nat \<times> nat) option" where
  "select_spans sizes off_heap start best =
     (if start < length off_heap
      then let e = span_end off_heap start (start + 1);
               best' = (case select_compaction_run (take (e - start) (drop start sizes)) of None \<Rightarrow> best
                 | Some (rs, re) \<Rightarrow> take_run (start + rs) (start + re) best)
           in select_spans sizes off_heap e best'
      else best)"
  by pat_completeness auto
termination
proof (relation "measure (\<lambda>(sizes, off_heap, start, best). length off_heap - start)")
  fix sizes :: "u64 list" and off_heap start and best best' :: "(nat \<times> nat) option" and e
  assume "start < length off_heap" "e = span_end off_heap start (start + 1)"
  then show "((sizes, off_heap, e, best'), sizes, off_heap, start, best) \<in>
      measure (\<lambda>(sizes, off_heap, start, best). length off_heap - start)"
    using span_end_ge [of "start + 1" off_heap start] by simp
qed simp

declare select_spans.simps [simp del]

text \<open>The loop bound is \<^verbatim>\<open>sizes.len()\<close>, equal to \<^verbatim>\<open>off_heap.len()\<close> by the assertion.\<close>

definition select_compaction_run_in_stack :: "u64 list \<Rightarrow> bool list \<Rightarrow> (nat \<times> nat) option" where
  "select_compaction_run_in_stack sizes off_heap = select_spans sizes off_heap 0 None"

section \<open>Tiers\<close>

definition tier_size :: "u64 list \<Rightarrow> nat \<Rightarrow> u64" where
  "tier_size sizes k = max (sizes ! k) 1"

text \<open>Levels \<open>i\<close> to \<open>j\<close>, the last excluded, are one tier: no size exceeds the ratio times another.\<close>

definition one_tier :: "u64 list \<Rightarrow> nat \<Rightarrow> nat \<Rightarrow> bool" where
  "one_tier sizes i j \<longleftrightarrow> (\<forall>a b. i \<le> a \<longrightarrow> a < j \<longrightarrow> i \<le> b \<longrightarrow> b < j \<longrightarrow>
     tier_size sizes a \<le> saturating_mul (tier_size sizes b) SIZE_TIER_RATIO)"

lemma saturating_mul_mono: "a \<le> b \<Longrightarrow> saturating_mul a c \<le> saturating_mul b c"
proof -
  assume "a \<le> b"
  then have ab: "unat a * unat c \<le> unat b * unat c" by (simp add: word_le_nat_alt)
  show ?thesis
  proof (cases "unat b * unat c < 2 ^ 64")
    case True
    moreover from this have lt: "unat a * unat c < 2 ^ 64" using ab by linarith
    ultimately have "unat (a * c) = unat a * unat c" "unat (b * c) = unat b * unat c"
      by (simp_all add: unat_word_ariths)
    then show ?thesis using True ab lt by (simp add: saturating_mul_nat word_le_nat_alt)
  qed (simp add: saturating_mul_nat)
qed

lemma extend_run_spec:
  assumes "i < j" "j \<le> length sizes" "one_tier sizes i j"
    and "lo \<in> tier_size sizes ` {i..<j}" "hi \<in> tier_size sizes ` {i..<j}"
    and "\<forall>k \<in> {i..<j}. lo \<le> tier_size sizes k \<and> tier_size sizes k \<le> hi"
  defines "e \<equiv> extend_run sizes lo hi j"
  shows "j \<le> e \<and> e \<le> length sizes \<and> one_tier sizes i e \<and> (e < length sizes \<longrightarrow> \<not> one_tier sizes i (e + 1))"
  using assms(1-6) unfolding e_def
proof (induction sizes lo hi j rule: extend_run.induct)
  case (1 sizes lo hi j)
  show ?case
  proof (cases "j < length sizes")
    case True
    let ?s = "tier_size sizes j" let ?lo = "min lo ?s" and ?hi = "max hi ?s"
    have upto: "{i..<j + 1} = insert j {i..<j}" using 1(2) by auto
    have bounds: "\<forall>k \<in> {i..<j + 1}. ?lo \<le> tier_size sizes k \<and> tier_size sizes k \<le> ?hi"
      using 1(7) unfolding upto by (auto simp: min_le_iff_disj le_max_iff_disj)
    have mem: "?lo \<in> tier_size sizes ` {i..<j + 1}" "?hi \<in> tier_size sizes ` {i..<j + 1}"
      using 1(5,6) unfolding upto by (auto simp: min_def max_def)
    have tier: "one_tier sizes i (j + 1) \<longleftrightarrow> ?hi \<le> saturating_mul ?lo SIZE_TIER_RATIO"
    proof
      assume t: "one_tier sizes i (j + 1)"
      obtain a b where "a \<in> {i..<j + 1}" "?hi = tier_size sizes a" "b \<in> {i..<j + 1}" "?lo = tier_size sizes b"
        using mem by blast
      then show "?hi \<le> saturating_mul ?lo SIZE_TIER_RATIO" using t unfolding one_tier_def by simp
    next
      assume h: "?hi \<le> saturating_mul ?lo SIZE_TIER_RATIO"
      show "one_tier sizes i (j + 1)"
        unfolding one_tier_def
      proof (intro allI impI)
        fix a b assume "i \<le> a" "a < j + 1" "i \<le> b" "b < j + 1"
        then have "tier_size sizes a \<le> ?hi" "?lo \<le> tier_size sizes b" using bounds by auto
        then show "tier_size sizes a \<le> saturating_mul (tier_size sizes b) SIZE_TIER_RATIO"
          using h saturating_mul_mono order_trans by meson
      qed
    qed
    show ?thesis
    proof (cases "?hi > saturating_mul ?lo SIZE_TIER_RATIO")
      case stop: True
      then have "extend_run sizes lo hi j = j"
        using True by (subst extend_run.simps) (simp add: tier_size_def Let_def)
      moreover have "\<not> one_tier sizes i (j + 1)" using tier stop by (simp only: not_le)
      ultimately show ?thesis using 1(3,4) True by simp
    next
      case go: False
      then have e: "extend_run sizes lo hi j = extend_run sizes ?lo ?hi (j + 1)"
        using True by (subst extend_run.simps) (simp add: tier_size_def Let_def)
      have t: "one_tier sizes i (j + 1)" using tier go by (simp only: not_less)
      have "i < j + 1" "j + 1 \<le> length sizes" using 1(2) True by simp_all
      from "1.IH" [OF True refl refl refl, folded tier_size_def, OF go this t mem bounds]
      show ?thesis unfolding e by simp
    qed
  next
    case False
    then show ?thesis using 1(3,4) by (simp add: extend_run.simps)
  qed
qed

lemma first_run_spec:
  assumes "i < length sizes"
  defines "e \<equiv> extend_run sizes (max (sizes ! i) 1) (max (sizes ! i) 1) (i + 1)"
  shows "i + 1 \<le> e \<and> e \<le> length sizes \<and> one_tier sizes i e \<and> (e < length sizes \<longrightarrow> \<not> one_tier sizes i (e + 1))"
proof -
  have "tier_size sizes i \<le> saturating_mul (tier_size sizes i) SIZE_TIER_RATIO"
  proof (cases "unat (tier_size sizes i) * 4 < 2 ^ 64")
    case True
    then have "unat (tier_size sizes i * 4) = unat (tier_size sizes i) * 4" by (simp add: unat_word_ariths)
    then show ?thesis using True by (simp add: saturating_mul_nat SIZE_TIER_RATIO_def word_le_nat_alt)
  qed (simp add: saturating_mul_nat SIZE_TIER_RATIO_def)
  moreover have "a = i" if "i \<le> a" "a < i + 1" for a using that by linarith
  ultimately have "one_tier sizes i (i + 1)" unfolding one_tier_def by metis
  moreover have "{i..<i + 1} = {i}" by auto
  ultimately show ?thesis
    unfolding e_def using assms(1) by (intro extend_run_spec) (simp_all add: tier_size_def)
qed

section \<open>The selected run\<close>

definition run_ok :: "u64 list \<Rightarrow> nat \<Rightarrow> nat \<Rightarrow> bool" where
  "run_ok sizes s e \<longleftrightarrow> s + 2 \<le> e \<and> e \<le> length sizes \<and> one_tier sizes s e"

lemma take_run_cases: "take_run s e best = Some r \<Longrightarrow> r = (s, e) \<or> best = Some r"
  by (auto simp: take_run_def split: option.splits if_splits)

lemma take_run_None [simp]: "take_run s e best \<noteq> None"
  by (auto simp: take_run_def split: option.splits)

lemma select_from_step:
  "i < length sizes \<Longrightarrow> select_from sizes i best =
     (let j = extend_run sizes (max (sizes ! i) 1) (max (sizes ! i) 1) (i + 1)
      in select_from sizes (max j (i + 1)) (if j - i \<ge> 2 then take_run i j best else best))"
  by (subst select_from.simps) (simp only: if_True Let_def)

lemma select_from_sound:
  assumes "\<And>s e. best = Some (s, e) \<Longrightarrow> run_ok sizes s e" "select_from sizes i best = Some (s, e)"
  shows "run_ok sizes s e"
  using assms
proof (induction sizes i best rule: select_from.induct)
  case (1 sizes i best)
  show ?case
  proof (cases "i < length sizes")
    case True
    let ?j = "extend_run sizes (max (sizes ! i) 1) (max (sizes ! i) 1) (i + 1)"
    let ?best = "if ?j - i \<ge> 2 then take_run i ?j best else best"
    have "run_ok sizes s e" if "?best = Some (s, e)" for s e
    proof (cases "?j - i \<ge> 2 \<and> (s, e) = (i, ?j)")
      case j: True
      then have "s = i" "e = ?j" "i + 2 \<le> ?j" by auto
      then show ?thesis using first_run_spec [OF True] by (simp add: run_ok_def)
    next
      case False
      then have "best = Some (s, e)" using that take_run_cases [of i ?j best "(s, e)"] by (cases "?j - i \<ge> 2") auto
      then show ?thesis by (rule 1)
    qed
    moreover have "select_from sizes (max ?j (i + 1)) ?best = Some (s, e)"
      using 1(3) unfolding select_from_step [OF True] Let_def .
    ultimately show ?thesis using "1.IH" [OF True refl refl] by blast
  next
    case False
    then show ?thesis using 1(2,3) by (simp add: select_from.simps)
  qed
qed

lemma select_from_complete:
  assumes "select_from sizes i best = None"
  shows "best = None \<and> (\<forall>k. i \<le> k \<longrightarrow> k + 1 < length sizes \<longrightarrow> \<not> one_tier sizes k (k + 2))"
  using assms
proof (induction sizes i best rule: select_from.induct)
  case (1 sizes i best)
  show ?case
  proof (cases "i < length sizes")
    case True
    let ?j = "extend_run sizes (max (sizes ! i) 1) (max (sizes ! i) 1) (i + 1)"
    let ?best = "if ?j - i \<ge> 2 then take_run i ?j best else best"
    have "select_from sizes (max ?j (i + 1)) ?best = None"
      using 1(2) unfolding select_from_step [OF True] Let_def .
    from "1.IH" [OF True refl refl this]
    have best: "?best = None" and rest: "\<And>k. max ?j (i + 1) \<le> k \<Longrightarrow> k + 1 < length sizes \<Longrightarrow> \<not> one_tier sizes k (k + 2)"
      by auto
    from best have "\<not> ?j - i \<ge> 2" "best = None" by (auto split: if_splits)
    moreover have "i + 1 \<le> ?j" using first_run_spec [OF True] by blast
    ultimately have j: "?j = i + 1" by linarith
    have "\<not> one_tier sizes k (k + 2)" if "i \<le> k" "k + 1 < length sizes" for k
    proof (cases "k = i")
      case True
      then show ?thesis using that first_run_spec [OF \<open>i < length sizes\<close>] unfolding j by simp
    next
      case False
      then show ?thesis using that rest [of k] unfolding j by simp
    qed
    then show ?thesis using \<open>best = None\<close> by blast
  next
    case False
    then show ?thesis using 1(2) by (simp add: select_from.simps)
  qed
qed

lemma span_end_spec:
  assumes "start < e" "e \<le> length off_heap" "\<forall>k. start \<le> k \<longrightarrow> k < e \<longrightarrow> off_heap ! k = off_heap ! start"
  defines "e' \<equiv> span_end off_heap start e"
  shows "e \<le> e' \<and> e' \<le> length off_heap \<and> (\<forall>k. start \<le> k \<longrightarrow> k < e' \<longrightarrow> off_heap ! k = off_heap ! start) \<and>
    (e' < length off_heap \<longrightarrow> off_heap ! e' \<noteq> off_heap ! start)"
  using assms(1-3) unfolding e'_def
proof (induction off_heap start e rule: span_end.induct)
  case (1 off_heap start e)
  show ?case
  proof (cases "e < length off_heap \<and> off_heap ! e = off_heap ! start")
    case True
    have "e + 1 \<le> span_end off_heap start (e + 1) \<and> span_end off_heap start (e + 1) \<le> length off_heap \<and>
      (\<forall>k. start \<le> k \<longrightarrow> k < span_end off_heap start (e + 1) \<longrightarrow> off_heap ! k = off_heap ! start) \<and>
      (span_end off_heap start (e + 1) < length off_heap \<longrightarrow> off_heap ! span_end off_heap start (e + 1) \<noteq> off_heap ! start)"
    proof (rule "1.IH" [OF True])
      show "\<forall>k. start \<le> k \<longrightarrow> k < e + 1 \<longrightarrow> off_heap ! k = off_heap ! start"
        using True 1(4) by (metis Suc_eq_plus1 less_Suc_eq)
    qed (use True 1(2) in linarith)+
    moreover have "span_end off_heap start e = span_end off_heap start (e + 1)"
      using True by (subst span_end.simps) simp
    ultimately show ?thesis by (metis add_leD1)
  next
    case False
    then have "span_end off_heap start e = e" by (subst span_end.simps) auto
    then show ?thesis using 1(3,4) False by presburger
  qed
qed

lemma one_tier_slice:
  assumes "b \<le> n" "start + n \<le> length sizes"
  shows "one_tier (take n (drop start sizes)) a b = one_tier sizes (start + a) (start + b)"
proof -
  have t: "tier_size (take n (drop start sizes)) k = tier_size sizes (start + k)" if "k < b" for k
    using that assms by (simp add: tier_size_def)
  show ?thesis
  proof
    assume o: "one_tier (take n (drop start sizes)) a b"
    show "one_tier sizes (start + a) (start + b)"
      unfolding one_tier_def
    proof (intro allI impI)
      fix x y assume "start + a \<le> x" "x < start + b" "start + a \<le> y" "y < start + b"
      then have "a \<le> x - start" "x - start < b" "a \<le> y - start" "y - start < b" "start + (x - start) = x" "start + (y - start) = y"
        by auto
      then show "tier_size sizes x \<le> saturating_mul (tier_size sizes y) SIZE_TIER_RATIO"
        using o t unfolding one_tier_def by metis
    qed
  qed (use t in \<open>simp add: one_tier_def\<close>)
qed

definition stack_run_ok :: "u64 list \<Rightarrow> bool list \<Rightarrow> nat \<Rightarrow> nat \<Rightarrow> bool" where
  "stack_run_ok sizes off_heap s e \<longleftrightarrow> run_ok sizes s e \<and> (\<forall>k. s \<le> k \<longrightarrow> k < e \<longrightarrow> off_heap ! k = off_heap ! s)"

lemma span_spec:
  assumes "start < length off_heap"
  defines "e \<equiv> span_end off_heap start (start + 1)"
  shows "start + 1 \<le> e" "e \<le> length off_heap"
    "\<And>k. start \<le> k \<Longrightarrow> k < e \<Longrightarrow> off_heap ! k = off_heap ! start"
    "e < length off_heap \<Longrightarrow> off_heap ! e \<noteq> off_heap ! start"
proof -
  have "k = start" if "start \<le> k" "k < start + 1" for k using that by linarith
  then have "\<forall>k. start \<le> k \<longrightarrow> k < start + 1 \<longrightarrow> off_heap ! k = off_heap ! start" by blast
  moreover have "start < start + 1" "start + 1 \<le> length off_heap" using assms(1) by simp_all
  ultimately have *: "start + 1 \<le> e \<and> e \<le> length off_heap \<and> (\<forall>k. start \<le> k \<longrightarrow> k < e \<longrightarrow> off_heap ! k = off_heap ! start) \<and>
    (e < length off_heap \<longrightarrow> off_heap ! e \<noteq> off_heap ! start)"
    unfolding e_def using span_end_spec by blast
  show "start + 1 \<le> e" "e \<le> length off_heap" "e < length off_heap \<Longrightarrow> off_heap ! e \<noteq> off_heap ! start" using * by blast+
  show "off_heap ! k = off_heap ! start" if "start \<le> k" "k < e" for k using * that by blast
qed

lemma slice_run:
  assumes "e \<le> length sizes" "start \<le> e" "select_compaction_run (take (e - start) (drop start sizes)) = Some (rs, re)"
  shows "run_ok sizes (start + rs) (start + re)" "start + re \<le> e"
proof -
  have "run_ok (take (e - start) (drop start sizes)) rs re"
    using select_from_sound assms(3) unfolding select_compaction_run_def by blast
  then show "run_ok sizes (start + rs) (start + re)" "start + re \<le> e"
    using one_tier_slice [of re "e - start" start sizes rs] assms(1,2) by (auto simp: run_ok_def)
qed

lemma slice_none:
  assumes "e \<le> length sizes" "start \<le> e" "select_compaction_run (take (e - start) (drop start sizes)) = None"
    and "start \<le> k" "k + 1 < e"
  shows "\<not> one_tier sizes k (k + 2)"
proof -
  have "\<not> one_tier (take (e - start) (drop start sizes)) (k - start) (k - start + 2)"
    using select_from_complete [OF assms(3) [unfolded select_compaction_run_def]] assms(1,2,4,5) by simp
  then show ?thesis using one_tier_slice [of "k - start + 2" "e - start" start sizes "k - start"] assms by simp
qed

lemma select_spans_step:
  "start < length off_heap \<Longrightarrow> select_spans sizes off_heap start best =
     (let e = span_end off_heap start (start + 1)
      in select_spans sizes off_heap e
           (case select_compaction_run (take (e - start) (drop start sizes)) of None \<Rightarrow> best
            | Some (rs, re) \<Rightarrow> take_run (start + rs) (start + re) best))"
  by (subst select_spans.simps) (simp only: if_True Let_def)

lemma select_spans_sound:
  assumes "length off_heap = length sizes" "\<And>s e. best = Some (s, e) \<Longrightarrow> stack_run_ok sizes off_heap s e"
    and "select_spans sizes off_heap start best = Some (s, e)"
  shows "stack_run_ok sizes off_heap s e"
  using assms
proof (induction sizes off_heap start best rule: select_spans.induct)
  case (1 sizes off_heap start best)
  show ?case
  proof (cases "start < length off_heap")
    case True
    let ?e = "span_end off_heap start (start + 1)"
    let ?sel = "select_compaction_run (take (?e - start) (drop start sizes))"
    let ?best = "case ?sel of None \<Rightarrow> best | Some (rs, re) \<Rightarrow> take_run (start + rs) (start + re) best"
    note span = span_spec [OF True]
    have "stack_run_ok sizes off_heap s e" if b: "?best = Some (s, e)" for s e
    proof (cases "best = Some (s, e)")
      case False
      then obtain rs re where sel: "?sel = Some (rs, re)" "take_run (start + rs) (start + re) best = Some (s, e)"
        using b by (auto split: option.splits)
      then have se: "s = start + rs" "e = start + re" using take_run_cases [OF sel(2)] False by simp_all
      have run: "run_ok sizes s e" "e \<le> ?e"
        using slice_run [OF _ _ sel(1)] span(1,2) 1(2) unfolding se by simp_all
      have "off_heap ! k = off_heap ! s" if "s \<le> k" "k < e" for k
      proof -
        have "start \<le> k" "k < ?e" "start \<le> s" "s < ?e" using that run(2) se by linarith+
        then show ?thesis using span(3) by metis
      qed
      then show ?thesis using run(1) unfolding stack_run_ok_def by blast
    qed (rule 1(3))
    moreover have "select_spans sizes off_heap ?e ?best = Some (s, e)"
      using 1(4) unfolding select_spans_step [OF True] Let_def .
    ultimately show ?thesis using "1.IH" [OF True refl refl 1(2)] by blast
  next
    case False
    then show ?thesis using 1(3,4) by (simp add: select_spans.simps)
  qed
qed

lemma select_spans_complete:
  assumes "length off_heap = length sizes" "select_spans sizes off_heap start best = None"
  shows "best = None \<and> (\<forall>k. start \<le> k \<longrightarrow> k + 1 < length sizes \<longrightarrow> off_heap ! k = off_heap ! (k + 1) \<longrightarrow> \<not> one_tier sizes k (k + 2))"
  using assms
proof (induction sizes off_heap start best rule: select_spans.induct)
  case (1 sizes off_heap start best)
  show ?case
  proof (cases "start < length off_heap")
    case True
    let ?e = "span_end off_heap start (start + 1)"
    let ?sel = "select_compaction_run (take (?e - start) (drop start sizes))"
    let ?best = "case ?sel of None \<Rightarrow> best | Some (rs, re) \<Rightarrow> take_run (start + rs) (start + re) best"
    note span = span_spec [OF True]
    have "select_spans sizes off_heap ?e ?best = None"
      using 1(3) unfolding select_spans_step [OF True] Let_def .
    from "1.IH" [OF True refl refl 1(2) this]
    have best: "?best = None" and rest: "\<And>k. ?e \<le> k \<Longrightarrow> k + 1 < length sizes \<Longrightarrow>
        off_heap ! k = off_heap ! (k + 1) \<Longrightarrow> \<not> one_tier sizes k (k + 2)"
      by blast+
    from best have sel: "?sel = None" "best = None" by (auto split: option.splits)
    have "\<not> one_tier sizes k (k + 2)"
      if k: "start \<le> k" "k + 1 < length sizes" "off_heap ! k = off_heap ! (k + 1)" for k
    proof -
      consider "k + 1 < ?e" | "k + 1 = ?e" | "?e \<le> k" by linarith
      then show ?thesis
      proof cases
        case 1
        then show ?thesis using slice_none [OF _ _ sel(1) k(1)] span(1,2) \<open>length off_heap = length sizes\<close> by simp
      next
        case 2
        then have "off_heap ! k = off_heap ! start" "off_heap ! (k + 1) \<noteq> off_heap ! start"
          using span(3) [of k] span(4) k(1,2) \<open>length off_heap = length sizes\<close> by simp_all
        then show ?thesis using k(3) by simp
      qed (rule rest [OF _ k(2,3)])
    qed
    then show ?thesis using sel(2) by blast
  next
    case False
    then show ?thesis using 1(2,3) by (simp add: select_spans.simps)
  qed
qed

section \<open>Properties of the selection\<close>

text \<open>C17: The run a compaction merges is a contiguous stretch of at least two levels of the stack, all of
  one format and one size tier, so the splice and the reuse of the oldest file stay within the stack
  and the merge never crosses formats. Nothing is selected only if no two neighbours of the same
  format are of one tier.\<close>

theorem compaction_run_is_one_tier:
  assumes "length off_heap = length sizes"
  shows "case select_compaction_run_in_stack sizes off_heap of
      Some (s, e) \<Rightarrow> s + 2 \<le> e \<and> e \<le> length sizes \<and> one_tier sizes s e \<and> (\<forall>k. s \<le> k \<and> k < e \<longrightarrow> off_heap ! k = off_heap ! s)
    | None \<Rightarrow> \<forall>k. k + 1 < length sizes \<and> off_heap ! k = off_heap ! (k + 1) \<longrightarrow> \<not> one_tier sizes k (k + 2)"
proof (cases "select_compaction_run_in_stack sizes off_heap")
  case None
  then show ?thesis
    using select_spans_complete [OF assms, of 0 None] unfolding select_compaction_run_in_stack_def by simp
next
  case (Some r)
  obtain s e where r: "r = (s, e)" by (cases r)
  have "stack_run_ok sizes off_heap s e"
    using select_spans_sound [OF assms, of None 0] Some r unfolding select_compaction_run_in_stack_def by blast
  then show ?thesis unfolding Some r option.case prod.case stack_run_ok_def run_ok_def by blast
qed

theorem compaction_run_is_one_tier_witness:
  "select_compaction_run_in_stack [10, 20, 900, 1000, 800] [False, False, False, True, True] = Some (3, 5) \<and>
   one_tier [10, 20, 900, 1000, 800] 3 5"
proof -
  have "select_compaction_run_in_stack [10, 20, 900, 1000, 800] [False, False, False, True, True] = Some (3, 5)"
    by code_simp
  then show ?thesis
    using compaction_run_is_one_tier [of "[False, False, False, True, True]" "[10, 20, 900, 1000, 800]"] by simp
qed

text \<open>The comment on the selection promises the longest stretch within the ratio of its smallest member.
  The scan partitions the stack greedily from its newest end, so a small level can split the longest
  stretch: here the levels 1 to 4 are one tier and the scan returns three of them.\<close>

lemma selection_is_not_longest:
  "select_compaction_run [1, 4, 16, 16, 16] = Some (2, 5) \<and> tier_size [1, 4, 16, 16, 16] 4 \<le> saturating_mul (tier_size [1, 4, 16, 16, 16] 1) SIZE_TIER_RATIO"
  by code_simp

end
