(* ===== verification/Rw_Index.thy ===== *)
theory Rw_Index
  imports Slater_Prelude
begin

text \<open>
  The resident vector index over the write delta, \<^verbatim>\<open>slater/src/rwindex.rs\<close>: the journal of ids
  each published epoch touched, the index with the ids it supersedes, and the cache that brings an
  index to exactly the epoch of the query that asks for it. The rows of the proximity graph
  (\<^verbatim>\<open>graph-format/src/rwvamana.rs\<close>) are modelled, its edges are not: how a new row is woven into
  the graph is a parameter, and what is proved holds whatever it does.
\<close>

section \<open>The journal of touched ids\<close>

definition JOURNAL_MAX_ENTRIES :: nat where "JOURNAL_MAX_ENTRIES = 8192"

definition JOURNAL_MAX_IDS :: nat where "JOURNAL_MAX_IDS = 1048576"

record touched_journal =
  j_entries :: "(u64 \<times> u64 list) list"
  j_floor :: u64
  j_ids :: nat

definition journal_new :: "u64 \<Rightarrow> touched_journal" where
  "journal_new epoch = \<lparr>j_entries = [], j_floor = epoch, j_ids = 0\<rparr>"

text \<open>Trimming the oldest entries while the journal is over one of its bounds.\<close>

fun journal_trim :: "(u64 \<times> u64 list) list \<Rightarrow> u64 \<Rightarrow> nat \<Rightarrow> touched_journal" where
  "journal_trim [] fl ids = \<lparr>j_entries = [], j_floor = fl, j_ids = ids\<rparr>"
| "journal_trim ((e, dropped) # es) fl ids =
     (if length ((e, dropped) # es) > JOURNAL_MAX_ENTRIES \<or> (ids > JOURNAL_MAX_IDS \<and> length ((e, dropped) # es) > 1)
      then journal_trim es e (ids - length dropped)
      else \<lparr>j_entries = (e, dropped) # es, j_floor = fl, j_ids = ids\<rparr>)"

definition journal_record :: "u64 \<Rightarrow> u64 list \<Rightarrow> touched_journal \<Rightarrow> touched_journal" where
  "journal_record epoch ids j = journal_trim (j_entries j @ [(epoch, ids)]) (j_floor j) (j_ids j + length ids)"

definition journal_reset :: "u64 \<Rightarrow> touched_journal \<Rightarrow> touched_journal" where
  "journal_reset epoch j = j\<lparr>j_entries := [], j_ids := 0, j_floor := epoch\<rparr>"

text \<open>The scan over the entries, from the epoch expected next, with the ids found so far.\<close>

fun since_scan :: "u64 \<Rightarrow> u64 \<Rightarrow> (u64 \<times> u64 list) list \<Rightarrow> u64 \<Rightarrow> u64 list \<Rightarrow> (u64 \<times> u64 list) option" where
  "since_scan from till [] expect out = Some (expect, out)"
| "since_scan from till ((e, ids) # es) expect out =
     (if e \<le> from then since_scan from till es expect out
      else if e > till then Some (expect, out)
      else if e \<noteq> expect then None
      else since_scan from till es (expect + 1) (out @ ids))"

definition journal_since :: "touched_journal \<Rightarrow> u64 \<Rightarrow> u64 \<Rightarrow> u64 list option" where
  "journal_since j from till =
     (if till = from then Some []
      else if till < from then None
      else if from < j_floor j then None
      else case since_scan from till (j_entries j) (from + 1) [] of
          None \<Rightarrow> None
        | Some (expect, out) \<Rightarrow> if expect = till + 1 then Some out else None)"

text \<open>A journal that holds the ids \<open>touched\<close> says each epoch changed, from its floor to the epoch
  published last. Epochs do not reach the top of their range.\<close>

definition journal_ok :: "(nat \<Rightarrow> u64 list) \<Rightarrow> nat \<Rightarrow> touched_journal \<Rightarrow> bool" where
  "journal_ok touched latest j \<longleftrightarrow> latest < 2 ^ 64 - 1 \<and> unat (j_floor j) \<le> latest \<and>
     (\<exists>a. unat (j_floor j) \<le> a \<and> a \<le> unat (j_floor j) + 1 \<and>
        j_entries j = map (\<lambda>e. (of_nat e, touched e)) [a..<latest + 1])"

section \<open>The rows of the graph\<close>

datatype rw_error = WrongDimension | NotFinite | Failed nat

datatype metric = Cosine | L2 | Dot

text \<open>Rows by slot, dead ones included; \<open>rv_nav\<close> is the navigation state, that is the adjacency, the
  entry point and the scratch of its construction.\<close>

record 'g rw_vamana =
  rv_metric :: metric
  rv_dim :: nat
  rv_rows :: "f32 list list"
  rv_node_id :: "u64 list"
  rv_dead :: "bool list"
  rv_slot_of :: "(u64, u32) fmap"
  rv_nav :: 'g

record 'g navigation =
  nav_new :: 'g
  nav_weave :: "u32 \<Rightarrow> f32 list list \<Rightarrow> 'g \<Rightarrow> rw_error option \<times> 'g"
  normalise_into :: "f32 list \<Rightarrow> f32 list"

definition rv_new :: "'g navigation \<Rightarrow> nat \<Rightarrow> metric \<Rightarrow> 'g rw_vamana" where
  "rv_new nv dim me = \<lparr>rv_metric = me, rv_dim = dim, rv_rows = [], rv_node_id = [], rv_dead = [],
     rv_slot_of = fmempty, rv_nav = nav_new nv\<rparr>"

definition live_count :: "'g rw_vamana \<Rightarrow> nat" where
  "live_count g = fcard (fmdom (rv_slot_of g))"

definition slots :: "'g rw_vamana \<Rightarrow> nat" where
  "slots g = length (rv_node_id g)"

text \<open>A single-precision number is finite if its exponent is not all ones.\<close>

definition is_finite :: "f32 \<Rightarrow> bool" where
  "is_finite x \<longleftrightarrow> and x 0x7F800000 \<noteq> 0x7F800000"

definition point_row :: "'g navigation \<Rightarrow> metric \<Rightarrow> f32 list \<Rightarrow> f32 list" where
  "point_row nv me v = (case me of Cosine \<Rightarrow> normalise_into nv v | L2 \<Rightarrow> v | Dot \<Rightarrow> v)"

definition rv_remove :: "u64 \<Rightarrow> 'g rw_vamana \<Rightarrow> 'g rw_vamana" where
  "rv_remove nid g = (case fmlookup (rv_slot_of g) nid of
       None \<Rightarrow> g
     | Some slot \<Rightarrow> g\<lparr>rv_slot_of := fmdrop nid (rv_slot_of g), rv_dead := (rv_dead g)[unat slot := True]\<rparr>)"

definition rv_insert :: "'g navigation \<Rightarrow> u64 \<Rightarrow> f32 list \<Rightarrow> 'g rw_vamana \<Rightarrow> (rw_error + unit) \<times> 'g rw_vamana" where
  "rv_insert nv nid v g0 =
     (if length v \<noteq> rv_dim g0 then (Inl WrongDimension, g0)
      else if \<not> list_all is_finite v then (Inl NotFinite, g0)
      else let g1 = rv_remove nid g0;
               slot = of_nat (length (rv_node_id g1)) :: u32;
               g2 = g1\<lparr>rv_rows := rv_rows g1 @ [point_row nv (rv_metric g1) v],
                 rv_node_id := rv_node_id g1 @ [nid], rv_dead := rv_dead g1 @ [False],
                 rv_slot_of := fmupd nid slot (rv_slot_of g1)\<rparr>;
               (res, nav) = nav_weave nv slot (rv_rows g2) (rv_nav g2)
           in (case res of None \<Rightarrow> Inr () | Some e \<Rightarrow> Inl e, g2\<lparr>rv_nav := nav\<rparr>))"

section \<open>One index\<close>

datatype delta_vector = Set "f32 list" | Gone | OutOfScope | Silent

record rw_index_config =
  cfg_enabled :: bool
  cfg_min_vectors :: nat
  cfg_max_vectors :: nat

record 'g rw_vector_index =
  ix_graph :: "'g rw_vamana"
  ix_superseded :: "u64 fset"
  ix_epoch :: "u64 option"
  ix_refused :: bool

definition ix_new :: "'g navigation \<Rightarrow> nat \<Rightarrow> metric \<Rightarrow> 'g rw_vector_index" where
  "ix_new nv dim me = \<lparr>ix_graph = rv_new nv dim me, ix_superseded = {||}, ix_epoch = None, ix_refused = False\<rparr>"

definition ix_new_like :: "'g navigation \<Rightarrow> 'g rw_vector_index \<Rightarrow> 'g rw_vector_index" where
  "ix_new_like nv other = ix_new nv (rv_dim (ix_graph other)) (rv_metric (ix_graph other))"

definition ix_apply :: "'g navigation \<Rightarrow> u64 \<Rightarrow> delta_vector \<Rightarrow> 'g rw_vector_index \<Rightarrow> (rw_error + unit) \<times> 'g rw_vector_index" where
  "ix_apply nv nid says ix = (case says of
       Set v \<Rightarrow> (case rv_insert nv nid v (ix_graph ix) of
           (Inl e, g) \<Rightarrow> (Inl e, ix\<lparr>ix_graph := g\<rparr>)
         | (Inr _, g) \<Rightarrow> (Inr (), ix\<lparr>ix_graph := g, ix_superseded := finsert nid (ix_superseded ix)\<rparr>))
     | Silent \<Rightarrow> (Inr (), ix\<lparr>ix_graph := rv_remove nid (ix_graph ix), ix_superseded := ix_superseded ix |-| {|nid|}\<rparr>)
     | _ \<Rightarrow> (Inr (), ix\<lparr>ix_graph := rv_remove nid (ix_graph ix), ix_superseded := finsert nid (ix_superseded ix)\<rparr>))"

text \<open>Re-resolving a list of ids, each once, and folding the answers in; the first error ends it.\<close>

fun apply_ids :: "'g navigation \<Rightarrow> (u64 \<Rightarrow> rw_error + delta_vector) \<Rightarrow> u64 list \<Rightarrow> 'g rw_vector_index
    \<Rightarrow> (rw_error + unit) \<times> 'g rw_vector_index" where
  "apply_ids nv resolve [] ix = (Inr (), ix)"
| "apply_ids nv resolve (nid # ids) ix = (case resolve nid of
       Inl e \<Rightarrow> (Inl e, ix)
     | Inr says \<Rightarrow> (case ix_apply nv nid says ix of
         (Inl e, ix') \<Rightarrow> (Inl e, ix')
       | (Inr _, ix') \<Rightarrow> apply_ids nv resolve ids ix'))"

fun first_seen :: "u64 fset \<Rightarrow> u64 list \<Rightarrow> u64 list" where
  "first_seen seen [] = []"
| "first_seen seen (nid # ids) = (if nid |\<in>| seen then first_seen seen ids else nid # first_seen (finsert nid seen) ids)"

definition ix_refuse :: "'g navigation \<Rightarrow> 'g rw_vector_index \<Rightarrow> 'g rw_vector_index" where
  "ix_refuse nv ix = (ix_new_like nv ix)\<lparr>ix_refused := True\<rparr>"

definition advance :: "'g navigation \<Rightarrow> u64 \<Rightarrow> u64 list \<Rightarrow> rw_index_config \<Rightarrow> (u64 \<Rightarrow> rw_error + delta_vector)
    \<Rightarrow> 'g rw_vector_index \<Rightarrow> (rw_error + unit) \<times> 'g rw_vector_index" where
  "advance nv epoch ids cfg resolve ix0 =
     (case apply_ids nv resolve (first_seen {||} ids) (ix0\<lparr>ix_epoch := None\<rparr>) of
        (Inl e, ix) \<Rightarrow> (Inl e, ix)
      | (Inr _, ix) \<Rightarrow>
          if slots (ix_graph ix) > cfg_max_vectors cfg then (Inr (), ix_refuse nv ix)
          else (Inr (), ix\<lparr>ix_epoch := Some epoch\<rparr>))"

definition rebuild :: "'g navigation \<Rightarrow> u64 \<Rightarrow> u64 list \<Rightarrow> rw_index_config \<Rightarrow> (u64 \<Rightarrow> rw_error + delta_vector)
    \<Rightarrow> 'g rw_vector_index \<Rightarrow> (rw_error + unit) \<times> 'g rw_vector_index" where
  "rebuild nv epoch candidates cfg resolve ix =
     (if length candidates > cfg_max_vectors cfg then (Inr (), ix_refuse nv (ix_new_like nv ix))
      else case apply_ids nv resolve candidates (ix_new_like nv ix) of
          (Inl e, _) \<Rightarrow> (Inl e, ix)
        | (Inr _, fresh) \<Rightarrow>
            if slots (ix_graph fresh) > cfg_max_vectors cfg then (Inr (), ix_refuse nv fresh)
            else (Inr (), fresh\<lparr>ix_epoch := Some epoch\<rparr>))"

section \<open>The cache\<close>

type_synonym gen_id = "128 word"

type_synonym 'g rw_index_cache = "(gen_id \<times> (str \<times> str, 'g rw_vector_index) fmap) list"

datatype 'g rw_lookup = Ready "'g rw_vector_index" | BruteForce

definition MAX_LIVE_GENERATIONS :: nat where "MAX_LIVE_GENERATIONS = 2"

fun evict_oldest :: "'a list \<Rightarrow> 'a list" where
  "evict_oldest [] = []"
| "evict_oldest (g # gens) = (if length (g # gens) > MAX_LIVE_GENERATIONS then evict_oldest gens else g # gens)"

definition retain :: "gen_id \<Rightarrow> 'g rw_index_cache \<Rightarrow> 'g rw_index_cache" where
  "retain keep cache = filter (\<lambda>(g, _). g = keep) cache"

definition index_epoch :: "'g rw_index_cache \<Rightarrow> gen_id \<Rightarrow> str \<Rightarrow> str \<Rightarrow> u64 option" where
  "index_epoch cache gen label property =
     Option.bind (map_of cache gen) (\<lambda>h. Option.bind (fmlookup h (label, property)) ix_epoch)"

definition put_index :: "gen_id \<Rightarrow> str \<times> str \<Rightarrow> 'g rw_vector_index \<Rightarrow> 'g rw_index_cache \<Rightarrow> 'g rw_index_cache" where
  "put_index gen key ix cache = map (\<lambda>(g, h). (g, if g = gen then fmupd key ix h else h)) cache"

definition index_for :: "'g navigation \<Rightarrow> gen_id \<Rightarrow> str \<times> str \<Rightarrow> nat \<Rightarrow> metric \<Rightarrow> 'g rw_index_cache
    \<Rightarrow> 'g rw_vector_index \<times> 'g rw_index_cache" where
  "index_for nv gen key dim me cache =
     (let (h, gens) = (case map_of cache gen of
              Some h \<Rightarrow> (h, cache)
            | None \<Rightarrow> (fmempty, evict_oldest (cache @ [(gen, fmempty)])))
      in case fmlookup h key of
           Some ix \<Rightarrow> (ix, gens)
         | None \<Rightarrow> (ix_new nv dim me, put_index gen key (ix_new nv dim me) gens))"

text \<open>The fast path under the read guard, the slow path under the write guard, and the two together.\<close>

definition ensure_read :: "rw_index_config \<Rightarrow> u64 \<Rightarrow> 'g rw_vector_index \<Rightarrow> 'g rw_lookup option" where
  "ensure_read cfg epoch g =
     (if ix_refused g \<or> (ix_epoch g = Some epoch \<and> live_count (ix_graph g) < cfg_min_vectors cfg) then Some BruteForce
      else if ix_epoch g = Some epoch then Some (Ready g)
      else None)"

definition ensure_settle :: "rw_index_config \<Rightarrow> (rw_error + unit) \<times> 'g rw_vector_index \<Rightarrow> (rw_error + 'g rw_lookup) \<times> 'g rw_vector_index" where
  "ensure_settle cfg r = (case r of
       (Inl e, g) \<Rightarrow> (Inl e, g)
     | (Inr _, g) \<Rightarrow> (Inr (if ix_refused g \<or> live_count (ix_graph g) < cfg_min_vectors cfg then BruteForce else Ready g), g))"

definition ensure_write :: "'g navigation \<Rightarrow> rw_index_config \<Rightarrow> touched_journal \<Rightarrow> u64 \<Rightarrow> u64 list
    \<Rightarrow> (u64 \<Rightarrow> rw_error + delta_vector) \<Rightarrow> 'g rw_vector_index \<Rightarrow> (rw_error + 'g rw_lookup) \<times> 'g rw_vector_index" where
  "ensure_write nv cfg journal epoch candidates resolve g =
     (if ix_refused g then (Inr BruteForce, g)
      else case ix_epoch g of
          None \<Rightarrow> ensure_settle cfg (rebuild nv epoch candidates cfg resolve g)
        | Some e \<Rightarrow>
            if e = epoch then (Inr (Ready g), g)
            else if e > epoch then (Inr BruteForce, g)
            else case journal_since journal e epoch of
                Some ids \<Rightarrow> ensure_settle cfg (advance nv epoch ids cfg resolve g)
              | None \<Rightarrow> ensure_settle cfg (rebuild nv epoch candidates cfg resolve g))"

definition ensure :: "'g navigation \<Rightarrow> gen_id \<Rightarrow> str \<times> str \<Rightarrow> nat \<Rightarrow> metric \<Rightarrow> u64 \<Rightarrow> rw_index_config \<Rightarrow> touched_journal
    \<Rightarrow> u64 list \<Rightarrow> (u64 \<Rightarrow> rw_error + delta_vector) \<Rightarrow> 'g rw_index_cache \<Rightarrow> (rw_error + 'g rw_lookup) \<times> 'g rw_index_cache" where
  "ensure nv gen key dim me epoch cfg journal candidates resolve cache =
     (if \<not> cfg_enabled cfg then (Inr BruteForce, cache)
      else let (ix, cache') = index_for nv gen key dim me cache
           in case ensure_read cfg epoch ix of
                Some l \<Rightarrow> (Inr l, cache')
              | None \<Rightarrow> (let (r, ix') = ensure_write nv cfg journal epoch candidates resolve ix
                         in (r, put_index gen key ix' cache')))"

definition read_at_epoch :: "'g rw_vector_index \<Rightarrow> u64 \<Rightarrow> 'g rw_vector_index option" where
  "read_at_epoch ix epoch = (if ix_epoch ix = Some epoch then Some ix else None)"

section \<open>The journal answers exactly\<close>

lemma journal_trim_ok:
  assumes "unat fl \<le> latest" "latest < 2 ^ 64 - 1" "unat fl \<le> a" "a \<le> unat fl + 1" "a \<le> latest"
  shows "journal_ok touched latest (journal_trim (map (\<lambda>e. (of_nat e, touched e)) [a..<latest + 1]) fl n)"
  using assms
proof (induction "latest - a" arbitrary: a fl n)
  case 0
  then show ?case by (auto simp: journal_ok_def JOURNAL_MAX_ENTRIES_def intro!: exI [of _ a])
next
  case (Suc k)
  let ?e = "of_nat a :: u64" and ?es = "map (\<lambda>e. (of_nat e :: u64, touched e)) [a + 1..<latest + 1]"
  have u: "unat ?e = a" using Suc.prems by (simp add: unat_of_nat take_bit_nat_eq_self)
  have list: "map (\<lambda>e. (of_nat e, touched e)) [a..<latest + 1] = (?e, touched a) # ?es"
    using Suc.prems(5) upt_conv_Cons [of a "latest + 1"] by (simp del: upt.simps)
  have "journal_ok touched latest (journal_trim ?es ?e (n - length (touched a)))"
    by (rule Suc.hyps) (use Suc.hyps(2) Suc.prems u in simp_all)
  moreover have "journal_ok touched latest \<lparr>j_entries = (?e, touched a) # ?es, j_floor = fl, j_ids = n\<rparr>"
    unfolding journal_ok_def using Suc.prems list by (auto intro!: exI [of _ a])
  ultimately show ?case unfolding list journal_trim.simps by (auto split: if_splits)
qed

lemma journal_record_ok:
  assumes "journal_ok touched latest j" "latest + 1 < 2 ^ 64 - 1"
  shows "journal_ok touched (latest + 1) (journal_record (of_nat (latest + 1)) (touched (latest + 1)) j)"
proof -
  obtain a where a: "unat (j_floor j) \<le> a" "a \<le> unat (j_floor j) + 1" "unat (j_floor j) \<le> latest"
    "j_entries j = map (\<lambda>e. (of_nat e, touched e)) [a..<latest + 1]"
    using assms(1) by (auto simp: journal_ok_def)
  have "j_entries j @ [(of_nat (latest + 1), touched (latest + 1))] = map (\<lambda>e. (of_nat e, touched e)) [a..<latest + 1 + 1]"
    using a by simp
  then show ?thesis
    unfolding journal_record_def using journal_trim_ok [of "j_floor j" "latest + 1" a] a(1-3) assms(2) by simp
qed

lemma journal_new_ok: "epoch < 2 ^ 64 - 1 \<Longrightarrow> journal_ok touched epoch (journal_new (of_nat epoch))"
  by (auto simp: journal_ok_def journal_new_def unat_of_nat take_bit_nat_eq_self intro!: exI [of _ "epoch + 1"])

text \<open>A reset followed by the empty entry of its epoch, as a rebase publishes it.\<close>

lemma journal_rebase_ok:
  assumes "epoch < 2 ^ 64 - 1" "touched epoch = []"
  shows "journal_ok touched epoch (journal_record (of_nat epoch) [] (journal_reset (of_nat epoch) j))"
  using journal_trim_ok [of "of_nat epoch" epoch epoch touched "0 + length (touched epoch)"] assms
  by (simp add: journal_record_def journal_reset_def unat_of_nat take_bit_nat_eq_self)

lemma since_scan_consecutive:
  assumes "n < 2 ^ 64" "unat from < a" "b = min n (Suc (unat till))"
  shows "since_scan from till (map (\<lambda>e. (of_nat e, touched e)) [a..<n]) (of_nat a) out =
    Some (of_nat (max a b), out @ concat (map touched [a..<b]))"
  using assms
proof (induction "n - a" arbitrary: a out)
  case 0
  then show ?case by (simp add: max_def)
next
  case (Suc k)
  let ?f = "\<lambda>e. (of_nat e :: u64, touched e)"
  have an: "a < n" using Suc.hyps(2) by simp
  have u: "unat (of_nat a :: u64) = a" using Suc.prems(1) an by (simp add: unat_of_nat take_bit_nat_eq_self)
  have low: "\<not> (of_nat a :: u64) \<le> from" using Suc.prems(2) u by (simp add: word_le_nat_alt)
  show ?case
  proof (cases "unat till < a")
    case True
    then have "(of_nat a :: u64) > till" "b \<le> a" using u Suc.prems(3) by (simp_all add: word_less_nat_alt)
    then show ?thesis using low by (simp add: upt_conv_Cons [OF an] max_def)
  next
    case False
    then have "\<not> (of_nat a :: u64) > till" "a < b" using u an Suc.prems(3) by (simp_all add: word_less_nat_alt)
    moreover have "since_scan from till (map ?f [Suc a..<n]) (of_nat (Suc a)) (out @ touched a) =
        Some (of_nat (max (Suc a) b), (out @ touched a) @ concat (map touched [Suc a..<b]))"
      by (rule Suc.hyps(1)) (use Suc.hyps(2) Suc.prems in simp_all)
    ultimately show ?thesis using low by (simp add: upt_conv_Cons [OF an] upt_conv_Cons [OF \<open>a < b\<close>] max_def add.commute)
  qed
qed

lemma since_scan_skip:
  assumes "\<forall>e \<in> set es. e \<le> unat from" "\<forall>e \<in> set es. e < 2 ^ 64"
  shows "since_scan from till (map (\<lambda>e. (of_nat e, touched e)) es @ rest) expect out = since_scan from till rest expect out"
  using assms by (induction es) (auto simp: word_le_nat_alt unat_of_nat take_bit_nat_eq_self)

lemma upt_skip: "a \<le> b \<Longrightarrow> [a..<n] = [a..<min b n] @ [b..<n]"
proof (cases "b \<le> n")
  case True
  moreover assume "a \<le> b"
  ultimately show ?thesis using upt_add_eq_append [of a b "n - b"] by simp
qed simp

text \<open>What the journal answers, whatever was trimmed.\<close>

lemma journal_since_answers:
  assumes "journal_ok touched latest j" "unat till < 2 ^ 64 - 1"
  shows "journal_since j from till =
    (if till = from then Some []
     else if j_floor j \<le> from \<and> from < till \<and> unat till \<le> latest
     then Some (concat (map touched [Suc (unat from)..<Suc (unat till)])) else None)"
proof (cases "j_floor j \<le> from \<and> from < till")
  case True
  obtain a where a: "unat (j_floor j) \<le> a" "a \<le> Suc (unat (j_floor j))" "latest < 2 ^ 64 - 1"
    "j_entries j = map (\<lambda>e. (of_nat e, touched e)) [a..<Suc latest]"
    using assms(1) by (auto simp: journal_ok_def)
  have f: "unat (j_floor j) \<le> unat from" "unat from < unat till" using True by (simp_all add: word_le_nat_alt word_less_nat_alt)
  define b n c where "b = Suc (unat from)" and "n = Suc latest" and "c = min n (Suc (unat till))"
  have "since_scan from till (j_entries j) (from + 1) [] =
      since_scan from till (map (\<lambda>e. (of_nat e, touched e)) [b..<n]) (of_nat b) []"
    using since_scan_skip [of "[a..<min b n]" "from"] upt_skip [of a b n] a(2) f assms(2)
    by (simp add: a(4) b_def n_def [symmetric] add.commute)
  also have "\<dots> = Some (of_nat (max b c), concat (map touched [b..<c]))"
    using since_scan_consecutive [of n "from" b c till touched "[]"] a(3) by (simp add: b_def c_def n_def)
  finally have scan: "since_scan from till (j_entries j) (from + 1) [] = Some (of_nat (max b c), concat (map touched [b..<c]))" .
  have "(of_nat (max b c) :: u64) = till + 1 \<longleftrightarrow> unat till \<le> latest"
  proof (cases "unat till \<le> latest")
    case True
    then have "max b c = Suc (unat till)" using f by (simp add: b_def c_def n_def)
    then show ?thesis using True by (simp add: add.commute)
  next
    case False
    then have x: "max b c < Suc (unat till)" using f by (auto simp: b_def c_def n_def)
    have "(of_nat (max b c) :: u64) \<noteq> of_nat (Suc (unat till))"
    proof
      assume "(of_nat (max b c) :: u64) = of_nat (Suc (unat till))"
      then have "unat (of_nat (max b c) :: u64) = unat (of_nat (Suc (unat till)) :: u64)" by (rule arg_cong)
      then show False using x assms(2) by (simp only: unat_of_nat) (auto simp: take_bit_nat_eq_self max_def split: if_splits)
    qed
    then show ?thesis using False by (simp add: add.commute)
  qed
  then show ?thesis
    using True scan f by (auto simp: journal_since_def b_def c_def n_def min_def simp del: upt.simps)
next
  case False
  then show ?thesis by (auto simp: journal_since_def)
qed

section \<open>The rows of a graph are a map from node ids\<close>

definition vamana_ok :: "'g rw_vamana \<Rightarrow> bool" where
  "vamana_ok g \<longleftrightarrow> length (rv_rows g) = slots g \<and> length (rv_dead g) = slots g \<and> slots g < 2 ^ 32 \<and>
     (\<forall>nid s. fmlookup (rv_slot_of g) nid = Some s \<longrightarrow> unat s < slots g \<and> rv_node_id g ! unat s = nid \<and> \<not> rv_dead g ! unat s) \<and>
     (\<forall>i < slots g. \<not> rv_dead g ! i \<longrightarrow> fmlookup (rv_slot_of g) (rv_node_id g ! i) = Some (of_nat i))"

definition row_of :: "'g rw_vamana \<Rightarrow> u64 \<Rightarrow> f32 list option" where
  "row_of g nid = map_option (\<lambda>s. rv_rows g ! unat s) (fmlookup (rv_slot_of g) nid)"

lemma vamana_okI:
  assumes "length (rv_rows g) = slots g" "length (rv_dead g) = slots g" "slots g < 2 ^ 32"
    and "\<And>nid s. fmlookup (rv_slot_of g) nid = Some s \<Longrightarrow> unat s < slots g"
    and "\<And>nid s. fmlookup (rv_slot_of g) nid = Some s \<Longrightarrow> rv_node_id g ! unat s = nid"
    and "\<And>nid s. fmlookup (rv_slot_of g) nid = Some s \<Longrightarrow> \<not> rv_dead g ! unat s"
    and "\<And>i. i < slots g \<Longrightarrow> \<not> rv_dead g ! i \<Longrightarrow> fmlookup (rv_slot_of g) (rv_node_id g ! i) = Some (of_nat i)"
  shows "vamana_ok g"
  using assms unfolding vamana_ok_def by blast

lemma vamana_okD:
  assumes "vamana_ok g"
  shows "length (rv_rows g) = slots g" "length (rv_dead g) = slots g" "slots g < 2 ^ 32"
    "fmlookup (rv_slot_of g) nid = Some s \<Longrightarrow> unat s < slots g"
    "fmlookup (rv_slot_of g) nid = Some s \<Longrightarrow> rv_node_id g ! unat s = nid"
    "fmlookup (rv_slot_of g) nid = Some s \<Longrightarrow> \<not> rv_dead g ! unat s"
    "i < slots g \<Longrightarrow> \<not> rv_dead g ! i \<Longrightarrow> fmlookup (rv_slot_of g) (rv_node_id g ! i) = Some (of_nat i)"
  using assms unfolding vamana_ok_def by blast+

lemma rv_new_ok: "vamana_ok (rv_new nv dim me)" "row_of (rv_new nv dim me) nid = None" "slots (rv_new nv dim me) = 0"
  by (simp_all add: vamana_ok_def rv_new_def slots_def row_of_def)

lemma rv_remove_ok:
  assumes "vamana_ok g"
  shows "vamana_ok (rv_remove nid g)" "row_of (rv_remove nid g) k = (if k = nid then None else row_of g k)"
    "slots (rv_remove nid g) = slots g" "rv_metric (rv_remove nid g) = rv_metric g" "rv_dim (rv_remove nid g) = rv_dim g"
proof -
  show "vamana_ok (rv_remove nid g)"
  proof (cases "fmlookup (rv_slot_of g) nid")
    case None
    then show ?thesis using assms by (simp add: rv_remove_def)
  next
    case (Some s)
    then have s: "unat s < slots g" "rv_node_id g ! unat s = nid" using assms by (auto simp: vamana_ok_def)
    have dif: "unat s \<noteq> unat s'" if "fmlookup (rv_slot_of g) k = Some s'" "k \<noteq> nid" for k s'
      using assms s(2) that unfolding vamana_ok_def by metis
    moreover have "rv_node_id g ! i \<noteq> nid" if "i < slots g" "\<not> rv_dead g ! i" "i \<noteq> unat s" for i
    proof
      assume "rv_node_id g ! i = nid"
      then have "s = of_nat i" using assms that(1,2) Some by (auto simp: vamana_ok_def)
      then show False using that(1,3) assms by (simp add: vamana_ok_def unat_of_nat take_bit_nat_eq_self)
    qed
    ultimately show ?thesis
      using vamana_okD [OF assms] s(1)
      by (intro vamana_okI) (auto simp: rv_remove_def Some slots_def nth_list_update split: if_splits dest: dif)
  qed
qed (auto simp: rv_remove_def row_of_def slots_def split: option.splits)

lemma rv_insert_ok:
  assumes "vamana_ok g" "slots g + 1 < 2 ^ 32" "rv_insert nv nid v g = (Inr (), g')"
  shows "vamana_ok g'" "row_of g' k = (if k = nid then Some (point_row nv (rv_metric g) v) else row_of g k)"
    "slots g' = slots g + 1" "rv_metric g' = rv_metric g" "rv_dim g' = rv_dim g"
proof -
  let ?g = "rv_remove nid g"
  note r = rv_remove_ok [OF assms(1), of nid]
  have none: "fmlookup (rv_slot_of ?g) nid = None" using r(2) [of nid] by (simp add: row_of_def)
  obtain nav where g': "g' = ?g\<lparr>rv_rows := rv_rows ?g @ [point_row nv (rv_metric ?g) v], rv_node_id := rv_node_id ?g @ [nid],
      rv_dead := rv_dead ?g @ [False], rv_slot_of := fmupd nid (of_nat (length (rv_node_id ?g))) (rv_slot_of ?g), rv_nav := nav\<rparr>"
    using assms(3) by (auto simp: rv_insert_def Let_def split: if_splits prod.splits option.splits)
  have len: "unat (of_nat (slots ?g) :: u32) = slots ?g" using assms(2) r(3) by (simp add: unat_of_nat take_bit_nat_eq_self)
  note ok = vamana_okD [OF r(1)]
  have new: "rv_node_id ?g ! i \<noteq> nid" if "i < slots ?g" "\<not> rv_dead ?g ! i" for i using ok(7) [OF that] none by auto
  show len': "slots g' = slots g + 1" "rv_metric g' = rv_metric g" "rv_dim g' = rv_dim g"
    using r(3-5) by (simp_all add: g' slots_def)
  show "vamana_ok g'"
  proof (rule vamana_okI)
    show "length (rv_rows g') = slots g'" "length (rv_dead g') = slots g'" using ok(1,2) by (simp_all add: g' slots_def)
    show "slots g' < 2 ^ 32" using len'(1) assms(2) by simp
    fix k s assume k: "fmlookup (rv_slot_of g') k = Some s"
    show "unat s < slots g'" "rv_node_id g' ! unat s = k" "\<not> rv_dead g' ! unat s"
      using k ok(2) ok(4-6) [of k s] len by (auto simp: g' slots_def nth_append split: if_splits)
  next
    fix i assume i: "i < slots g'" "\<not> rv_dead g' ! i"
    show "fmlookup (rv_slot_of g') (rv_node_id g' ! i) = Some (of_nat i)"
    proof (cases "i = slots ?g")
      case True
      then show ?thesis by (simp add: g' slots_def nth_append)
    next
      case False
      then have i: "i < slots ?g" "\<not> rv_dead ?g ! i" using i ok(2) by (simp_all add: g' slots_def nth_append)
      then have "rv_node_id g' ! i = rv_node_id ?g ! i" by (simp add: g' slots_def nth_append)
      then show ?thesis using ok(7) [OF i] new [OF i] by (simp add: g')
    qed
  qed
  show "row_of g' k = (if k = nid then Some (point_row nv (rv_metric g) v) else row_of g k)"
    using r(2) [of k] r(4) ok(1) ok(4) [of k] len
    by (cases "fmlookup (rv_slot_of ?g) k") (auto simp: g' row_of_def slots_def nth_append)
qed

section \<open>An index is a function of the delta\<close>

text \<open>The index holds exactly what \<open>says\<close> says of every node: the vectors set, and as superseded every
  node it is not silent about.\<close>

fun placed :: "'g navigation \<Rightarrow> metric \<Rightarrow> delta_vector \<Rightarrow> f32 list option" where
  "placed nv me (Set v) = Some (point_row nv me v)"
| "placed nv me _ = None"

definition ix_exact :: "'g navigation \<Rightarrow> (u64 \<Rightarrow> delta_vector) \<Rightarrow> 'g rw_vector_index \<Rightarrow> bool" where
  "ix_exact nv says ix \<longleftrightarrow> vamana_ok (ix_graph ix) \<and>
     (\<forall>nid. row_of (ix_graph ix) nid = placed nv (rv_metric (ix_graph ix)) (says nid)) \<and>
     (\<forall>nid. nid |\<in>| ix_superseded ix \<longleftrightarrow> says nid \<noteq> Silent)"

lemma ix_exact_epoch [simp]: "ix_exact nv says (ix\<lparr>ix_epoch := e\<rparr>) = ix_exact nv says ix"
  by (simp add: ix_exact_def)

lemma ix_new_exact: "ix_exact nv (\<lambda>_. Silent) (ix_new nv dim me)"
  by (simp add: ix_exact_def ix_new_def rv_new_ok)

lemma ix_apply_keeps:
  "ix_apply nv nid x ix = (r, ix') \<Longrightarrow> ix_epoch ix' = ix_epoch ix \<and> ix_refused ix' = ix_refused ix"
  by (auto simp: ix_apply_def split: delta_vector.splits prod.splits sum.splits)

lemma ix_apply_exact:
  assumes "ix_exact nv s ix" "slots (ix_graph ix) + 1 < 2 ^ 32" "ix_apply nv nid x ix = (Inr (), ix')"
  shows "ix_exact nv (s(nid := x)) ix' \<and> slots (ix_graph ix') \<le> slots (ix_graph ix) + 1"
proof -
  have ok: "vamana_ok (ix_graph ix)" using assms(1) by (simp add: ix_exact_def)
  note r = rv_remove_ok [OF ok, of nid]
  show ?thesis
  proof (cases x)
    case (Set v)
    then obtain g where g: "rv_insert nv nid v (ix_graph ix) = (Inr (), g)"
      "ix' = ix\<lparr>ix_graph := g, ix_superseded := finsert nid (ix_superseded ix)\<rparr>"
      using assms(3) by (auto simp: ix_apply_def split: prod.splits sum.splits)
    note i = rv_insert_ok [OF ok assms(2) g(1)]
    show ?thesis using assms(1) i Set by (auto simp: g(2) ix_exact_def)
  qed (use assms(1,3) r in \<open>auto simp: ix_apply_def ix_exact_def\<close>)
qed

lemma apply_ids_keeps:
  "apply_ids nv resolve ids ix = (r, ix') \<Longrightarrow> ix_epoch ix' = ix_epoch ix \<and> ix_refused ix' = ix_refused ix"
proof (induction ids arbitrary: ix)
  case (Cons i ids)
  show ?case
  proof (cases "resolve i")
    case (Inr says)
    obtain r1 ix1 where 1: "ix_apply nv i says ix = (r1, ix1)" by fastforce
    show ?thesis using Cons ix_apply_keeps [OF 1] 1 Inr by (cases r1) simp_all
  qed (use Cons.prems in simp)
qed simp

lemma apply_ids_exact:
  assumes "ix_exact nv s0 ix" "slots (ix_graph ix) + length ids < 2 ^ 32" "\<forall>nid x. resolve nid = Inr x \<longrightarrow> x = s nid"
    and "apply_ids nv resolve ids ix = (Inr (), ix')"
  shows "ix_exact nv (\<lambda>nid. if nid \<in> set ids then s nid else s0 nid) ix' \<and> slots (ix_graph ix') \<le> slots (ix_graph ix) + length ids"
  using assms
proof (induction ids arbitrary: ix s0)
  case (Cons i ids)
  obtain ix1 where ix1: "ix_apply nv i (s i) ix = (Inr (), ix1)" "apply_ids nv resolve ids ix1 = (Inr (), ix')"
    using Cons.prems(3,4) by (auto split: prod.splits sum.splits)
  have a: "ix_exact nv (s0(i := s i)) ix1" "slots (ix_graph ix1) \<le> slots (ix_graph ix) + 1"
    using ix_apply_exact [OF Cons.prems(1) _ ix1(1)] Cons.prems(2) by simp_all
  have "ix_exact nv (\<lambda>nid. if nid \<in> set ids then s nid else (s0(i := s i)) nid) ix' \<and> slots (ix_graph ix') \<le> slots (ix_graph ix1) + length ids"
    by (rule Cons.IH [OF a(1) _ _ ix1(2)]) (use Cons.prems a(2) in simp_all)
  moreover have "(\<lambda>nid. if nid \<in> set ids then s nid else (s0(i := s i)) nid) = (\<lambda>nid. if nid \<in> set (i # ids) then s nid else s0 nid)"
    by auto
  ultimately show ?case using a(2) by auto
qed simp

lemma first_seen_set: "set (first_seen seen ids) = set ids - fset seen"
  by (induction seen ids rule: first_seen.induct) auto

lemma first_seen_length: "length (first_seen seen ids) \<le> length ids"
  by (induction seen ids rule: first_seen.induct) (auto intro: le_SucI)

text \<open>An index at an epoch is exact for what the delta said at that epoch, and within its bound.\<close>

definition index_ok :: "'g navigation \<Rightarrow> rw_index_config \<Rightarrow> (nat \<Rightarrow> u64 \<Rightarrow> delta_vector) \<Rightarrow> 'g rw_vector_index \<Rightarrow> bool" where
  "index_ok nv cfg hist ix \<longleftrightarrow> (\<forall>e. ix_epoch ix = Some e \<longrightarrow>
     ix_exact nv (hist (unat e)) ix \<and> slots (ix_graph ix) \<le> cfg_max_vectors cfg)"

lemma refuse_ok: "index_ok nv cfg hist (ix_refuse nv ix)"
  by (simp add: index_ok_def ix_refuse_def ix_new_like_def ix_new_def)

lemma advance_ok:
  assumes "ix_exact nv (hist e) ix" "slots (ix_graph ix) + length ids < 2 ^ 32"
    and "\<forall>nid. nid \<notin> set ids \<longrightarrow> hist (unat epoch) nid = hist e nid" "\<forall>nid x. resolve nid = Inr x \<longrightarrow> x = hist (unat epoch) nid"
    and "advance nv epoch ids cfg resolve ix = (r, ix')"
  shows "index_ok nv cfg hist ix'" "r = Inr () \<Longrightarrow> ix_epoch ix' = Some epoch \<or> ix_refused ix'"
proof -
  let ?ix = "ix\<lparr>ix_epoch := None\<rparr>" and ?ids = "first_seen {||} ids"
  obtain r1 ix1 where 1: "apply_ids nv resolve ?ids ?ix = (r1, ix1)" by fastforce
  have keep: "ix_epoch ix1 = None" using apply_ids_keeps [OF 1] by simp
  show "index_ok nv cfg hist ix'"
  proof (cases r1)
    case (Inl e)
    then have "ix' = ix1" using assms(5) 1 by (simp add: advance_def)
    then show ?thesis using keep by (simp add: index_ok_def)
  next
    case (Inr u)
    have "ix_exact nv (hist e) ?ix" using assms(1) by simp
    then have "ix_exact nv (\<lambda>nid. if nid \<in> set ?ids then hist (unat epoch) nid else hist e nid) ix1"
      using apply_ids_exact [of nv "hist e" ?ix ?ids resolve "hist (unat epoch)" ix1] 1 Inr assms(2,4) first_seen_length [of "{||}" ids] by simp
    moreover have "(\<lambda>nid. if nid \<in> set ?ids then hist (unat epoch) nid else hist e nid) = hist (unat epoch)"
      using assms(3) by (auto simp: first_seen_set)
    ultimately have "ix_exact nv (hist (unat epoch)) ix1" by simp
    then show ?thesis using assms(5) 1 Inr refuse_ok [of nv cfg hist ix1] by (auto simp: advance_def index_ok_def split: if_splits)
  qed
  show "r = Inr () \<Longrightarrow> ix_epoch ix' = Some epoch \<or> ix_refused ix'"
    using assms(5) 1 by (auto simp: advance_def ix_refuse_def split: sum.splits if_splits)
qed

lemma rebuild_ok:
  assumes "index_ok nv cfg hist ix" "cfg_max_vectors cfg < 2 ^ 32"
    and "\<forall>nid. nid \<notin> set candidates \<longrightarrow> hist (unat epoch) nid = Silent" "\<forall>nid x. resolve nid = Inr x \<longrightarrow> x = hist (unat epoch) nid"
    and "rebuild nv epoch candidates cfg resolve ix = (r, ix')"
  shows "index_ok nv cfg hist ix'" "r = Inr () \<Longrightarrow> ix_epoch ix' = Some epoch \<or> ix_refused ix'"
proof -
  let ?new = "ix_new_like nv ix"
  obtain r1 ix1 where 1: "apply_ids nv resolve candidates ?new = (r1, ix1)" by fastforce
  have "index_ok nv cfg hist ix'" if "length candidates \<le> cfg_max_vectors cfg" "r1 = Inr ()"
  proof -
    have "ix_exact nv (\<lambda>nid. if nid \<in> set candidates then hist (unat epoch) nid else Silent) ix1"
      using apply_ids_exact [of nv "\<lambda>_. Silent" ?new candidates resolve "hist (unat epoch)" ix1] 1 that assms(2,4)
      by (simp add: ix_new_like_def ix_new_exact) (simp add: ix_new_def rv_new_ok)
    moreover have "(\<lambda>nid. if nid \<in> set candidates then hist (unat epoch) nid else Silent) = hist (unat epoch)" using assms(3) by auto
    ultimately have "ix_exact nv (hist (unat epoch)) ix1" by simp
    then show ?thesis using assms(5) 1 that refuse_ok [of nv cfg hist ix1] by (auto simp: rebuild_def index_ok_def split: if_splits)
  qed
  then show "index_ok nv cfg hist ix'"
    using assms(1,5) 1 refuse_ok [of nv cfg hist ?new] by (cases r1) (auto simp: rebuild_def split: if_splits)
  show "r = Inr () \<Longrightarrow> ix_epoch ix' = Some epoch \<or> ix_refused ix'"
    using assms(5) 1 by (auto simp: rebuild_def ix_refuse_def split: sum.splits if_splits)
qed

section \<open>The cache serves exactly the epoch asked for\<close>

lemma journal_range_short:
  assumes "journal_ok touched latest j" "j_floor j \<le> from" "from < till" "unat till \<le> latest"
  shows "length (concat (map touched [Suc (unat from)..<Suc (unat till)])) \<le> length (concat (map snd (j_entries j)))"
proof -
  obtain a where a: "a \<le> Suc (unat (j_floor j))" "j_entries j = map (\<lambda>e. (of_nat e, touched e)) [a..<Suc latest]"
    using assms(1) by (auto simp: journal_ok_def)
  have le: "a \<le> Suc (unat from)" "Suc (unat from) \<le> Suc (unat till)" "Suc (unat till) \<le> Suc latest"
    using a(1) assms(2-4) by (simp_all add: word_le_nat_alt word_less_nat_alt)
  have "[a..<Suc latest] = [a..<Suc (unat from)] @ [Suc (unat from)..<Suc (unat till)] @ [Suc (unat till)..<Suc latest]"
    using upt_skip [OF le(1), of "Suc latest"] upt_skip [OF le(2), of "Suc latest"] le by (simp add: min_def del: upt.simps)
  then show ?thesis unfolding a(2) map_map comp_def snd_conv by (simp del: upt.simps)
qed

text \<open>Between two epochs the journal covers, a node it does not list says the same.\<close>

lemma unlisted_unchanged:
  assumes "\<forall>e nid. a \<le> e \<and> nid \<notin> set (touched (Suc e)) \<longrightarrow> hist (Suc e) nid = hist e nid"
    and "a \<le> f" "nid \<notin> set (concat (map touched [Suc f..<Suc t]))" "f \<le> t"
  shows "hist t nid = hist f nid"
  using assms(3,4)
proof (induction "t - f" arbitrary: t)
  case (Suc k)
  obtain t' where t: "t = Suc t'" using Suc.hyps(2) by (cases t) auto
  have f: "f \<le> t'" using Suc.hyps(2) t by simp
  have "nid \<notin> set (touched (Suc t'))" "nid \<notin> set (concat (map touched [Suc f..<Suc t']))"
    using Suc.prems(1) t f by (auto simp: upt_Suc_append)
  then show ?case using Suc.hyps(1) [of t'] Suc.hyps(2) t f assms(1,2) by auto
qed simp

lemma settle_ok:
  assumes "ensure_settle cfg (x, g) = (r, g')" "\<And>u. x = Inr u \<Longrightarrow> ix_epoch g = Some epoch \<or> ix_refused g"
  shows "g' = g \<and> (r = Inr (Ready ix) \<longrightarrow> ix = g \<and> ix_epoch g = Some epoch)"
  using assms by (auto simp: ensure_settle_def split: sum.splits if_splits)

lemma advance_covered:
  assumes ok: "index_ok nv cfg hist g" and j: "journal_ok touched latest journal" "unat epoch \<le> latest"
    and same: "\<forall>e nid. unat (j_floor journal) \<le> e \<and> nid \<notin> set (touched (Suc e)) \<longrightarrow> hist (Suc e) nid = hist e nid"
    and res: "\<forall>nid x. resolve nid = Inr x \<longrightarrow> x = hist (unat epoch) nid"
    and cap: "cfg_max_vectors cfg + length (concat (map snd (j_entries journal))) < 2 ^ 32"
    and e: "ix_epoch g = Some e" "e < epoch" "journal_since journal e epoch = Some ids"
    and run: "advance nv epoch ids cfg resolve g = (x, y)"
  shows "index_ok nv cfg hist y" "x = Inr () \<Longrightarrow> ix_epoch y = Some epoch \<or> ix_refused y"
proof -
  have t: "unat epoch < 2 ^ 64 - 1" using j by (simp add: journal_ok_def)
  have range: "j_floor journal \<le> e" "ids = concat (map touched [Suc (unat e)..<Suc (unat epoch)])"
    using e(2,3) journal_since_answers [OF j(1) t, of e] by (auto split: if_splits)
  have g: "ix_exact nv (hist (unat e)) g" "slots (ix_graph g) \<le> cfg_max_vectors cfg" using ok e(1) by (simp_all add: index_ok_def)
  have "length ids \<le> length (concat (map snd (j_entries journal)))"
    unfolding range(2) by (rule journal_range_short [OF j(1) range(1) e(2) j(2)])
  then have room: "slots (ix_graph g) + length ids < 2 ^ 32" using g(2) cap by simp
  have le: "unat (j_floor journal) \<le> unat e" "unat e \<le> unat epoch"
    using range(1) e(2) by (simp_all add: word_le_nat_alt word_less_nat_alt)
  have "\<forall>nid. nid \<notin> set ids \<longrightarrow> hist (unat epoch) nid = hist (unat e) nid"
    unfolding range(2) using unlisted_unchanged [OF same le(1) _ le(2)] by blast
  note a = advance_ok [OF g(1) room this res run]
  show "index_ok nv cfg hist y" "x = Inr () \<Longrightarrow> ix_epoch y = Some epoch \<or> ix_refused y" using a by blast+
qed

lemma ensure_write_exact:
  assumes ok: "index_ok nv cfg hist g" and j: "journal_ok touched latest journal" "unat epoch \<le> latest"
    and same: "\<forall>e nid. unat (j_floor journal) \<le> e \<and> nid \<notin> set (touched (Suc e)) \<longrightarrow> hist (Suc e) nid = hist e nid"
    and all: "\<forall>nid. nid \<notin> set candidates \<longrightarrow> hist (unat epoch) nid = Silent"
    and res: "\<forall>nid x. resolve nid = Inr x \<longrightarrow> x = hist (unat epoch) nid"
    and cap: "cfg_max_vectors cfg + length (concat (map snd (j_entries journal))) < 2 ^ 32"
    and run: "ensure_write nv cfg journal epoch candidates resolve g = (r, g')"
  shows "index_ok nv cfg hist g'" "r = Inr (Ready ix) \<Longrightarrow> ix = g' \<and> ix_epoch g' = Some epoch"
proof -
  have max: "cfg_max_vectors cfg < 2 ^ 32" using cap by simp
  have build: "index_ok nv cfg hist g' \<and> (r = Inr (Ready ix) \<longrightarrow> ix = g' \<and> ix_epoch g' = Some epoch)"
    if "ensure_settle cfg (rebuild nv epoch candidates cfg resolve g) = (r, g')"
  proof -
    obtain x y where xy: "rebuild nv epoch candidates cfg resolve g = (x, y)" by fastforce
    note b = rebuild_ok [OF ok max all res xy]
    have "ensure_settle cfg (x, y) = (r, g')" using that xy by simp
    then have "g' = y \<and> (r = Inr (Ready ix) \<longrightarrow> ix = y \<and> ix_epoch y = Some epoch)" by (rule settle_ok) (use b(2) in simp)
    then show ?thesis using b(1) by blast
  qed
  have step: "index_ok nv cfg hist g' \<and> (r = Inr (Ready ix) \<longrightarrow> ix = g' \<and> ix_epoch g' = Some epoch)"
    if e: "ix_epoch g = Some e" "e < epoch" "journal_since journal e epoch = Some ids"
      "ensure_settle cfg (advance nv epoch ids cfg resolve g) = (r, g')" for e ids
  proof -
    obtain x y where xy: "advance nv epoch ids cfg resolve g = (x, y)" by fastforce
    note a = advance_covered [OF ok j same res cap e(1-3) xy]
    have "ensure_settle cfg (x, y) = (r, g')" using e(4) xy by simp
    then have "g' = y \<and> (r = Inr (Ready ix) \<longrightarrow> ix = y \<and> ix_epoch y = Some epoch)" by (rule settle_ok) (use a(2) in simp)
    then show ?thesis using a(1) by blast
  qed
  have "index_ok nv cfg hist g' \<and> (r = Inr (Ready ix) \<longrightarrow> ix = g' \<and> ix_epoch g' = Some epoch)"
  proof (cases "ix_refused g")
    case True
    then show ?thesis using run ok by (auto simp: ensure_write_def)
  next
    case live: False
    show ?thesis
    proof (cases "ix_epoch g")
      case None
      then have "ensure_settle cfg (rebuild nv epoch candidates cfg resolve g) = (r, g')" using run live by (simp add: ensure_write_def)
      then show ?thesis by (rule build)
    next
      case (Some e)
      consider "e = epoch" | "e > epoch" | "e < epoch" by fastforce
      then show ?thesis
      proof cases
        case 3
        then have ne: "e \<noteq> epoch" "\<not> e > epoch" by auto
        show ?thesis
        proof (cases "journal_since journal e epoch")
          case None
          then have "ensure_settle cfg (rebuild nv epoch candidates cfg resolve g) = (r, g')"
            using run live Some ne by (simp add: ensure_write_def)
          then show ?thesis by (rule build)
        next
          case ids: (Some ids)
          then have "ensure_settle cfg (advance nv epoch ids cfg resolve g) = (r, g')"
            using run live Some ne by (simp add: ensure_write_def)
          then show ?thesis by (rule step [OF Some 3 ids])
        qed
      qed (use run ok live Some in \<open>auto simp: ensure_write_def split: if_splits\<close>)
    qed
  qed
  then show "index_ok nv cfg hist g'" "r = Inr (Ready ix) \<Longrightarrow> ix = g' \<and> ix_epoch g' = Some epoch" by blast+
qed

definition cache_ok :: "'g navigation \<Rightarrow> rw_index_config \<Rightarrow> (gen_id \<Rightarrow> str \<times> str \<Rightarrow> nat \<Rightarrow> u64 \<Rightarrow> delta_vector)
    \<Rightarrow> 'g rw_index_cache \<Rightarrow> bool" where
  "cache_ok nv cfg hist cache \<longleftrightarrow> (\<forall>gen h key ix. (gen, h) \<in> set cache \<longrightarrow> fmlookup h key = Some ix \<longrightarrow>
     index_ok nv cfg (hist gen key) ix) \<and> length cache \<le> MAX_LIVE_GENERATIONS"

lemma evict_oldest_drop: "evict_oldest xs = drop (length xs - MAX_LIVE_GENERATIONS) xs"
  by (induction xs) (auto simp: Suc_diff_le)

lemma put_index_ok: "cache_ok nv cfg hist cache \<Longrightarrow> index_ok nv cfg (hist gen key) ix \<Longrightarrow> cache_ok nv cfg hist (put_index gen key ix cache)"
  unfolding cache_ok_def put_index_def by (auto split: if_splits)

lemma index_for_ok:
  assumes "cache_ok nv cfg hist cache" "index_for nv gen key dim me cache = (ix, cache')"
  shows "index_ok nv cfg (hist gen key) ix" "cache_ok nv cfg hist cache'"
proof -
  have new: "index_ok nv cfg (hist gen key) (ix_new nv dim me)" by (simp add: index_ok_def ix_new_def)
  have held: "index_ok nv cfg (hist gen key) x" if "map_of cache gen = Some h" "fmlookup h key = Some x" for h x
    using assms(1) map_of_SomeD [OF that(1)] that(2) unfolding cache_ok_def by blast
  have "cache_ok nv cfg hist (evict_oldest (cache @ [(gen, fmempty)]))"
    using assms(1) by (auto simp: cache_ok_def evict_oldest_drop dest!: in_set_dropD)
  then have h: "(case map_of cache gen of Some h \<Rightarrow> (h, cache) | None \<Rightarrow> (fmempty, evict_oldest (cache @ [(gen, fmempty)]))) = (h, gens)
      \<Longrightarrow> cache_ok nv cfg hist gens \<and> (\<forall>ix. fmlookup h key = Some ix \<longrightarrow> index_ok nv cfg (hist gen key) ix)" for h gens
    using assms(1) held by (auto split: option.splits)
  show "index_ok nv cfg (hist gen key) ix" "cache_ok nv cfg hist cache'"
    using assms(2) h new put_index_ok [of nv cfg hist _ gen key] by (auto simp: index_for_def Let_def split: prod.splits option.splits)
qed

text \<open>C10: A query is served by an index only at its own epoch, and that index holds exactly what its own
  snapshot says of every node, however it got there: built from scratch, brought forward over the
  journal's ids, or found ready. The cache keeps this for every generation and index it holds, also when
  resolving or inserting fails part-way, and never keeps more than two generations.\<close>

theorem ensure_serves_exact:
  assumes ok: "cache_ok nv cfg hist cache" and j: "journal_ok touched latest journal" "unat epoch \<le> latest"
    and same: "\<forall>e nid. unat (j_floor journal) \<le> e \<and> nid \<notin> set (touched (Suc e)) \<longrightarrow> hist gen key (Suc e) nid = hist gen key e nid"
    and all: "\<forall>nid. nid \<notin> set candidates \<longrightarrow> hist gen key (unat epoch) nid = Silent"
    and res: "\<forall>nid x. resolve nid = Inr x \<longrightarrow> x = hist gen key (unat epoch) nid"
    and cap: "cfg_max_vectors cfg + length (concat (map snd (j_entries journal))) < 2 ^ 32"
    and run: "ensure nv gen key dim me epoch cfg journal candidates resolve cache = (r, cache')"
  shows "cache_ok nv cfg hist cache' \<and>
    (\<forall>ix. r = Inr (Ready ix) \<longrightarrow> ix_epoch ix = Some epoch \<and> ix_exact nv (hist gen key (unat epoch)) ix)"
proof (cases "cfg_enabled cfg")
  case False
  then show ?thesis using run ok by (auto simp: ensure_def)
next
  case True
  obtain ix cache1 where i: "index_for nv gen key dim me cache = (ix, cache1)" by fastforce
  note f = index_for_ok [OF ok i]
  show ?thesis
  proof (cases "ensure_read cfg epoch ix")
    case (Some l)
    then have "r = Inr l" "cache' = cache1" using run True i by (simp_all add: ensure_def)
    then show ?thesis using f Some by (auto simp: ensure_read_def index_ok_def split: if_splits)
  next
    case None
    obtain r1 ix1 where w: "ensure_write nv cfg journal epoch candidates resolve ix = (r1, ix1)" by fastforce
    have r: "r = r1" "cache' = put_index gen key ix1 cache1" using run True i None w by (simp_all add: ensure_def)
    note e = ensure_write_exact [OF f(1) j same all res cap w]
    have "ix' = ix1 \<and> ix_epoch ix1 = Some epoch" if "r = Inr (Ready ix')" for ix' using e(2) that r(1) by blast
    then show ?thesis using e(1) put_index_ok [of nv cfg hist cache1 gen key ix1, OF f(2) e(1)] r(2) by (auto simp: index_ok_def)
  qed
qed

definition ex_nav :: "unit navigation" where
  "ex_nav = \<lparr>nav_new = (), nav_weave = (\<lambda>_ _ _. (None, ())), normalise_into = (\<lambda>v. v)\<rparr>"

definition ex_hist :: "nat \<Rightarrow> u64 \<Rightarrow> delta_vector" where
  "ex_hist e nid = (if 2 \<le> e \<and> nid = 7 then Set [0x3F800000] else if 3 \<le> e \<and> nid = 9 then Gone else Silent)"

definition ex_touched :: "nat \<Rightarrow> u64 list" where
  "ex_touched e = (if e = 2 then [7] else if e = 3 then [9] else [])"

definition ex_cfg :: rw_index_config where
  "ex_cfg = \<lparr>cfg_enabled = True, cfg_min_vectors = 1, cfg_max_vectors = 10\<rparr>"

definition ex_journal :: touched_journal where
  "ex_journal = journal_record 3 [9] (journal_record 2 [7] (journal_new 1))"

text \<open>An index built at epoch 2 and brought forward to epoch 3.\<close>

definition ex_cache :: "unit rw_index_cache" where
  "ex_cache = snd (ensure ex_nav 1 ([], []) 1 L2 2 ex_cfg ex_journal [7] (\<lambda>nid. Inr (ex_hist 2 nid)) [])"

lemma ex_journal_value: "ex_journal = \<lparr>j_entries = [(2, [7]), (3, [9])], j_floor = 1, j_ids = 2\<rparr>"
  by (simp add: ex_journal_def journal_record_def journal_new_def JOURNAL_MAX_ENTRIES_def JOURNAL_MAX_IDS_def)

lemma ex_journal_ok: "journal_ok ex_touched 3 ex_journal"
proof -
  have "[2..<4] = [2, 3 :: nat]" by (simp add: upt_rec)
  then show ?thesis by (auto simp: ex_journal_value journal_ok_def ex_touched_def intro!: exI [of _ 2])
qed

lemmas ex_run_simps = ensure_def index_for_def ensure_read_def ensure_write_def ensure_settle_def rebuild_def advance_def
  ix_apply_def ix_new_like_def ix_new_def rv_new_def rv_insert_def rv_remove_def point_row_def put_index_def is_finite_def
  live_count_def slots_def journal_since_def ex_journal_value ex_cfg_def ex_nav_def MAX_LIVE_GENERATIONS_def

theorem ensure_serves_exact_witness:
  "\<exists>ix cache'. ensure ex_nav 1 ([], []) 1 L2 3 ex_cfg ex_journal [7, 9] (\<lambda>nid. Inr (ex_hist 3 nid)) ex_cache = (Inr (Ready ix), cache') \<and>
     ix_exact ex_nav (ex_hist 3) ix \<and> row_of (ix_graph ix) 7 = Some [0x3F800000] \<and> 9 |\<in>| ix_superseded ix"
proof -
  note j = ex_journal_ok
  have same: "\<forall>e nid. unat (j_floor ex_journal) \<le> e \<and> nid \<notin> set (ex_touched (Suc e)) \<longrightarrow> ex_hist (Suc e) nid = ex_hist e nid"
    by (auto simp: ex_journal_value ex_hist_def ex_touched_def)
  have cap: "cfg_max_vectors ex_cfg + length (concat (map snd (j_entries ex_journal))) < 2 ^ 32"
    by (simp add: ex_cfg_def ex_journal_value)
  have old: "cache_ok ex_nav ex_cfg (\<lambda>_ _. ex_hist) ex_cache"
    unfolding ex_cache_def
    using ensure_serves_exact [of ex_nav ex_cfg "\<lambda>_ _. ex_hist" "[]" ex_touched 3 ex_journal 2 1 "([], [])" "[7]" "\<lambda>nid. Inr (ex_hist 2 nid)" 1 L2, OF _ j _ same _ _ cap surjective_pairing]
    by (simp add: cache_ok_def ex_hist_def MAX_LIVE_GENERATIONS_def)
  let ?run = "ensure ex_nav 1 ([], []) 1 L2 3 ex_cfg ex_journal [7, 9] (\<lambda>nid. Inr (ex_hist 3 nid)) ex_cache"
  have "case fst ?run of Inr (Ready ix) \<Rightarrow> row_of (ix_graph ix) 7 = Some [0x3F800000] \<and> 9 |\<in>| ix_superseded ix | _ \<Rightarrow> False"
    by (simp add: ex_cache_def ex_run_simps ex_hist_def row_of_def)
  then obtain ix cache' where ix: "?run = (Inr (Ready ix), cache')" "row_of (ix_graph ix) 7 = Some [0x3F800000]" "9 |\<in>| ix_superseded ix"
    by (cases ?run) (auto split: sum.splits rw_lookup.splits)
  have "\<forall>nid. nid \<notin> set [7, 9] \<longrightarrow> ex_hist 3 nid = Silent" by (simp add: ex_hist_def)
  then have "ix_exact ex_nav (ex_hist 3) ix"
    using ensure_serves_exact [OF old j _ same _ _ cap ix(1)] by simp
  then show ?thesis using ix by blast
qed

text \<open>Under the write guard an index already at the query's epoch is served without the test for the
  minimum number of vectors that the fast path makes.\<close>

lemma write_guard_skips_minimum:
  "let ix = ix_new ex_nav 1 L2\<lparr>ix_epoch := Some 4\<rparr>
   in ensure_read ex_cfg 4 ix = Some BruteForce \<and>
      ensure_write ex_nav ex_cfg (journal_new 4) 4 [] (\<lambda>_. Inr Silent) ix = (Inr (Ready ix), ix)"
  by (simp add: Let_def ensure_read_def ensure_write_def ix_new_def rv_new_def ex_cfg_def live_count_def)

end
