(* ===== verification/Delta_Writer.thy ===== *)
theory Delta_Writer
  imports L0_Segment Merge_Levels Compaction_Run Rw_Index
begin

text \<open>
  The writer of one graph, \<^verbatim>\<open>slater/src/delta_writer.rs\<close>: it logs a batch, folds it into the active
  memtable and publishes the result; it flushes the memtable to a sealed level, compacts levels, hands
  the delta over to a consolidation and drops it afterwards; and it reopens from what is on disk.
  Every operation runs under the writer's lock and is one step. Levels are resident (\<^verbatim>\<open>offHeapL0\<close> off).
\<close>

section \<open>State\<close>

text \<open>A log segment that is no longer open: what the file holds and what a power loss leaves of it.\<close>

record wal_file =
  wf_data :: "byte list"
  wf_durable :: "byte list"

record published =
  pub_delta :: delta_snapshot
  pub_epoch :: u64

text \<open>The writer with the files it owns: the open segment, the other segments by number, the level files,
  the directories. \<open>w_l0\<close> is newest first.\<close>

record writer =
  w_sink :: wal_sink
  w_mem :: memtable
  w_l0 :: "l0_segment list"
  w_seq :: u64
  w_cipher :: "delta_cipher option"
  w_published :: published
  w_touched :: touched_journal
  w_core_uuid :: gen_id
  w_consolidating :: bool
  w_closed :: "(u64, wal_file) fmap"
  w_dir :: wal_dir
  w_levels :: l0_dir

record writer_env =
  e_crc :: "byte list \<Rightarrow> u32"
  e_cap :: nat
  e_layout :: layout

text \<open>An operation fails with an error of the layers below, or by a panic that unwinds to its caller.\<close>

datatype write_error = WError error | WPanic

type_synonym 'a writer_op = "writer \<Rightarrow> (write_error + 'a) \<times> writer"

definition wbind :: "'a writer_op \<Rightarrow> ('a \<Rightarrow> 'b writer_op) \<Rightarrow> 'b writer_op" where
  "wbind m f w = (case m w of (Inl e, w') \<Rightarrow> (Inl e, w') | (Inr x, w') \<Rightarrow> f x w')"

fun lift_error :: "error + 'a \<Rightarrow> write_error + 'a" where
  "lift_error (Inl e) = Inl (WError e)"
| "lift_error (Inr x) = Inr x"

definition on_dir :: "(wal_dir \<Rightarrow> (error + 'a) \<times> wal_dir) \<Rightarrow> 'a writer_op" where
  "on_dir f w = (case f (w_dir w) of (r, d) \<Rightarrow> (lift_error r, w\<lparr>w_dir := d\<rparr>))"

definition on_levels :: "'a l0_op \<Rightarrow> 'a writer_op" where
  "on_levels f w = (case f (w_levels w) of (r, d) \<Rightarrow> (lift_error r, w\<lparr>w_levels := d\<rparr>))"

definition level_mems :: "writer \<Rightarrow> memtable list" where
  "level_mems w = map ls_mem (w_l0 w)"

section \<open>Publishing\<close>

datatype journal_note = Touched "u64 list" | Rebased

definition published_snapshot :: "memtable \<Rightarrow> l0_segment list \<Rightarrow> delta_snapshot" where
  "published_snapshot mem l0 = with_levels mem (map (as_level \<circ> ls_mem) l0)"

definition republish :: "journal_note \<Rightarrow> writer \<Rightarrow> writer" where
  "republish note w =
     (let epoch = pub_epoch (w_published w) + 1
      in w\<lparr>w_touched := (case note of Touched ids \<Rightarrow> journal_record epoch ids (w_touched w)
              | Rebased \<Rightarrow> journal_record epoch [] (journal_reset epoch (w_touched w))),
           w_published := \<lparr>pub_delta = published_snapshot (w_mem w) (w_l0 w), pub_epoch = epoch\<rparr>\<rparr>)"

definition touched_node_ids :: "memtable \<Rightarrow> (wal_op \<times> op_resolution) list \<Rightarrow> u64 list" where
  "touched_node_ids mem ops = List.map_filter (\<lambda>(op, res).
     case wal_node_key op of None \<Rightarrow> None
     | Some (label, key, v) \<Rightarrow> (case res of
         ResNode (Some d) \<Rightarrow> Some d
       | ResNode None \<Rightarrow> born_synthetic_for_identity mem label key v
       | ResEdge _ _ _ \<Rightarrow> None)) ops"

section \<open>Writing\<close>

fun apply_resolved :: "layout \<Rightarrow> (wal_op \<times> op_resolution) list \<Rightarrow> memtable \<Rightarrow> memtable option" where
  "apply_resolved lay [] m = Some m"
| "apply_resolved lay ((op, res) # ops) m = Option.bind (apply_op lay op res m) (apply_resolved lay ops)"

fun number_records :: "u64 \<Rightarrow> (wal_op \<times> op_resolution) list \<Rightarrow> wal_record list" where
  "number_records s [] = []"
| "number_records s ((op, _) # ops) = \<lparr>rseq = s + 1, rop = op\<rparr> # number_records (s + 1) ops"

definition on_sink :: "'a sink_op \<Rightarrow> 'a writer_op" where
  "on_sink f w = (case f (w_sink w) of (r, s) \<Rightarrow> (lift_error r, w\<lparr>w_sink := s\<rparr>))"

definition write_op :: "writer_env \<Rightarrow> wal_op \<Rightarrow> op_resolution \<Rightarrow> u64 writer_op" where
  "write_op env op resolved w =
     (case apply_op (e_layout env) op resolved (w_mem w) of None \<Rightarrow> (Inl WPanic, w)
      | Some mem \<Rightarrow> let s = w_seq w + 1 in
          wbind (on_sink (append_batch (e_crc env) (e_cap env) [\<lparr>rseq = s, rop = op\<rparr>] s)) (\<lambda>_ w1.
            (Inr s, republish (Touched (touched_node_ids mem [(op, resolved)])) (w1\<lparr>w_seq := s, w_mem := mem\<rparr>))) w)"

definition write_batch :: "writer_env \<Rightarrow> (wal_op \<times> op_resolution) list \<Rightarrow> u64 writer_op" where
  "write_batch env ops w =
     (if ops = [] then (Inr (w_seq w), w)
      else case apply_resolved (e_layout env) ops (w_mem w) of None \<Rightarrow> (Inl WPanic, w)
        | Some mem \<Rightarrow>
            let recs = number_records (w_seq w) ops; last_s = w_seq w + of_nat (length ops) in
            wbind (on_sink (append_batch (e_crc env) (e_cap env) recs last_s)) (\<lambda>_ w1.
              (Inr last_s, republish (Touched (touched_node_ids mem ops)) (w1\<lparr>w_mem := mem\<rparr>)))
              (w\<lparr>w_seq := last_s\<rparr>))"

section \<open>Segments and level files\<close>

text \<open>All log segments on disk, the open one included.\<close>

definition wal_files :: "writer \<Rightarrow> (u64, wal_file) fmap" where
  "wal_files w = fmupd (segment (w_sink w)) \<lparr>wf_data = fdata (w_sink w), wf_durable = synced (w_sink w)\<rparr> (w_closed w)"

definition wal_segment_paths :: "writer \<Rightarrow> u64 list" where
  "wal_segment_paths w = map fst (sorted_list_of_fmap (wal_files w))"

definition next_number :: "u64 list \<Rightarrow> u64" where
  "next_number ns = (if ns = [] then 0 else Max (set ns) + 1)"

definition next_segment_number :: "(u64, wal_file) fmap \<Rightarrow> u64" where
  "next_segment_number files = next_number (map fst (sorted_list_of_fmap files))"

definition l0_segment_paths_sorted :: "l0_dir \<Rightarrow> u64 list" where
  "l0_segment_paths_sorted d = map fst (sorted_list_of_fmap (lf_files d))"

definition next_l0_number :: "l0_dir \<Rightarrow> u64" where
  "next_l0_number d = (case rev (l0_segment_paths_sorted d) of [] \<Rightarrow> 0 | n # _ \<Rightarrow> n + 1)"

fun remove_segments :: "u64 list \<Rightarrow> unit writer_op" where
  "remove_segments [] w = (Inr (), w)"
| "remove_segments (p # ps) w =
     wbind (on_dir (dir_call (\<lambda>d. d))) (\<lambda>_ w1. remove_segments ps (w1\<lparr>w_closed := fmdrop p (w_closed w1)\<rparr>)) w"

definition remove_level :: "u64 \<Rightarrow> unit l0_op" where
  "remove_level p = l0_step (\<lambda>d. d\<lparr>lf_files := fmdrop p (lf_files d)\<rparr>) (\<lambda>_ d. d)"

fun remove_levels :: "u64 list \<Rightarrow> unit l0_op" where
  "remove_levels [] d = (Inr (), d)"
| "remove_levels (p # ps) d = sbind (remove_level p) (\<lambda>_. remove_levels ps) d"

text \<open>Opening the next segment and sealing the one it replaces; the old sink is given up even when sealing
  it fails.\<close>

definition rotate_log :: "writer_env \<Rightarrow> byte list list \<Rightarrow> unit writer_op" where
  "rotate_log env nonces =
     wbind (\<lambda>w. on_dir (create (e_cap env) (next_segment_number (wal_files w)) (w_cipher w) nonces) w) (\<lambda>fresh w.
       case seal_segment (w_sink w) of (r, old) \<Rightarrow>
         (lift_error (map_sum id (\<lambda>_. ()) r),
          w\<lparr>w_sink := fresh, w_closed := fmupd (segment old) \<lparr>wf_data = fdata old, wf_durable = synced old\<rparr> (w_closed w)\<rparr>))"

section \<open>Flushing and compacting\<close>

definition flush_to_l0 :: "writer_env \<Rightarrow> byte list \<Rightarrow> byte list list \<Rightarrow> bool writer_op" where
  "flush_to_l0 env nonce nonces w0 =
     (if w_consolidating w0 then (Inr False, w0)
      else if mem_is_empty (w_mem w0) then (Inr False, w0)
      else
        let mem = w_mem w0; cph = w_cipher w0 in
        wbind (on_levels (l0_step (\<lambda>d. d) (\<lambda>_ d. d))) (\<lambda>_ w.
        let n = next_l0_number (w_levels w) in
        wbind (on_levels (l0_write (e_crc env) cph nonce mem n)) (\<lambda>_.
        wbind (on_levels (l0_open (e_crc env) cph n)) (\<lambda>level w.
        let consumed = wal_segment_paths w in
        wbind (rotate_log env nonces) (\<lambda>_ w.
        wbind (remove_segments consumed) (\<lambda>_ w. (Inr True, republish (Touched []) w))
          (w\<lparr>w_mem := with_bases (m_base mem + born_count mem) (m_edge_base mem + born_edge_count mem),
             w_l0 := level # w_l0 w\<rparr>)) w)) w) w0)"

definition compact_l0 :: "writer_env \<Rightarrow> byte list \<Rightarrow> bool writer_op" where
  "compact_l0 env nonce w0 =
     (if w_consolidating w0 then (Inr False, w0)
      else if length (w_l0 w0) < 2 then (Inr False, w0)
      else case select_compaction_run_in_stack (map (m_bytes \<circ> ls_mem) (w_l0 w0)) (map (\<lambda>_. False) (w_l0 w0)) of
          None \<Rightarrow> (Inr False, w0)
        | Some (start, stop) \<Rightarrow>
            let oldest_path = ls_path (w_l0 w0 ! (stop - 1));
                consumed = map ls_path (take (stop - 1 - start) (drop start (w_l0 w0)));
                run = map ls_mem (take (stop - start) (drop start (w_l0 w0)))
            in case merge_levels (e_layout env) run of None \<Rightarrow> (Inl WPanic, w0)
               | Some merged \<Rightarrow>
                   wbind (on_levels (l0_write (e_crc env) (w_cipher w0) nonce merged oldest_path)) (\<lambda>_.
                   wbind (on_levels (l0_open (e_crc env) (w_cipher w0) oldest_path)) (\<lambda>level w.
                   wbind (on_levels (remove_levels consumed)) (\<lambda>_ w. (Inr True, w))
                     (republish (Touched []) (w\<lparr>w_l0 := take start (w_l0 w) @ level # drop stop (w_l0 w)\<rparr>)))) w0)"

section \<open>Consolidation\<close>

record frozen =
  fz_snapshot :: memtable
  fz_l0 :: "level_read list"
  fz_consumed :: "u64 list"
  fz_consumed_l0 :: "u64 list"

definition begin_consolidation :: "writer \<Rightarrow> bool \<times> writer" where
  "begin_consolidation w = (if w_consolidating w then (False, w) else (True, w\<lparr>w_consolidating := True\<rparr>))"

definition end_consolidation :: "writer \<Rightarrow> writer" where
  "end_consolidation w = w\<lparr>w_consolidating := False\<rparr>"

definition freeze :: "writer_env \<Rightarrow> byte list list \<Rightarrow> frozen writer_op" where
  "freeze env nonces w0 =
     (let consumed = wal_segment_paths w0; consumed_l0 = map ls_path (w_l0 w0) in
      wbind (rotate_log env nonces) (\<lambda>_ w.
        (Inr \<lparr>fz_snapshot = w_mem w, fz_l0 = map (as_level \<circ> ls_mem) (w_l0 w), fz_consumed = consumed,
              fz_consumed_l0 = consumed_l0\<rparr>, w)) w0)"

text \<open>The directory as the replay lists it, with what reading each segment gives.\<close>

definition listing :: "(wal_file \<Rightarrow> byte list) \<Rightarrow> (u64, wal_file) fmap \<Rightarrow> dir_entry list" where
  "listing content files = map (\<lambda>(n, f). (segment_file_name n, Inr (content f))) (sorted_list_of_fmap files)"

definition retire :: "writer_env \<Rightarrow> u64 list \<Rightarrow> u64 list \<Rightarrow> gen_id \<Rightarrow> u64 \<Rightarrow> u64 \<Rightarrow> (wal_op \<Rightarrow> op_resolution) \<Rightarrow> unit writer_op" where
  "retire env consumed consumed_l0 new_core_uuid new_core_node_count new_core_edge_count resolve w0 =
     wbind (remove_segments consumed) (\<lambda>_.
     wbind (on_levels (remove_levels consumed_l0)) (\<lambda>_ w.
       case replay_dir (e_crc env) (w_cipher w) (Some (listing wf_data (wal_files w))) of
         Inl e \<Rightarrow> (Inl (WError e), w)
       | Inr rp \<Rightarrow>
           (case apply_all (e_layout env) resolve (map rop (records rp)) (with_bases new_core_node_count new_core_edge_count) of
              None \<Rightarrow> (Inl WPanic, w)
            | Some mem \<Rightarrow> (Inr (), (republish Rebased (w\<lparr>w_l0 := [], w_seq := last_seq rp, w_mem := mem\<rparr>))
                \<lparr>w_core_uuid := new_core_uuid\<rparr>)))) w0"

definition rebind_core_uuid :: "gen_id \<Rightarrow> writer \<Rightarrow> writer" where
  "rebind_core_uuid new_core_uuid w = (republish (Touched []) w)\<lparr>w_core_uuid := new_core_uuid\<rparr>"

section \<open>Opening\<close>

text \<open>What is on disk: the segments, the level files, the directory.\<close>

record disk =
  dk_wal :: "(u64, wal_file) fmap"
  dk_levels :: l0_dir
  dk_dir :: wal_dir

fun open_levels :: "writer_env \<Rightarrow> delta_cipher option \<Rightarrow> u64 list \<Rightarrow> l0_segment list l0_op" where
  "open_levels env cph [] d = (Inr [], d)"
| "open_levels env cph (n # ns) d =
     sbind (l0_open (e_crc env) cph n) (\<lambda>level. sbind (open_levels env cph ns) (\<lambda>levels d. (Inr (level # levels), d))) d"

definition open_writer :: "writer_env \<Rightarrow> delta_cipher option \<Rightarrow> gen_id \<Rightarrow> u64 \<Rightarrow> u64 \<Rightarrow> byte list list
    \<Rightarrow> (wal_op \<Rightarrow> op_resolution) \<Rightarrow> disk \<Rightarrow> write_error + writer" where
  "open_writer env cph core_uuid core_node_count core_edge_count nonces resolve dk =
     (case open_levels env cph (l0_segment_paths_sorted (dk_levels dk)) (dk_levels dk) of
        (Inl e, _) \<Rightarrow> Inl (WError e)
      | (Inr levels, lv) \<Rightarrow>
          let node_base = foldl (\<lambda>b s. max b (m_base (ls_mem s) + born_count (ls_mem s))) core_node_count levels;
              edge_base = foldl (\<lambda>b s. max b (m_edge_base (ls_mem s) + born_edge_count (ls_mem s))) core_edge_count levels;
              l0 = rev levels
          in case replay_dir (e_crc env) cph (Some (listing wf_data (dk_wal dk))) of Inl e \<Rightarrow> Inl (WError e)
             | Inr rp \<Rightarrow>
               (case apply_all (e_layout env) (\<lambda>op. resolve_with_l0 op (resolve op) (map ls_mem l0)) (map rop (records rp))
                       (with_bases node_base edge_base) of None \<Rightarrow> Inl WPanic
                | Some mem \<Rightarrow>
                  (case create (e_cap env) (next_segment_number (dk_wal dk)) cph nonces (dk_dir dk) of
                     (Inl e, _) \<Rightarrow> Inl (WError e)
                   | (Inr sink, d) \<Rightarrow> Inr
                      \<lparr>w_sink = sink, w_mem = mem, w_l0 = l0, w_seq = last_seq rp, w_cipher = cph,
                       w_published = \<lparr>pub_delta = published_snapshot mem l0, pub_epoch = 1\<rparr>,
                       w_touched = journal_new 1, w_core_uuid = core_uuid, w_consolidating = False,
                       w_closed = dk_wal dk, w_dir = d, w_levels = lv\<rparr>)))"

end
