(* ===== verification/Delta_Recovery.thy ===== *)
theory Delta_Recovery
  imports Delta_Writer
begin

text \<open>
  What the writer of \<^verbatim>\<open>slater/src/delta_writer.rs\<close> promises: the log on disk together with the sealed
  levels always rebuilds the delta that is published. The invariant is kept by writes, also failing
  ones, and by flushes; reopening from the files, or from what a power loss leaves of them, restores it.
\<close>

section \<open>What a log directory holds\<close>

definition replay_onto :: "batch list \<Rightarrow> replay \<Rightarrow> replay" where
  "replay_onto bs out =
     \<lparr>records = records out @ concat (map fst bs), last_seq = foldl max (last_seq out) (map snd bs)\<rparr>"

lemma replay_onto_append [simp]: "replay_onto bs' (replay_onto bs out) = replay_onto (bs @ bs') out"
  by (simp add: replay_onto_def)

lemma replay_onto_Nil [simp]: "replay_onto [] out = out"
  by (simp add: replay_onto_def)

lemma records_replay_onto [simp]: "records (replay_onto bs out) = records out @ concat (map fst bs)"
  by (simp add: replay_onto_def)

lemma image_replay_onto:
  assumes "log_image crc c bs C" "cipher_ok c" "batches_ok bs"
  shows "replay_bytes crc c C out = Inr (replay_onto bs out)"
proof -
  obtain img where img: "C = magic_of c @ img" "stream crc c 0 (concat (map batch_items bs)) img"
    using assms(1) unfolding log_image_def by blast
  have "replay_frames crc c 0 ([], out) (img @ []) = Inr (replay_onto bs out)"
    using replay_frames_stream [OF img(2) assms(2) assms(3) [unfolded batches_ok_def], of "([], out)" "[]"]
    by (subst (asm) (2) replay_frames.simps)
      (simp only: next_frame_Nil option.case replay_items_batches replay_onto_def semiring_1_class.of_nat_0 snd_conv)
  then show ?thesis by (simp add: img(1) replay_bytes_magic)
qed

text \<open>A segment file holds the batches \<open>bs\<close> if both its content and its durable content replay to them.\<close>

definition segment_cipher :: "delta_cipher option \<Rightarrow> u64 \<Rightarrow> file_cipher option" where
  "segment_cipher cph n = bind_cipher cph (wal_name (segment_file_name n))"

definition file_holds :: "(byte list \<Rightarrow> u32) \<Rightarrow> delta_cipher option \<Rightarrow> u64 \<Rightarrow> batch list \<Rightarrow> wal_file \<Rightarrow> bool" where
  "file_holds crc cph n bs f \<longleftrightarrow> (\<forall>out.
     replay_bytes crc (segment_cipher cph n) (wf_data f) out = Inr (replay_onto bs out) \<and>
     replay_bytes crc (segment_cipher cph n) (wf_durable f) out = Inr (replay_onto bs out))"

lemma at_rest_file:
  assumes "at_rest crc bs s" "cipher s = segment_cipher cph n" "cipher_ok (cipher s)" "batches_ok bs"
    and "dur = fdata s \<or> dur = synced s"
  shows "file_holds crc cph n bs \<lparr>wf_data = fdata s, wf_durable = dur\<rparr>"
proof -
  obtain C where C: "log_image crc (cipher s) bs C" "committed C (log_frames bs) (cipher s) (faulty s) s"
    using assms(1) unfolding at_rest_def by blast
  have full: "replay_bytes crc (cipher s) C out = Inr (replay_onto bs out)" for out
    by (rule image_replay_onto [OF C(1) assms(3,4)])
  have "replay_bytes crc (cipher s) [] out = Inr (replay_onto bs out)" if "log_frames bs = 0" for out
    using that by (cases bs) (simp_all add: log_frames_def batch_items_def replay_bytes_def)
  then show ?thesis
    using full C(2) assms(5) unfolding file_holds_def assms(2) [symmetric] by (auto simp: committed_def)
qed

definition gapless :: "u64 list \<Rightarrow> bool" where
  "gapless ns \<longleftrightarrow> ns = [] \<or> of_nat (length ns) = last ns - hd ns + 1"

definition numbers :: "(u64, 'a) fmap \<Rightarrow> u64 list" where
  "numbers files = sorted_list_of_fset (fmdom files)"

definition log_ok :: "(byte list \<Rightarrow> u32) \<Rightarrow> delta_cipher option \<Rightarrow> (u64, wal_file) fmap \<Rightarrow> (u64 \<Rightarrow> batch list) \<Rightarrow> bool" where
  "log_ok crc cph files hist \<longleftrightarrow> gapless (numbers files) \<and>
     (\<forall>n f. fmlookup files n = Some f \<longrightarrow> file_holds crc cph n (hist n) f)"

definition log_batches :: "(u64, wal_file) fmap \<Rightarrow> (u64 \<Rightarrow> batch list) \<Rightarrow> batch list" where
  "log_batches files hist = concat (map hist (numbers files))"

lemma numbers_sorted [simp]: "sorted (numbers files)" "distinct (numbers files)" "set (numbers files) = fset (fmdom files)"
  by (simp_all add: numbers_def sorted_list_of_fset.rep_eq)

lemma sorted_list_of_fmap_numbers: "sorted_list_of_fmap files = map (\<lambda>n. (n, the (fmlookup files n))) (numbers files)"
  by (simp add: sorted_list_of_fmap_def numbers_def)

lemma map_fst_sorted_list_of_fmap: "map fst (sorted_list_of_fmap files) = numbers files"
  by (simp add: sorted_list_of_fmap_numbers comp_def)

lemma wal_segments_listing:
  "wal_segments (listing content files) =
     map (\<lambda>n. (n, segment_file_name n, Inr (content (the (fmlookup files n))))) (numbers files)"
proof -
  have "List.map_filter (\<lambda>e. map_option (\<lambda>n. (n, e)) (wal_segment_number (fst e))) (map g ns) =
      map (\<lambda>n. (n, g n)) ns" if "\<And>n. fst (g n) = segment_file_name n" for g :: "u64 \<Rightarrow> dir_entry" and ns
    by (induction ns) (simp_all add: that segment_number_name List.map_filter_def)
  note mf = this
  have sk: "sort_key fst xs = xs" if "sorted (map fst xs)" for xs :: "(u64 \<times> dir_entry) list"
    using that sorted_sort_id [of "map fst xs"] by (induction xs) (auto simp: insort_is_Cons)
  show ?thesis
    unfolding wal_segments_def listing_def sorted_list_of_fmap_numbers map_map
    by (subst mf) (auto simp: comp_def intro!: sk)
qed

lemma replay_segments_hold:
  assumes "\<And>n. n \<in> set ns \<Longrightarrow> \<forall>out. replay_bytes crc (segment_cipher cph n) (content n) out = Inr (replay_onto (hist n) out)"
  shows "replay_segments crc cph (map (\<lambda>n. (n, segment_file_name n, Inr (content n))) ns) out =
    Inr (replay_onto (concat (map hist ns)) out)"
  using assms
proof (induction ns arbitrary: out)
  case (Cons n ns)
  have "replay_bytes crc (bind_cipher cph (wal_name (segment_file_name n))) (content n) out = Inr (replay_onto (hist n) out)"
    using Cons.prems [of n] by (simp add: segment_cipher_def)
  then show ?case using Cons by simp
qed simp

lemma replay_dir_log:
  assumes "log_ok crc cph files hist" "content = wf_data \<or> content = wf_durable"
  shows "replay_dir crc cph (Some (listing content files)) = Inr (replay_onto (log_batches files hist) replay_default)"
proof -
  have "\<forall>out. replay_bytes crc (segment_cipher cph n) (content (the (fmlookup files n))) out = Inr (replay_onto (hist n) out)"
    if "n \<in> set (numbers files)" for n
  proof -
    from that obtain f where "fmlookup files n = Some f" by (auto simp: fmlookup_dom_iff)
    then show ?thesis using assms by (auto simp: log_ok_def file_holds_def)
  qed
  then have "replay_segments crc cph (wal_segments (listing content files)) replay_default =
      Inr (replay_onto (log_batches files hist) replay_default)"
    unfolding wal_segments_listing log_batches_def by (rule replay_segments_hold)
  moreover have "numbers files \<noteq> [] \<Longrightarrow> of_nat (length (numbers files)) = last (numbers files) - hd (numbers files) + 1"
    using assms(1) by (simp add: log_ok_def gapless_def)
  ultimately show ?thesis
    by (cases "numbers files = []") (simp_all add: replay_dir_def Let_def wal_segments_listing last_map hd_map)
qed

text \<open>Opening the next segment keeps the numbers gapless and puts the new segment last.\<close>

lemma numbers_last: "numbers files \<noteq> [] \<Longrightarrow> Max (set (numbers files)) = last (numbers files)"
  using sorted_bounds(2) [OF numbers_sorted(1) [of files]]
  by (intro Max_eqI) (auto simp del: numbers_sorted(3))

lemma next_segment_number_numbers:
  "next_segment_number files = (if numbers files = [] then 0 else last (numbers files) + 1)"
  by (simp add: next_segment_number_def next_number_def map_fst_sorted_list_of_fmap numbers_last del: numbers_sorted(3))

lemma numbers_fmupd_old [simp]: "n |\<in>| fmdom files \<Longrightarrow> numbers (fmupd n f files) = numbers files"
  by (simp add: numbers_def finsert_absorb)

lemma numbers_fmupd_above:
  assumes "\<And>m. m |\<in>| fmdom files \<Longrightarrow> m < n"
  shows "numbers (fmupd n f files) = numbers files @ [n]"
proof -
  have "sorted (numbers files @ [n])" "distinct (numbers files @ [n])"
    using assms by (auto simp: sorted_append less_imp_le)
  moreover have "set (numbers files @ [n]) = set (numbers (fmupd n f files))" by auto
  ultimately show ?thesis
    using sorted_distinct_set_unique [of "numbers (fmupd n f files)" "numbers files @ [n]"] by simp
qed

lemma gapless_snoc: "gapless ns \<Longrightarrow> ns \<noteq> [] \<Longrightarrow> gapless (ns @ [last ns + 1])"
  by (simp add: gapless_def)

lemma gapless_single [simp]: "gapless []" "gapless [n]"
  by (simp_all add: gapless_def)

section \<open>The invariant of the writer\<close>

text \<open>The bases above a stack of levels, newest first, and the way a record is resolved over it.\<close>

definition node_base_over :: "u64 \<Rightarrow> l0_segment list \<Rightarrow> u64" where
  "node_base_over nc l0 = foldl (\<lambda>b s. max b (m_base (ls_mem s) + born_count (ls_mem s))) nc (rev l0)"

definition edge_base_over :: "u64 \<Rightarrow> l0_segment list \<Rightarrow> u64" where
  "edge_base_over ec l0 = foldl (\<lambda>b s. max b (m_edge_base (ls_mem s) + born_edge_count (ls_mem s))) ec (rev l0)"

definition resolve_over :: "(wal_op \<Rightarrow> op_resolution) \<Rightarrow> l0_segment list \<Rightarrow> wal_op \<Rightarrow> op_resolution" where
  "resolve_over resolve l0 op = resolve_with_l0 op (resolve op) (map ls_mem l0)"

text \<open>Each level is the file of its number, and the numbers descend from the newest level.\<close>

definition levels_ok :: "(byte list \<Rightarrow> u32) \<Rightarrow> delta_cipher option \<Rightarrow> (u64, byte list) fmap \<Rightarrow> l0_segment list \<Rightarrow> bool" where
  "levels_ok crc cph files l0 \<longleftrightarrow> numbers files = rev (map ls_path l0) \<and>
     (\<forall>s \<in> set l0. \<exists>img. fmlookup files (ls_path s) = Some img \<and> l0_parse crc cph (ls_path s) img = Inr s)"

text \<open>The open segment is at rest, above the closed ones; the log holds the batches \<open>hist\<close>, and folding
  them over the levels gives the active memtable; what is published is that memtable over the levels.\<close>

definition sink_ok :: "writer_env \<Rightarrow> (u64 \<Rightarrow> batch list) \<Rightarrow> writer \<Rightarrow> bool" where
  "sink_ok env hist w \<longleftrightarrow> at_rest (e_crc env) (hist (segment (w_sink w))) (w_sink w) \<and>
     batches_ok (hist (segment (w_sink w))) \<and>
     cipher (w_sink w) = segment_cipher (w_cipher w) (segment (w_sink w)) \<and> l0_cipher_ok (w_cipher w) \<and>
     (\<forall>n. n |\<in>| fmdom (w_closed w) \<longrightarrow> n < segment (w_sink w))"

definition log_folds :: "writer_env \<Rightarrow> (wal_op \<Rightarrow> op_resolution) \<Rightarrow> u64 \<Rightarrow> u64 \<Rightarrow> batch list \<Rightarrow> l0_segment list \<Rightarrow> memtable \<Rightarrow> bool" where
  "log_folds env resolve nc ec bs l0 mem \<longleftrightarrow>
     apply_all (e_layout env) (resolve_over resolve l0) (map rop (concat (map fst bs)))
       (with_bases (node_base_over nc l0) (edge_base_over ec l0)) = Some mem"

definition writer_holds :: "writer_env \<Rightarrow> (wal_op \<Rightarrow> op_resolution) \<Rightarrow> u64 \<Rightarrow> u64 \<Rightarrow> (u64 \<Rightarrow> batch list) \<Rightarrow> writer \<Rightarrow> bool" where
  "writer_holds env resolve nc ec hist w \<longleftrightarrow>
     sink_ok env hist w \<and> log_ok (e_crc env) (w_cipher w) (wal_files w) hist \<and>
     levels_ok (e_crc env) (w_cipher w) (lf_files (w_levels w)) (w_l0 w) \<and>
     log_folds env resolve nc ec (log_batches (wal_files w) hist) (w_l0 w) (w_mem w) \<and>
     pub_delta (w_published w) = published_snapshot (w_mem w) (w_l0 w)"

definition writer_ok :: "writer_env \<Rightarrow> (wal_op \<Rightarrow> op_resolution) \<Rightarrow> u64 \<Rightarrow> u64 \<Rightarrow> writer \<Rightarrow> bool" where
  "writer_ok env resolve nc ec w \<longleftrightarrow> (\<exists>hist. writer_holds env resolve nc ec hist w)"

lemma wal_name_ok: "l0_cipher_ok cph \<Longrightarrow> cipher_ok (segment_cipher cph n)"
  by (auto simp: l0_cipher_ok_def cipher_ok_def segment_cipher_def bind_cipher_def split: option.splits)

lemma sink_file_holds:
  assumes "sink_ok env hist w"
  shows "file_holds (e_crc env) (w_cipher w) (segment (w_sink w)) (hist (segment (w_sink w)))
    \<lparr>wf_data = fdata (w_sink w), wf_durable = synced (w_sink w)\<rparr>"
  using assms at_rest_file [of "e_crc env" _ "w_sink w" "w_cipher w" "segment (w_sink w)" "synced (w_sink w)"]
  by (simp add: sink_ok_def wal_name_ok)

lemma sink_not_closed: "sink_ok env hist w \<Longrightarrow> segment (w_sink w) |\<notin>| fmdom (w_closed w)"
  by (auto simp: sink_ok_def)

lemma numbers_wal_files: "sink_ok env hist w \<Longrightarrow> numbers (wal_files w) = numbers (w_closed w) @ [segment (w_sink w)]"
  unfolding wal_files_def by (rule numbers_fmupd_above) (simp add: sink_ok_def)

lemma log_ok_wal_files:
  assumes "sink_ok env hist w" "gapless (numbers (wal_files w))"
    and "\<And>n f. fmlookup (w_closed w) n = Some f \<Longrightarrow> file_holds (e_crc env) (w_cipher w) n (hist n) f"
  shows "log_ok (e_crc env) (w_cipher w) (wal_files w) hist"
  using assms sink_file_holds [OF assms(1)] by (auto simp: log_ok_def wal_files_def)

section \<open>Writing\<close>

text \<open>No operation of a sink changes the segment it writes.\<close>

definition keeps_segment :: "'a sink_op \<Rightarrow> bool" where
  "keeps_segment m \<longleftrightarrow> (\<forall>s. segment (snd (m s)) = segment s)"

lemma keeps_sbind [intro]:
  "keeps_segment m \<Longrightarrow> (\<And>x. keeps_segment (f x)) \<Longrightarrow> keeps_segment (sbind m f)"
  unfolding keeps_segment_def sbind_def by (auto split: prod.splits sum.splits) (metis snd_conv)+

lemma keeps_prims [intro]:
  "keeps_segment flush_buf" "keeps_segment (direct_write bs)" "keeps_segment sync_data"
  "keeps_segment (set_len off)" "keeps_segment (seek_start off)"
  unfolding keeps_segment_def flush_buf_def io_defs syscall_def os_write_def
  by (auto split: list.splits io.splits)

lemma keeps_buf_write_all [intro]: "keeps_segment (buf_write_all cap bs)"
proof -
  have "keeps_segment (write_all_cold cap bs)"
    unfolding write_all_cold_def
  proof (rule keeps_sbind)
    show "keeps_segment (\<lambda>s. if length bs > cap - length (wbuf s) then flush_buf s else (Inr (), s))"
      using keeps_prims(1) by (auto simp: keeps_segment_def)
    show "keeps_segment (\<lambda>s. if length bs \<ge> cap then direct_write bs s else (Inr (), s\<lparr>wbuf := wbuf s @ bs\<rparr>))"
      using keeps_prims(2) by (auto simp: keeps_segment_def)
  qed
  then show ?thesis by (auto simp: keeps_segment_def buf_write_all_def)
qed

lemma keeps_write_payload [intro]: "keeps_segment (write_payload crc cap p)"
proof -
  have "keeps_segment (sbind (write_frame_to crc cap st) (\<lambda>_ s2.
      (Inr (), s2\<lparr>cur_len := cur_len s2 + frame_len (length st), cur_frames := cur_frames s2 + 1\<rparr>)))" for st
    unfolding write_frame_to_def by (intro keeps_sbind keeps_buf_write_all) (simp add: keeps_segment_def)
  moreover have "segment (snd (random_nonce s)) = segment s" for s
    by (simp add: random_nonce_def split: list.splits)
  ultimately show ?thesis
    unfolding keeps_segment_def write_payload_def by (auto simp: split_beta Let_def split: option.splits sum.splits)
qed

lemma keeps_truncate [intro]: "keeps_segment (truncate_to off frames)"
  unfolding truncate_to_def by (intro keeps_sbind keeps_prims) (simp add: keeps_segment_def)

lemma keeps_append_batch: "keeps_segment (append_batch crc cap recs q)"
proof -
  have recs: "keeps_segment (write_records crc cap recs)"
  proof (induction recs)
    case (Cons rec recs)
    have "keeps_segment (sbind (write_record_frame crc cap rec) (\<lambda>_. write_records crc cap recs))"
      unfolding write_record_frame_def using Cons.IH by (intro keeps_sbind keeps_write_payload)
    then show ?case by (simp add: keeps_segment_def)
  qed (simp add: keeps_segment_def)
  have "keeps_segment (sbind (write_records crc cap recs) (\<lambda>_. write_commit_frame crc cap q))"
    unfolding write_commit_frame_def
    by (intro keeps_sbind keeps_write_payload keeps_prims recs) (simp add: keeps_segment_def)
  then have "keeps_segment (with_rollback (sbind (write_records crc cap recs) (\<lambda>_. write_commit_frame crc cap q)))"
    unfolding keeps_segment_def with_rollback_def using keeps_truncate
    by (auto simp: keeps_segment_def split: prod.splits sum.splits) (metis snd_conv)+
  then show ?thesis
    unfolding append_batch_def using keeps_truncate by (intro keeps_sbind) (auto simp: keeps_segment_def)
qed

lemma append_batch_at_rest:
  assumes "at_rest crc bs s" "faulty s \<le> 1" "cipher_ok (cipher s)" "list_all item_ok (map Rec recs)"
    and "append_batch crc cap recs q s = (r, s')"
  shows "at_rest crc (if isl r then bs else bs @ [(recs, q)]) s' \<and> cipher s' = cipher s"
proof -
  obtain C where C: "log_image crc (cipher s) bs C" "committed C (log_frames bs) (cipher s) (faulty s) s"
    using assms(1) unfolding at_rest_def by blast
  have "with_rollback (batch_body crc cap recs q) s = (r, s')"
    using assms(5) C(2) by (subst (asm) heal_at_rest) (simp_all add: committed_def floor_ok_def)
  then show ?thesis
    using append_batch_committed [OF C(2,1) assms(3,4)] assms(2) by (cases r) fastforce+
qed

lemma apply_all_append:
  "apply_all lay resolve (xs @ ys) m = Option.bind (apply_all lay resolve xs m) (apply_all lay resolve ys)"
  by (induction xs arbitrary: m) (auto simp: Option.bind_assoc intro: Option.bind_cong)

lemma number_records_ops: "map rop (number_records s ops) = map fst ops"
  by (induction s ops rule: number_records.induct) simp_all

lemma apply_resolved_all:
  "list_all (\<lambda>(op, res). res = resolve op) ops \<Longrightarrow> apply_resolved lay ops m = apply_all lay resolve (map fst ops) m"
  by (induction lay ops m rule: apply_resolved.induct) (auto intro: Option.bind_cong)

lemma append_log:
  assumes holds: "writer_holds env resolve nc ec hist w" and "faulty (w_sink w) \<le> 1"
    and recs: "list_all item_ok (map Rec recs)"
    and run: "append_batch (e_crc env) (e_cap env) recs q (w_sink w) = (r, s)"
    and hist': "hist' = hist(segment (w_sink w) := if isl r then hist (segment (w_sink w)) else hist (segment (w_sink w)) @ [(recs, q)])"
    and w': "w_sink w' = s" "w_closed w' = w_closed w" "w_cipher w' = w_cipher w"
  shows "sink_ok env hist' w'" and "log_ok (e_crc env) (w_cipher w') (wal_files w') hist'"
    and "log_batches (wal_files w') hist' = log_batches (wal_files w) hist @ (if isl r then [] else [(recs, q)])"
proof -
  have ok: "sink_ok env hist w" "log_ok (e_crc env) (w_cipher w) (wal_files w) hist"
    using holds by (simp_all add: writer_holds_def)
  have seg: "segment s = segment (w_sink w)"
    using keeps_append_batch [of "e_crc env" "e_cap env" recs q] run by (auto simp: keeps_segment_def dest: spec [of _ "w_sink w"])
  have ciph: "cipher_ok (cipher (w_sink w))" using ok(1) by (simp add: sink_ok_def wal_name_ok)
  have rest: "at_rest (e_crc env) (hist' (segment s)) s \<and> cipher s = cipher (w_sink w)"
    using append_batch_at_rest [of "e_crc env" "hist (segment (w_sink w))", OF _ assms(2) ciph recs run] ok(1)
    by (simp add: sink_ok_def hist' seg)
  have bok: "batches_ok (hist' (segment s))"
    using ok(1) recs by (simp add: sink_ok_def hist' seg batches_ok_snoc)
  show sink: "sink_ok env hist' w'"
    using rest bok ok(1) by (simp add: sink_ok_def w' seg)
  have nums: "numbers (wal_files w') = numbers (wal_files w)"
    using numbers_wal_files [OF sink] numbers_wal_files [OF ok(1)] by (simp add: w' seg)
  show "log_ok (e_crc env) (w_cipher w') (wal_files w') hist'"
  proof (rule log_ok_wal_files [OF sink])
    show "gapless (numbers (wal_files w'))" using ok(2) by (simp add: nums log_ok_def)
    fix n f assume f: "fmlookup (w_closed w') n = Some f"
    then have "n |\<in>| fmdom (w_closed w)" by (simp add: w' fmlookup_dom_iff)
    then have n: "n \<noteq> segment (w_sink w)" using sink_not_closed [OF ok(1)] by metis
    then have "fmlookup (wal_files w) n = Some f" using f by (simp add: wal_files_def w')
    then show "file_holds (e_crc env) (w_cipher w') n (hist' n) f" using ok(2) n by (simp add: log_ok_def w' hist')
  qed
  have old: "map hist' (numbers (w_closed w)) = map hist (numbers (w_closed w))"
    using sink_not_closed [OF ok(1)] by (auto simp: hist')
  have "hist' (segment (w_sink w)) = hist (segment (w_sink w)) @ (if isl r then [] else [(recs, q)])"
    by (simp add: hist')
  then show "log_batches (wal_files w') hist' = log_batches (wal_files w) hist @ (if isl r then [] else [(recs, q)])"
    by (simp add: log_batches_def nums numbers_wal_files [OF ok(1)] old)
qed

lemma log_folds_snoc:
  assumes "log_folds env resolve nc ec bs l0 mem"
    and "apply_all (e_layout env) (resolve_over resolve l0) (map rop recs) mem = Some mem'"
  shows "log_folds env resolve nc ec (bs @ [(recs, q)]) l0 mem'"
  using assms by (simp add: log_folds_def apply_all_append)

lemma republish_simps [simp]:
  "w_sink (republish j w) = w_sink w" "w_mem (republish j w) = w_mem w" "w_l0 (republish j w) = w_l0 w"
  "w_closed (republish j w) = w_closed w" "w_cipher (republish j w) = w_cipher w" "w_levels (republish j w) = w_levels w"
  "w_seq (republish j w) = w_seq w" "w_dir (republish j w) = w_dir w"
  "w_published (republish j w) = \<lparr>pub_delta = published_snapshot (w_mem w) (w_l0 w), pub_epoch = pub_epoch (w_published w) + 1\<rparr>"
  by (simp_all add: republish_def Let_def)

text \<open>A batch that is written: what the log and the memtable hold afterwards.\<close>

lemma append_keeps_writer:
  assumes holds: "writer_holds env resolve nc ec hist w" and "faulty (w_sink w) \<le> 1"
    and "list_all item_ok (map Rec recs)" and run: "append_batch (e_crc env) (e_cap env) recs q (w_sink w) = (r, s)"
    and w': "w_sink w' = s" "w_closed w' = w_closed w" "w_cipher w' = w_cipher w" "w_l0 w' = w_l0 w" "w_levels w' = w_levels w"
    and err: "isl r \<Longrightarrow> w_mem w' = w_mem w \<and> w_published w' = w_published w"
    and fine: "\<not> isl r \<Longrightarrow> apply_all (e_layout env) (resolve_over resolve (w_l0 w)) (map rop recs) (w_mem w) = Some (w_mem w') \<and>
      pub_delta (w_published w') = published_snapshot (w_mem w') (w_l0 w')"
  shows "writer_holds env resolve nc ec (hist(segment (w_sink w) :=
    if isl r then hist (segment (w_sink w)) else hist (segment (w_sink w)) @ [(recs, q)])) w'"
proof -
  note log = append_log [OF assms(1-4) refl w'(1-3)]
  have "log_folds env resolve nc ec (log_batches (wal_files w) hist @ (if isl r then [] else [(recs, q)])) (w_l0 w) (w_mem w')"
    using holds err fine log_folds_snoc [of env resolve nc ec _ "w_l0 w" "w_mem w" recs "w_mem w'" q]
    by (auto simp: writer_holds_def)
  moreover have "pub_delta (w_published w') = published_snapshot (w_mem w') (w_l0 w')"
    using holds err fine w'(4) by (cases "isl r") (simp_all add: writer_holds_def)
  moreover have "levels_ok (e_crc env) (w_cipher w') (lf_files (w_levels w')) (w_l0 w')"
    using holds w'(3-5) by (simp add: writer_holds_def)
  ultimately show ?thesis
    using log w'(4) unfolding writer_holds_def by (intro conjI) (assumption | simp)+
qed

lemma write_batch_holds:
  assumes holds: "writer_holds env resolve nc ec hist w" and "faulty (w_sink w) \<le> 1"
    and "list_all (\<lambda>(op, res). res = resolve_over resolve (w_l0 w) op) ops"
    and "list_all item_ok (map Rec (number_records (w_seq w) ops))" "ops \<noteq> []"
    and run: "write_batch env ops w = (r, w')"
  shows "\<exists>bs. writer_holds env resolve nc ec (hist(segment (w_sink w) := hist (segment (w_sink w)) @ bs)) w' \<and>
    map rop (concat (map fst bs)) = (if isl r then [] else map fst ops) \<and>
    segment (w_sink w') = segment (w_sink w) \<and> w_closed w' = w_closed w \<and> w_levels w' = w_levels w \<and> w_l0 w' = w_l0 w \<and>
    w_cipher w' = w_cipher w \<and>
    (case r of
       Inl _ \<Rightarrow> w_mem w' = w_mem w \<and> w_published w' = w_published w
     | Inr q \<Rightarrow> q = w_seq w + of_nat (length ops) \<and> w_seq w' = q \<and>
         apply_resolved (e_layout env) ops (w_mem w) = Some (w_mem w') \<and>
         pub_epoch (w_published w') = pub_epoch (w_published w) + 1)"
proof (cases "apply_resolved (e_layout env) ops (w_mem w)")
  case None
  then have "r = Inl WPanic" "w' = w" using run assms(5) by (simp_all add: write_batch_def)
  then show ?thesis using holds by (intro exI [of _ "[]"]) simp
next
  case (Some mem)
  let ?recs = "number_records (w_seq w) ops" and ?q = "w_seq w + of_nat (length ops)"
  obtain res s where app: "append_batch (e_crc env) (e_cap env) ?recs ?q (w_sink w) = (res, s)" by fastforce
  have fold: "apply_all (e_layout env) (resolve_over resolve (w_l0 w)) (map rop ?recs) (w_mem w) = Some mem"
    using Some apply_resolved_all [OF assms(3)] by (simp add: number_records_ops)
  have seg: "segment s = segment (w_sink w)"
    using keeps_append_batch [of "e_crc env" "e_cap env" ?recs ?q] app by (auto simp: keeps_segment_def dest: spec [of _ "w_sink w"])
  note keep = append_keeps_writer [OF holds assms(2,4) app]
  show ?thesis
  proof (cases res)
    case (Inl e)
    then have "r = Inl (WError e)" "w' = w\<lparr>w_seq := ?q, w_sink := s\<rparr>"
      using run assms(5) Some app by (simp_all add: write_batch_def wbind_def on_sink_def)
    then show ?thesis using keep [of w'] Inl seg by (intro exI [of _ "[]"]) simp
  next
    case (Inr u)
    then have "r = Inr ?q" "w' = republish (Touched (touched_node_ids mem ops)) (w\<lparr>w_seq := ?q, w_sink := s, w_mem := mem\<rparr>)"
      using run assms(5) Some app by (simp_all add: write_batch_def wbind_def on_sink_def Let_def)
    then show ?thesis using keep [of w'] Inr fold Some seg
      by (intro exI [of _ "[(?recs, ?q)]"]) (simp add: number_records_ops)
  qed
qed

text \<open>C2: A batch is written whole or not at all, and what is acknowledged is recoverable. From a writer
  whose files rebuild its published delta, with at most one failing call on the log: if the batch is
  refused or a fold panics, the memtable, the levels and the published pair are untouched; if it is
  acknowledged, exactly its operations are folded in and published under the next epoch. Either way
  the files again rebuild what is published, provided the caller resolved each operation as the
  replay will.\<close>

theorem write_batch_is_atomic:
  assumes "writer_ok env resolve nc ec w" "faulty (w_sink w) \<le> 1"
    and "list_all (\<lambda>(op, res). res = resolve_over resolve (w_l0 w) op) ops"
    and "list_all item_ok (map Rec (number_records (w_seq w) ops))"
    and "write_batch env ops w = (r, w')"
  shows "writer_ok env resolve nc ec w' \<and> w_l0 w' = w_l0 w \<and>
    (case r of
       Inl _ \<Rightarrow> w_mem w' = w_mem w \<and> w_published w' = w_published w
     | Inr q \<Rightarrow> q = w_seq w + of_nat (length ops) \<and> w_seq w' = q \<and>
         apply_resolved (e_layout env) ops (w_mem w) = Some (w_mem w') \<and>
         (ops \<noteq> [] \<longrightarrow> pub_epoch (w_published w') = pub_epoch (w_published w) + 1))"
proof (cases "ops = []")
  case True
  then show ?thesis using assms(1,5) by (auto simp: write_batch_def)
next
  case False
  obtain hist where "writer_holds env resolve nc ec hist w" using assms(1) by (auto simp: writer_ok_def)
  from write_batch_holds [OF this assms(2-4) False assms(5)]
  show ?thesis by (cases r) (auto simp: writer_ok_def)
qed

section \<open>Opening\<close>

lemma l0_call_files: "l0_call d = (f, d') \<Longrightarrow> lf_files d' = lf_files d \<and> lf_durable d' = lf_durable d \<and> (lf_faults d = [] \<longrightarrow> f = IoOk \<and> lf_faults d' = [])"
  by (auto simp: l0_call_def split: list.splits)

lemma open_levels_reads:
  assumes "\<forall>s \<in> set ss. \<exists>img. fmlookup (lf_files d) (ls_path s) = Some img \<and> l0_parse (e_crc env) cph (ls_path s) img = Inr s"
    and "open_levels env cph (map ls_path ss) d = (r, d')"
  shows "lf_files d' = lf_files d \<and> lf_durable d' = lf_durable d \<and> (r = Inl IoError \<and> lf_faults d \<noteq> [] \<or> r = Inr ss)"
  using assms
proof (induction ss arbitrary: d r d')
  case (Cons s ss)
  obtain img where img: "fmlookup (lf_files d) (ls_path s) = Some img" "l0_parse (e_crc env) cph (ls_path s) img = Inr s"
    using Cons.prems(1) by auto
  obtain f d1 where call: "l0_call d = (f, d1)" by fastforce
  note files = l0_call_files [OF call]
  show ?case
  proof (cases f)
    case (IoFail k)
    then show ?thesis using Cons.prems(2) call files by (auto simp: l0_open_def sbind_def)
  next
    case IoOk
    obtain r2 d2 where rest: "open_levels env cph (map ls_path ss) d1 = (r2, d2)" by fastforce
    have "lf_files d2 = lf_files d1 \<and> lf_durable d2 = lf_durable d1 \<and> (r2 = Inl IoError \<and> lf_faults d1 \<noteq> [] \<or> r2 = Inr ss)"
      using Cons.prems(1) files by (intro Cons.IH [OF _ rest]) simp
    then show ?thesis
      using Cons.prems(2) IoOk call files img rest by (auto simp: l0_open_def sbind_def)
  qed
qed simp

lemma create_run:
  assumes "create cap seg cph nonces d = (Inr s, d')"
  shows "\<exists>e t e' fs. create_file cap seg (segment_cipher cph seg) nonces e = (Inr t, e') \<and> s = t\<lparr>faults := fs\<rparr>"
  using assms unfolding create_def Let_def segment_cipher_def by (elim sbind_InrE) auto

lemma create_opens:
  assumes "create cap seg cph nonces d = (Inr s, d')"
  shows "at_rest crc [] s \<and> cipher s = segment_cipher cph seg \<and> segment s = seg"
proof -
  let ?c = "segment_cipher cph seg"
  obtain e t e' fs where run: "create_file cap seg ?c nonces e = (Inr t, e')" and s: "s = t\<lparr>faults := fs\<rparr>"
    using create_run [OF assms] by blast
  have "keeps_segment (sbind (buf_write_all cap (magic_of ?c)) (\<lambda>_. flush_buf))"
    by (intro keeps_sbind keeps_buf_write_all keeps_prims)
  then have "segment t = seg"
    using run by (auto simp: create_file_def keeps_segment_def fresh_sink_def split: prod.splits sum.splits) (metis snd_conv wal_sink.select_convs(1))
  moreover have "log_image crc ?c [] (magic_of ?c)" by (auto simp: log_image_def intro: stream_Nil)
  then have "at_rest crc [] s"
    using create_file_Inr(1) [OF run] unfolding at_rest_def s
    by (intro exI [of _ "magic_of ?c"]) (auto simp: committed_def floor_ok_def log_frames_def magic_of_def)
  ultimately show ?thesis using create_file_Inr(1) [OF run] s by simp
qed

lemma create_fails:
  assumes "create cap seg cph nonces d = (Inl e, d')"
  shows "e = IoError \<and> dfaults d \<noteq> []"
  using assms
  by (auto simp: create_def dir_call_def create_file_def sbind_def buf_write_all_def write_all_cold_def direct_write_def
      fresh_sink_def flush_buf_def syscall_def os_write_def Let_def split: if_splits list.splits io.splits prod.splits sum.splits)

lemma u64_less_Suc: "x \<noteq> - 1 \<Longrightarrow> x < x + 1" for x :: u64
proof -
  assume "x \<noteq> - 1"
  then have "1 + x \<noteq> 0" using max_word_wrap [of x] by (auto simp: add.commute)
  then show ?thesis using unatSuc [of x] by (simp add: word_less_nat_alt add.commute)
qed

text \<open>A fresh segment above a log continues it.\<close>

lemma fresh_segment:
  assumes log: "log_ok (e_crc env) (w_cipher w) (w_closed w) hist" and cph: "l0_cipher_ok (w_cipher w)"
    and top: "(- 1) |\<notin>| fmdom (w_closed w)"
    and sink: "at_rest (e_crc env) [] (w_sink w)" "cipher (w_sink w) = segment_cipher (w_cipher w) (segment (w_sink w))"
      "segment (w_sink w) = next_segment_number (w_closed w)"
  shows "\<exists>hist'. sink_ok env hist' w \<and> log_ok (e_crc env) (w_cipher w) (wal_files w) hist' \<and>
    log_batches (wal_files w) hist' = log_batches (w_closed w) hist \<and> hist' (segment (w_sink w)) = []"
proof -
  let ?n = "segment (w_sink w)" and ?ns = "numbers (w_closed w)"
  let ?hist = "hist(?n := [])"
  have above: "m < ?n" if m: "m |\<in>| fmdom (w_closed w)" for m
  proof -
    have "m \<in> set ?ns" using m by simp
    then have le: "m \<le> last ?ns" and ne: "?ns \<noteq> []" using sorted_bounds(2) [OF numbers_sorted(1)] by fastforce+
    have "last ?ns \<noteq> - 1" using top last_in_set [OF ne] by auto
    then have "last ?ns < last ?ns + 1" by (rule u64_less_Suc)
    then show ?thesis using le ne sink(3) by (simp add: next_segment_number_numbers)
  qed
  have ok: "sink_ok env ?hist w"
    using sink(1,2) cph above by (simp add: sink_ok_def batches_ok_def)
  have nums: "numbers (wal_files w) = ?ns @ [?n]" by (rule numbers_wal_files [OF ok])
  have "log_ok (e_crc env) (w_cipher w) (wal_files w) ?hist"
  proof (rule log_ok_wal_files [OF ok])
    show "gapless (numbers (wal_files w))"
      using log gapless_snoc [of ?ns] sink(3) unfolding nums by (auto simp: log_ok_def next_segment_number_numbers)
    fix n f assume f: "fmlookup (w_closed w) n = Some f"
    then have "n \<noteq> ?n" using above by (auto simp: fmlookup_dom_iff)
    then show "file_holds (e_crc env) (w_cipher w) n (?hist n) f" using log f by (simp add: log_ok_def)
  qed
  moreover have old: "map ?hist ?ns = map hist ?ns" using above by auto
  have "log_batches (wal_files w) ?hist = log_batches (w_closed w) hist"
    by (simp add: log_batches_def nums old)
  ultimately show ?thesis using ok by (intro exI [of _ ?hist]) simp
qed

text \<open>What is on disk when the process ends, and what a power loss leaves of it.\<close>

definition visible_disk :: "writer \<Rightarrow> disk" where
  "visible_disk w = \<lparr>dk_wal = wal_files w, dk_levels = w_levels w, dk_dir = w_dir w\<rparr>"

definition crash_disk :: "writer \<Rightarrow> disk" where
  "crash_disk w = \<lparr>dk_wal = fmmap (\<lambda>f. f\<lparr>wf_data := wf_durable f\<rparr>) (wal_files w),
     dk_levels = (w_levels w)\<lparr>lf_files := lf_durable (w_levels w)\<rparr>, dk_dir = w_dir w\<rparr>"

lemma crash_log_ok:
  "log_ok crc cph files hist \<Longrightarrow> log_ok crc cph (fmmap (\<lambda>f. f\<lparr>wf_data := wf_durable f\<rparr>) files) hist"
  by (auto simp: log_ok_def numbers_def file_holds_def)

lemma open_writer_restores:
  assumes holds: "writer_holds env resolve nc ec hist w" and top: "segment (w_sink w) \<noteq> - 1"
    and wal: "log_ok (e_crc env) (w_cipher w) (dk_wal dk) hist" "fmdom (dk_wal dk) = fmdom (wal_files w)"
    and lev: "lf_files (dk_levels dk) = lf_files (w_levels w)"
    and run: "open_writer env (w_cipher w) uuid nc ec nonces resolve dk = r"
  shows "case r of
      Inl e \<Rightarrow> e = WError IoError \<and> (lf_faults (dk_levels dk) \<noteq> [] \<or> dfaults (dk_dir dk) \<noteq> [])
    | Inr w' \<Rightarrow> writer_ok env resolve nc ec w' \<and> w_mem w' = w_mem w \<and> w_l0 w' = w_l0 w \<and>
        pub_delta (w_published w') = pub_delta (w_published w)"
proof -
  note inv = holds [unfolded writer_holds_def]
  have nums: "numbers (dk_wal dk) = numbers (wal_files w)" by (simp add: numbers_def wal(2))
  have batches: "log_batches (dk_wal dk) hist = log_batches (wal_files w) hist" by (simp add: log_batches_def nums)
  have paths: "l0_segment_paths_sorted (dk_levels dk) = map ls_path (rev (w_l0 w))"
    using inv by (simp add: l0_segment_paths_sorted_def map_fst_sorted_list_of_fmap lev levels_ok_def rev_map)
  obtain rl d where open_run: "open_levels env (w_cipher w) (map ls_path (rev (w_l0 w))) (dk_levels dk) = (rl, d)" by fastforce
  have reads: "lf_files d = lf_files (dk_levels dk) \<and> lf_durable d = lf_durable (dk_levels dk) \<and>
      (rl = Inl IoError \<and> lf_faults (dk_levels dk) \<noteq> [] \<or> rl = Inr (rev (w_l0 w)))"
    using inv by (intro open_levels_reads [OF _ open_run]) (simp add: lev levels_ok_def)
  have replay: "replay_dir (e_crc env) (w_cipher w) (Some (listing wf_data (dk_wal dk))) =
      Inr (replay_onto (log_batches (wal_files w) hist) replay_default)"
    using replay_dir_log [OF wal(1)] by (simp add: batches)
  have fold: "apply_all (e_layout env) (\<lambda>op. resolve_with_l0 op (resolve op) (map ls_mem (w_l0 w)))
      (map rop (concat (map fst (log_batches (wal_files w) hist))))
      (with_bases (node_base_over nc (w_l0 w)) (edge_base_over ec (w_l0 w))) = Some (w_mem w)"
    using inv by (simp add: log_folds_def resolve_over_def [abs_def])
  obtain rc d2 where create_run: "create (e_cap env) (next_segment_number (dk_wal dk)) (w_cipher w) nonces (dk_dir dk) = (rc, d2)"
    by fastforce
  show ?thesis
  proof (cases "rl = Inr (rev (w_l0 w))")
    case False
    then have "rl = Inl IoError \<and> lf_faults (dk_levels dk) \<noteq> []" using reads by blast
    then show ?thesis using run open_run by (auto simp: open_writer_def paths)
  next
    case True
    note eval = open_writer_def paths open_run True replay fold node_base_over_def [symmetric] edge_base_over_def [symmetric]
      create_run Let_def replay_default_def
    show ?thesis
    proof (cases rc)
      case (Inl e)
      then show ?thesis using run create_fails [OF create_run [unfolded Inl]] by (auto simp: eval)
    next
      case (Inr s)
      define w' where "w' = \<lparr>w_sink = s, w_mem = w_mem w, w_l0 = w_l0 w,
        w_seq = last_seq (replay_onto (log_batches (wal_files w) hist) replay_default), w_cipher = w_cipher w,
        w_published = \<lparr>pub_delta = published_snapshot (w_mem w) (w_l0 w), pub_epoch = 1\<rparr>,
        w_touched = journal_new 1, w_core_uuid = uuid, w_consolidating = False,
        w_closed = dk_wal dk, w_dir = d2, w_levels = d\<rparr>"
      have r: "r = Inr w'" using run Inr by (simp add: eval w'_def)
      have sink: "at_rest (e_crc env) [] s \<and> cipher s = segment_cipher (w_cipher w) (segment s) \<and>
          segment s = next_segment_number (dk_wal dk)"
        using create_opens [of "e_cap env" "next_segment_number (dk_wal dk)" "w_cipher w" nonces "dk_dir dk" s d2 "e_crc env"]
          create_run Inr by simp
      have "(- 1) |\<notin>| fmdom (dk_wal dk)"
        using top inv unfolding wal(2) by (auto simp: sink_ok_def wal_files_def)
      then obtain hist' where "sink_ok env hist' w'" "log_ok (e_crc env) (w_cipher w') (wal_files w') hist'"
          "log_batches (wal_files w') hist' = log_batches (w_closed w') hist"
        using fresh_segment [of env w' hist] wal(1) inv sink by (auto simp: w'_def sink_ok_def)
      then have "writer_holds env resolve nc ec hist' w'"
        using inv reads batches by (simp add: writer_holds_def w'_def lev)
      then show ?thesis using inv by (auto simp: r writer_ok_def w'_def)
    qed
  qed
qed


section \<open>Bases\<close>

text \<open>No operation moves the bases of a memtable.\<close>

definition bases :: "memtable \<Rightarrow> u64 \<times> u64" where
  "bases m = (m_base m, m_edge_base m)"

lemma grown_bases: "grown a b c m m' \<Longrightarrow> bases m' = bases m"
  by (simp add: grown_def bases_def)

lemma upd_bases [simp]: "bases (upd_delta x f m) = bases m" "bases (m\<lparr>m_bytes := n\<rparr>) = bases m"
  by (simp_all add: bases_def upd_delta_def split: option.splits)

lemma touch_bases: "touch_node_entry lay l p v r m = (c, m') \<Longrightarrow> bases m' = bases m"
  using grown_bases [OF intern_node_grown [of l p v m]]
  by (auto simp: touch_node_entry_def touch_entry_def Let_def bases_def split: prod.splits option.splits if_splits)

lemma node_op_bases:
  "bases (upsert_node lay l p v r ps m) = bases m" "bases (remove_node_props lay l p v r ns m) = bases m"
  "bases (replace_node lay l p v r ps m) = bases m" "bases (set_node_labels lay l p v r ad dr m) = bases m"
  "bases (delete_node lay l p v r m) = bases m"
  using touch_bases [of lay l p v r m] grown_bases [OF intern_node_grown [of l p v m]]
  by (auto simp: upsert_node_def remove_node_props_def replace_node_def set_node_labels_def split: prod.splits)
    (auto simp: delete_node_def Let_def bases_def split: prod.splits option.splits if_splits)

lemma edge_op_bases:
  "bases (upsert_edge_keyed lay src rt dst rs rd key rep ps m) = bases m"
  "bases (patch_core_edge_keyed lay src rt dst rs rd key cid rep ps m) = bases m"
  "bases (delete_edge_keyed lay src rt dst rs rd key m) = bases m"
  using grown_bases [OF edge_prologue_grown [of lay src rt dst rs rd key m]] grown_bases [OF edge_bodies_grown(1)]
    grown_bases [OF edge_bodies_grown(3)] grown_bases [OF delete_edge_grown]
  by (auto simp: upsert_edge_keyed_def patch_core_edge_keyed_def split: prod.splits)

lemma apply_op_bases: "apply_op lay op res m = Some m' \<Longrightarrow> bases m' = bases m"
  by (cases "(lay, op, res, m)" rule: apply_op.cases) (auto simp: node_op_bases edge_op_bases split: option.splits)

lemma apply_all_bases: "apply_all lay resolve ops m = Some m' \<Longrightarrow> bases m' = bases m"
  by (induction ops arbitrary: m) (auto simp: bind_eq_Some_conv dest: apply_op_bases)

lemma folded_bases:
  "log_folds env resolve nc ec bs l0 mem \<Longrightarrow> m_base mem = node_base_over nc l0 \<and> m_edge_base mem = edge_base_over ec l0"
  by (drule apply_all_bases [OF log_folds_def [THEN iffD1]]) (simp add: bases_def with_bases_def)

section \<open>Rotating the log\<close>

lemma seal_keeps_file:
  assumes "at_rest crc bs s" "cipher s = segment_cipher cph n" "cipher_ok (cipher s)" "batches_ok bs"
    and "seal_segment s = (r, s')"
  shows "file_holds crc cph n bs \<lparr>wf_data = fdata s', wf_durable = synced s'\<rparr> \<and> segment s' = segment s"
proof -
  have "wbuf s = []" using assms(1) by (auto simp: at_rest_def committed_def)
  then have "fdata s' = fdata s \<and> (synced s' = fdata s \<or> synced s' = synced s) \<and> segment s' = segment s"
    using assms(5)
    by (auto simp: seal_segment_def sbind_def flush_buf_def sync_data_def fsync_dir_def syscall_def split: list.splits io.splits)
  then show ?thesis using at_rest_file [OF assms(1-4), of "synced s'"] by auto
qed

text \<open>Whatever fails, rotating keeps what the log holds.\<close>

lemma rotate_keeps_writer:
  assumes holds: "writer_holds env resolve nc ec hist w" and top: "segment (w_sink w) \<noteq> - 1"
    and run: "rotate_log env nonces w = (r, w')"
  shows "(\<exists>hist'. writer_holds env resolve nc ec hist' w' \<and> (\<not> isl r \<longrightarrow> hist' (segment (w_sink w')) = [])) \<and>
    w_mem w' = w_mem w \<and> w_l0 w' = w_l0 w \<and> w_levels w' = w_levels w \<and>
    w_published w' = w_published w \<and> w_cipher w' = w_cipher w \<and>
    (\<not> isl r \<longrightarrow> fmdom (w_closed w') = fmdom (wal_files w) \<and> at_rest (e_crc env) [] (w_sink w') \<and>
       cipher (w_sink w') = segment_cipher (w_cipher w) (segment (w_sink w')) \<and>
       segment (w_sink w') |\<notin>| fmdom (wal_files w))"
proof -
  note inv = holds [unfolded writer_holds_def]
  let ?n = "next_segment_number (wal_files w)"
  obtain rc d where create_run: "create (e_cap env) ?n (w_cipher w) nonces (w_dir w) = (rc, d)" by fastforce
  show ?thesis
  proof (cases rc)
    case (Inl e)
    then have "r = Inl (WError e)" "w' = w\<lparr>w_dir := d\<rparr>"
      using run create_run by (simp_all add: rotate_log_def wbind_def on_dir_def)
    then show ?thesis using holds by (auto simp: writer_holds_def sink_ok_def wal_files_def)
  next
    case (Inr s)
    obtain rs old where seal: "seal_segment (w_sink w) = (rs, old)" by fastforce
    have w': "w' = w\<lparr>w_dir := d, w_sink := s, w_closed := fmupd (segment old) \<lparr>wf_data = fdata old, wf_durable = synced old\<rparr> (w_closed w)\<rparr>"
      using run create_run seal Inr by (simp add: rotate_log_def wbind_def on_dir_def)
    have sink: "at_rest (e_crc env) [] s \<and> cipher s = segment_cipher (w_cipher w) (segment s) \<and> segment s = ?n"
      using create_opens [of "e_cap env" ?n "w_cipher w" nonces "w_dir w" s d "e_crc env"] create_run Inr by simp
    have old: "file_holds (e_crc env) (w_cipher w) (segment (w_sink w)) (hist (segment (w_sink w)))
        \<lparr>wf_data = fdata old, wf_durable = synced old\<rparr>" "segment old = segment (w_sink w)"
      using seal_keeps_file [OF _ _ _ _ seal] inv by (auto simp: sink_ok_def wal_name_ok)
    have dom: "fmdom (w_closed w') = fmdom (wal_files w)" by (simp add: w' old(2) wal_files_def)
    have nums: "numbers (w_closed w') = numbers (wal_files w)" by (simp add: numbers_def dom)
    have log: "log_ok (e_crc env) (w_cipher w) (w_closed w') hist"
      using inv old unfolding log_ok_def nums by (auto simp: w' wal_files_def)
    have next_num: "next_segment_number (w_closed w') = ?n" by (simp add: next_segment_number_numbers nums)
    have "(- 1) |\<notin>| fmdom (w_closed w')" using top inv unfolding dom by (auto simp: sink_ok_def wal_files_def)
    then obtain hist' where h: "sink_ok env hist' w'" "log_ok (e_crc env) (w_cipher w') (wal_files w') hist'"
        "log_batches (wal_files w') hist' = log_batches (w_closed w') hist" "hist' (segment (w_sink w')) = []"
      using fresh_segment [of env w' hist] log inv sink next_num by (auto simp: w' sink_ok_def)
    then have "writer_holds env resolve nc ec hist' w'"
      using inv by (simp add: writer_holds_def w' log_batches_def nums [unfolded w', simplified])
    moreover have "segment (w_sink w') |\<notin>| fmdom (wal_files w)" using sink_not_closed [OF h(1)] dom by simp
    ultimately show ?thesis using sink dom h(4) by (auto simp: w')
  qed
qed

text \<open>C11: Freezing loses nothing, whichever call fails: the memtable, the levels and what is published are
  untouched and the files still rebuild them; a successful freeze hands over the published delta with
  the numbers of all the segments and level files that hold it, and leaves the log open on a segment
  outside that set.\<close>

theorem freeze_is_nondestructive:
  assumes "writer_ok env resolve nc ec w" "segment (w_sink w) \<noteq> - 1" "freeze env nonces w = (r, w')"
  shows "writer_ok env resolve nc ec w' \<and> w_mem w' = w_mem w \<and> w_l0 w' = w_l0 w \<and> w_published w' = w_published w \<and>
    (\<forall>fz. r = Inr fz \<longrightarrow> with_levels (fz_snapshot fz) (fz_l0 fz) = pub_delta (w_published w) \<and>
       set (fz_consumed fz) = fset (fmdom (w_closed w')) \<and> segment (w_sink w') \<notin> set (fz_consumed fz) \<and>
       rev (fz_consumed_l0 fz) = l0_segment_paths_sorted (w_levels w'))"
proof -
  obtain hist where holds: "writer_holds env resolve nc ec hist w" using assms(1) by (auto simp: writer_ok_def)
  obtain rr w1 where run: "rotate_log env nonces w = (rr, w1)" by fastforce
  note keep = rotate_keeps_writer [OF holds assms(2) run]
  have ok: "writer_ok env resolve nc ec w1" using keep by (auto simp: writer_ok_def)
  have levels: "rev (map ls_path (w_l0 w)) = l0_segment_paths_sorted (w_levels w)"
    "pub_delta (w_published w) = published_snapshot (w_mem w) (w_l0 w)"
    using holds by (simp_all add: writer_holds_def levels_ok_def l0_segment_paths_sorted_def map_fst_sorted_list_of_fmap)
  show ?thesis
  proof (cases rr)
    case (Inl e)
    then have "r = Inl e" "w' = w1" using assms(3) run by (simp_all add: freeze_def wbind_def)
    then show ?thesis using keep ok by simp
  next
    case (Inr u)
    then have w': "w' = w1" and r: "r = Inr \<lparr>fz_snapshot = w_mem w1, fz_l0 = map (as_level \<circ> ls_mem) (w_l0 w1),
        fz_consumed = wal_segment_paths w, fz_consumed_l0 = map ls_path (w_l0 w)\<rparr>"
      using assms(3) run by (auto simp: freeze_def wbind_def)
    have consumed: "set (wal_segment_paths w) = fset (fmdom (wal_files w))"
      by (simp add: wal_segment_paths_def map_fst_sorted_list_of_fmap)
    show ?thesis
      unfolding r w' using keep ok Inr by (simp add: levels consumed published_snapshot_def)
  qed
qed

section \<open>Concrete instances\<close>

text \<open>A writer on an empty log over a core of five nodes and seven relationships.\<close>

definition ex_env :: writer_env where
  "ex_env = \<lparr>e_crc = (\<lambda>_. 7), e_cap = 8192, e_layout = ex_layout\<rparr>"

definition ex_resolve :: "wal_op \<Rightarrow> op_resolution" where
  "ex_resolve op = ResNode (Some 3)"

definition ex_dir :: wal_dir where
  "ex_dir = \<lparr>parent_is_dir = True, dir_exists = True, dir_durable = True, entry_durable = True, dfaults = []\<rparr>"

definition ex_writer :: "io list \<Rightarrow> writer" where
  "ex_writer fs = \<lparr>w_sink = sample_sink fs, w_mem = with_bases 5 7, w_l0 = [], w_seq = 0, w_cipher = None,
     w_published = \<lparr>pub_delta = published_snapshot (with_bases 5 7) [], pub_epoch = 1\<rparr>,
     w_touched = journal_new 1, w_core_uuid = 0, w_consolidating = False, w_closed = fmempty, w_dir = ex_dir,
     w_levels = \<lparr>lf_files = fmempty, lf_durable = fmempty, lf_tmp = fmempty, lf_faults = []\<rparr>\<rparr>"

lemma ex_writer_ok: "writer_ok ex_env ex_resolve 5 7 (ex_writer fs)"
proof -
  have sink: "sink_ok ex_env (\<lambda>_. []) (ex_writer fs)"
    using sample_sink_at_rest
    by (simp add: sink_ok_def ex_env_def ex_writer_def batches_ok_def sample_sink_cipher segment_cipher_def
        bind_cipher_def l0_cipher_ok_def)
  have "numbers (wal_files (ex_writer fs)) = [3]"
    using numbers_wal_files [OF sink]
    by (simp add: ex_writer_def sample_sink_def fresh_sink_def numbers_def sorted_list_of_fset.rep_eq)
  moreover have "log_ok (e_crc ex_env) (w_cipher (ex_writer fs)) (wal_files (ex_writer fs)) (\<lambda>_. [])"
    by (rule log_ok_wal_files [OF sink]) (simp_all add: calculation, simp add: ex_writer_def)
  ultimately have "writer_holds ex_env ex_resolve 5 7 (\<lambda>_. []) (ex_writer fs)"
    using sink
    by (simp add: writer_holds_def log_batches_def log_folds_def levels_ok_def ex_writer_def numbers_def
        node_base_over_def edge_base_over_def sorted_list_of_fset.rep_eq)
  then show ?thesis unfolding writer_ok_def by blast
qed

definition ex_batch :: "(wal_op \<times> op_resolution) list" where
  "ex_batch = [(rop sample_record, ResNode (Some 3))]"

lemma ex_batch_ok:
  "list_all (\<lambda>(op, res). res = resolve_over ex_resolve (w_l0 (ex_writer fs)) op) ex_batch"
  "list_all item_ok (map Rec (number_records (w_seq (ex_writer fs)) ex_batch))"
proof -
  have "\<lparr>rseq = 1, rop = rop sample_record\<rparr> = sample_record" by (simp add: sample_record_def)
  then show "list_all item_ok (map Rec (number_records (w_seq (ex_writer fs)) ex_batch))"
    using sample_ok(1) by (simp add: ex_batch_def ex_writer_def)
qed (simp add: ex_batch_def ex_writer_def resolve_over_def ex_resolve_def resolve_with_l0_def)

theorem write_batch_is_atomic_witness:
  "(let (r, w') = write_batch ex_env ex_batch (ex_writer [IoOk, IoFail 0])
    in writer_ok ex_env ex_resolve 5 7 w' \<and>
      (case r of Inl _ \<Rightarrow> w_mem w' = with_bases 5 7 | Inr q \<Rightarrow> q = 1 \<and> pub_epoch (w_published w') = 2)) \<and>
   (\<exists>w'. write_batch ex_env ex_batch (ex_writer []) = (Inr 1, w') \<and> writer_ok ex_env ex_resolve 5 7 w')"
proof (rule conjI)
  obtain r w' where run: "write_batch ex_env ex_batch (ex_writer [IoOk, IoFail 0]) = (r, w')" by fastforce
  have "faulty (w_sink (ex_writer [IoOk, IoFail 0])) \<le> 1" by (simp add: ex_writer_def faulty_def sample_sink_cipher)
  from write_batch_is_atomic [OF ex_writer_ok this ex_batch_ok run]
  show "let (r, w') = write_batch ex_env ex_batch (ex_writer [IoOk, IoFail 0])
    in writer_ok ex_env ex_resolve 5 7 w' \<and>
      (case r of Inl _ \<Rightarrow> w_mem w' = with_bases 5 7 | Inr q \<Rightarrow> q = 1 \<and> pub_epoch (w_published w') = 2)"
    by (cases r) (simp_all add: run, simp_all add: ex_writer_def ex_batch_def)
next
  obtain s where s: "append_batch (\<lambda>_. 7) 8192 [sample_record] 1 (sample_sink []) = (Inr (), s)"
    using append_batch_no_fault [OF sample_sink_at_rest, of "[]" "[sample_record]" "\<lambda>_. 7" 8192 1] sample_ok(1)
    by (auto simp: sample_sink_cipher cipher_ok_def faulty_def)
  have "number_records 0 ex_batch = [sample_record]" by (simp add: ex_batch_def sample_record_def)
  then obtain w' where w': "write_batch ex_env ex_batch (ex_writer []) = (Inr 1, w')"
    using s by (simp add: write_batch_def ex_writer_def ex_env_def wbind_def on_sink_def Let_def ex_batch_def sample_record_def)
  have "faulty (w_sink (ex_writer [])) \<le> 1" by (simp add: ex_writer_def faulty_def sample_sink_cipher)
  from write_batch_is_atomic [OF ex_writer_ok this ex_batch_ok w'] w'
  show "\<exists>w'. write_batch ex_env ex_batch (ex_writer []) = (Inr 1, w') \<and> writer_ok ex_env ex_resolve 5 7 w'" by blast
qed


theorem freeze_is_nondestructive_witness:
  "\<exists>fz w'. freeze ex_env [] (ex_writer []) = (Inr fz, w') \<and> writer_ok ex_env ex_resolve 5 7 w' \<and>
     with_levels (fz_snapshot fz) (fz_l0 fz) = published_snapshot (with_bases 5 7) [] \<and>
     segment (w_sink w') \<notin> set (fz_consumed fz)"
proof -
  obtain rc d where c: "create (e_cap ex_env) (next_segment_number (wal_files (ex_writer []))) None [] ex_dir = (rc, d)" by fastforce
  have "dfaults ex_dir = []" by (simp add: ex_dir_def)
  then obtain s where rc: "rc = Inr s" using create_fails [of "e_cap ex_env" _ None "[]" ex_dir _ d] c by (cases rc) metis+
  have "seal_segment (sample_sink []) = (Inr 3, (sample_sink [])\<lparr>synced := WAL_MAGIC\<rparr>)"
    by (simp add: seal_segment_def sbind_def flush_buf_def sync_data_def fsync_dir_def syscall_def sample_sink_def fresh_sink_def)
  then obtain fz w' where run: "freeze ex_env [] (ex_writer []) = (Inr fz, w')"
    using c rc by (simp add: freeze_def rotate_log_def wbind_def on_dir_def ex_writer_def)
  have "segment (w_sink (ex_writer [])) \<noteq> - 1" by (simp add: ex_writer_def sample_sink_def fresh_sink_def)
  from freeze_is_nondestructive [OF ex_writer_ok this run] run show ?thesis
    by (auto simp: ex_writer_def)
qed

end
