(* ===== verification/Delta_Flush.thy ===== *)
theory Delta_Flush
  imports Delta_Recovery
begin

text \<open>
  Moving the delta out of the log, \<^verbatim>\<open>flush_to_l0\<close> and \<^verbatim>\<open>retire\<close> of \<^verbatim>\<open>slater/src/delta_writer.rs\<close>: a flush
  seals the memtable into a level and empties the log without changing what is read; a retire drops the
  frozen part of the log and keeps what was written since.
\<close>

section \<open>Steps of the writer\<close>

lemma wbind_InrE:
  assumes "wbind m f w = (Inr y, w2)"
  obtains x w1 where "m w = (Inr x, w1)" "f x w1 = (Inr y, w2)"
  using assms by (auto simp: wbind_def split: prod.splits sum.splits)

lemma lift_error_Inr [simp]: "lift_error r = Inr x \<longleftrightarrow> r = Inr x"
  by (cases r) simp_all

lemma on_levels_Inr: "on_levels f w = (Inr x, w') \<Longrightarrow> \<exists>d. f (w_levels w) = (Inr x, d) \<and> w' = w\<lparr>w_levels := d\<rparr>"
  by (auto simp: on_levels_def split: prod.splits)

lemma remove_segments_Inr:
  assumes "remove_segments ps w = (Inr (), w')"
  shows "\<exists>d c. w' = w\<lparr>w_dir := d, w_closed := c\<rparr> \<and> (\<forall>n. fmlookup c n = (if n \<in> set ps then None else fmlookup (w_closed w) n))"
  using assms
proof (induction ps arbitrary: w)
  case Nil
  then show ?case by (intro exI [of _ "w_dir w"] exI [of _ "w_closed w"]) simp
next
  case (Cons p ps)
  obtain u w1 where 1: "on_dir (dir_call (\<lambda>d. d)) w = (Inr u, w1)"
    and 2: "remove_segments ps (w1\<lparr>w_closed := fmdrop p (w_closed w1)\<rparr>) = (Inr (), w')"
    using Cons.prems by (auto elim: wbind_InrE)
  from 1 obtain d1 where w1: "w1 = w\<lparr>w_dir := d1\<rparr>" by (auto simp: on_dir_def split: prod.splits)
  obtain d c where "w' = w\<lparr>w_dir := d, w_closed := c\<rparr>"
      "\<forall>n. fmlookup c n = (if n \<in> set ps then None else fmlookup (fmdrop p (w_closed w)) n)"
    using Cons.IH [OF 2] by (auto simp: w1)
  then show ?case by (intro exI [of _ d] exI [of _ c]) auto
qed

lemma rotate_levels:
  "rotate_log env nonces (w\<lparr>w_levels := d\<rparr>) = (r, w') \<Longrightarrow>
     rotate_log env nonces w = (r, w'\<lparr>w_levels := w_levels w\<rparr>) \<and> w_levels w' = d"
  by (auto simp: rotate_log_def wbind_def on_dir_def wal_files_def split: prod.splits sum.splits)

lemma rotate_levels_wal [simp]: "wal_files (w\<lparr>w_levels := d\<rparr>) = wal_files w"
  by (simp add: wal_files_def)

section \<open>Reading over an empty memtable\<close>

lemma empty_level:
  "node_patch (with_bases a b) d = None" "node_identity_by_dense (with_bases a b) d = None"
  "tombstoned_ids (with_bases a b) = []" "edge_delta_by_id (with_bases a b) i = None"
  "out_edges (with_bases a b) d = []" "in_edges (with_bases a b) d = []"
  "born_synthetic_for_identity (with_bases a b) l p v = None"
  by (simp_all add: node_patch_def node_identity_by_dense_def tombstoned_ids_def edge_delta_by_id_def out_edges_def
      in_edges_def edges_for_def born_synthetic_for_identity_def with_bases_def sorted_list_of_fset.rep_eq)

lemma fold_empty_top:
  "fold_levels acc (xs @ [x, None]) = fold_levels acc (xs @ [x])"
  "fold_edge_levels acc' (ys @ [y, None]) = fold_edge_levels acc' (ys @ [y])"
  using fold_levels_snoc(1) [of acc "xs @ [x]"] fold_edge_levels_snoc(1) [of acc' "ys @ [y]"] by simp_all

lemma empty_top_reads:
  fixes mem l0 n a b
  defines "s \<equiv> published_snapshot mem l0"
    and "s' \<equiv> published_snapshot (with_bases a b) (\<lparr>ls_path = n, ls_mem = mem\<rparr> # l0)"
  shows "snap_node_patch s' d = snap_node_patch s d" "is_tombstoned s' d = is_tombstoned s d"
    "snap_node_identity_by_dense s' d = snap_node_identity_by_dense s d"
    "effective_tombstoned_ids s' = effective_tombstoned_ids s"
    "snap_born_synthetic_for_identity s' k = snap_born_synthetic_for_identity s k"
    "edge_patch_value s' i prop = edge_patch_value s i prop" "snap_edge_delta s' i = snap_edge_delta s i"
    "l0 \<noteq> [] \<Longrightarrow> snap_out_edges s' d = snap_out_edges s d" "l0 \<noteq> [] \<Longrightarrow> snap_in_edges s' d = snap_in_edges s d"
proof -
  note unf = s_def s'_def published_snapshot_def with_levels_def levels_newest_first_def levels_oldest_first_def
  show patch: "snap_node_patch s' d = snap_node_patch s d"
    by (cases "l0 = []"; cases "node_patch mem d") (simp_all add: unf snap_node_patch_def as_level_def empty_level fold_empty_top)
  show tomb: "is_tombstoned s' d = is_tombstoned s d" for d
    by (simp add: unf is_tombstoned_def as_level_def empty_level)
  show "snap_node_identity_by_dense s' d = snap_node_identity_by_dense s d"
    by (simp add: unf snap_node_identity_by_dense_def as_level_def empty_level)
  have "is_tombstoned s' = is_tombstoned s" using tomb by blast
  then show "effective_tombstoned_ids s' = effective_tombstoned_ids s"
    by (simp add: effective_tombstoned_ids_def) (simp add: unf as_level_def empty_level)
  show "snap_born_synthetic_for_identity s' k = snap_born_synthetic_for_identity s k"
    by (cases k) (simp add: unf snap_born_synthetic_for_identity_def as_level_def empty_level)
  show "edge_patch_value s' i prop = edge_patch_value s i prop"
    by (simp add: unf edge_patch_value_def as_level_def empty_level)
  show "snap_edge_delta s' i = snap_edge_delta s i"
    by (simp add: unf snap_edge_delta_def as_level_def empty_level fold_empty_top)
  show "snap_out_edges s' d = snap_out_edges s d" "snap_in_edges s' d = snap_in_edges s d" if "l0 \<noteq> []"
    using that by (simp_all add: unf snap_out_edges_def snap_in_edges_def merge_edges_def as_level_def empty_level)
qed

section \<open>The level a flush writes\<close>

lemma next_l0_number_numbers:
  "next_l0_number d = (if numbers (lf_files d) = [] then 0 else last (numbers (lf_files d)) + 1)"
  by (cases "numbers (lf_files d)" rule: rev_cases)
    (simp_all add: next_l0_number_def l0_segment_paths_sorted_def map_fst_sorted_list_of_fmap)

lemma next_l0_number_above:
  assumes "(- 1) |\<notin>| fmdom (lf_files d)" "m |\<in>| fmdom (lf_files d)"
  shows "m < next_l0_number d"
proof -
  let ?ns = "numbers (lf_files d)"
  have "m \<in> set ?ns" using assms(2) by simp
  then have le: "m \<le> last ?ns" and ne: "?ns \<noteq> []" using sorted_bounds(2) [OF numbers_sorted(1)] by fastforce+
  have "last ?ns \<noteq> - 1" using assms(1) last_in_set [OF ne] by auto
  then show ?thesis using le ne u64_less_Suc [of "last ?ns"] by (simp add: next_l0_number_numbers)
qed

lemma levels_ok_Cons:
  assumes "levels_ok crc cph (lf_files d) l0" "(- 1) |\<notin>| fmdom (lf_files d)" "ls_path s = next_l0_number d"
    and "l0_parse crc cph (ls_path s) img = Inr s"
  shows "levels_ok crc cph (fmupd (ls_path s) img (lf_files d)) (s # l0)"
proof -
  have above: "m < ls_path s" if "m |\<in>| fmdom (lf_files d)" for m
    using next_l0_number_above [OF assms(2) that] by (simp add: assms(3))
  then have "numbers (fmupd (ls_path s) img (lf_files d)) = numbers (lf_files d) @ [ls_path s]"
    by (rule numbers_fmupd_above)
  moreover have "ls_path t \<noteq> ls_path s" if "t \<in> set l0" for t
  proof -
    have "ls_path t |\<in>| fmdom (lf_files d)" using assms(1) that by (fastforce simp: levels_ok_def fmlookup_dom_iff)
    then show ?thesis using above by force
  qed
  then have "\<forall>t \<in> set l0. ls_path s \<noteq> ls_path t" by metis
  ultimately show ?thesis using assms(1,4) by (auto simp: levels_ok_def)
qed

text \<open>Writing the level and reading it back.\<close>

lemma write_level:
  assumes mem: "memtable_ok \<rho> \<sigma> mem" "image_storable mem" "length (serialise mem) \<le> AEAD_MAX"
    and cph: "l0_cipher_ok cph" "length nonce = NONCE_LEN"
    and run: "l0_step (\<lambda>d. d) (\<lambda>_ d. d) d = (Inr u, d1)" "l0_write crc cph nonce mem n d1 = (Inr u', d2)"
      "l0_open crc cph n d2 = (Inr level, d3)"
  shows "level = \<lparr>ls_path = n, ls_mem = mem\<rparr> \<and>
    (\<exists>img. lf_files d3 = fmupd n img (lf_files d) \<and> l0_parse crc cph n img = Inr level) \<and>
    (lf_faults d = [] \<longrightarrow> lf_durable d3 = lf_files d3)"
proof -
  obtain img where img: "frame_segment crc cph nonce n mem = Inr img" "l0_parse crc cph n img = Inr \<lparr>ls_path = n, ls_mem = mem\<rparr>"
    using l0_parse_frame [OF mem cph] by blast
  have 1: "lf_files d1 = lf_files d \<and> (lf_faults d = [] \<longrightarrow> lf_faults d1 = [])"
    using run(1) by (auto simp: l0_step_def dest!: l0_call_files split: prod.splits io.splits)
  have 2: "lf_files d2 = fmupd n img (lf_files d1)" using l0_write_cases [OF img(1) run(2)] by auto
  have dur: "lf_faults d1 = [] \<longrightarrow> lf_durable d2 = lf_files d2 \<and> lf_faults d2 = []"
    using run(2) by (auto simp: l0_write_def img(1) sbind_def l0_step_def l0_call_def sync_l0_dir_def rename_tmp_def)
  obtain f where call: "l0_call d2 = (f, d3)" "f = IoOk"
    using run(3) by (auto simp: l0_open_def split: prod.splits io.splits option.splits)
  note 3 = l0_call_files [OF call(1)]
  have "level = \<lparr>ls_path = n, ls_mem = mem\<rparr>" using run(3) call 2 3 img(2) by (simp add: l0_open_def)
  then show ?thesis using 1 2 3 dur img(2) by auto
qed

lemma bases_over_Cons:
  assumes "log_folds env resolve nc ec bs l0 mem" "m_base mem \<le> m_base mem + born_count mem"
    and "m_edge_base mem \<le> m_edge_base mem + born_edge_count mem"
  shows "node_base_over nc (\<lparr>ls_path = n, ls_mem = mem\<rparr> # l0) = m_base mem + born_count mem"
    and "edge_base_over ec (\<lparr>ls_path = n, ls_mem = mem\<rparr> # l0) = m_edge_base mem + born_edge_count mem"
  using folded_bases [OF assms(1)] assms(2,3) by (simp_all add: node_base_over_def edge_base_over_def max_def)

section \<open>Flushing\<close>

lemma flush_run:
  assumes "flush_to_l0 env nonce nonces w = (Inr True, w')"
  obtains u d1 u' d2 level d3 w2 w3 where
    "l0_step (\<lambda>d. d) (\<lambda>_ d. d) (w_levels w) = (Inr u, d1)"
    "l0_write (e_crc env) (w_cipher w) nonce (w_mem w) (next_l0_number d1) d1 = (Inr u', d2)"
    "l0_open (e_crc env) (w_cipher w) (next_l0_number d1) d2 = (Inr level, d3)"
    "rotate_log env nonces (w\<lparr>w_levels := d3\<rparr>) = (Inr (), w2)"
    "remove_segments (numbers (wal_files w)) (w2\<lparr>w_mem := with_bases (m_base (w_mem w) + born_count (w_mem w))
       (m_edge_base (w_mem w) + born_edge_count (w_mem w)), w_l0 := level # w_l0 w2\<rparr>) = (Inr (), w3)"
    "w' = republish (Touched []) w3"
  using assms unfolding flush_to_l0_def Let_def
  by (auto split: if_splits elim!: wbind_InrE dest!: on_levels_Inr
      simp: wal_segment_paths_def map_fst_sorted_list_of_fmap)

text \<open>What a successful flush leaves, before its reads are compared.\<close>

lemma flush_result:
  assumes holds: "writer_holds env resolve nc ec hist w" and top: "segment (w_sink w) \<noteq> - 1"
    and mem: "memtable_ok \<rho> \<sigma> (w_mem w)" "image_storable (w_mem w)" "length (serialise (w_mem w)) \<le> AEAD_MAX"
    and nonce: "length nonce = NONCE_LEN" and run: "flush_to_l0 env nonce nonces w = (Inr True, w')"
  defines "fresh \<equiv> with_bases (m_base (w_mem w) + born_count (w_mem w)) (m_edge_base (w_mem w) + born_edge_count (w_mem w))"
    and "level \<equiv> \<lparr>ls_path = next_l0_number (w_levels w), ls_mem = w_mem w\<rparr>"
  shows "w_mem w' = fresh" "w_l0 w' = level # w_l0 w" "w_closed w' = fmempty" "w_cipher w' = w_cipher w"
    "pub_delta (w_published w') = published_snapshot fresh (level # w_l0 w)" "sink_ok env (\<lambda>_. []) w'"
    "\<exists>img. lf_files (w_levels w') = fmupd (ls_path level) img (lf_files (w_levels w)) \<and>
       l0_parse (e_crc env) (w_cipher w) (ls_path level) img = Inr level"
    "lf_faults (w_levels w) = [] \<longrightarrow> lf_durable (w_levels w') = lf_files (w_levels w')"
proof -
  obtain u d1 u' d2 lv d3 w2 w3 where r:
      "l0_step (\<lambda>d. d) (\<lambda>_ d. d) (w_levels w) = (Inr u, d1)"
      "l0_write (e_crc env) (w_cipher w) nonce (w_mem w) (next_l0_number d1) d1 = (Inr u', d2)"
      "l0_open (e_crc env) (w_cipher w) (next_l0_number d1) d2 = (Inr lv, d3)"
      "rotate_log env nonces (w\<lparr>w_levels := d3\<rparr>) = (Inr (), w2)"
      "remove_segments (numbers (wal_files w)) (w2\<lparr>w_mem := fresh, w_l0 := lv # w_l0 w2\<rparr>) = (Inr (), w3)"
      "w' = republish (Touched []) w3"
    unfolding fresh_def by (rule flush_run [OF run])
  have ciph: "l0_cipher_ok (w_cipher w)" using holds by (simp add: writer_holds_def sink_ok_def)
  have "lf_files d1 = lf_files (w_levels w)" using r(1) by (auto simp: l0_step_def dest!: l0_call_files split: prod.splits io.splits)
  then have n: "next_l0_number d1 = next_l0_number (w_levels w)" by (simp add: next_l0_number_numbers)
  have lev: "lv = level" "\<exists>img. lf_files d3 = fmupd (ls_path level) img (lf_files (w_levels w)) \<and>
        l0_parse (e_crc env) (w_cipher w) (ls_path level) img = Inr level"
      "lf_faults (w_levels w) = [] \<longrightarrow> lf_durable d3 = lf_files d3"
    using write_level [OF mem ciph nonce r(1-3)] by (auto simp: n level_def)
  note rot = rotate_levels [OF r(4)]
  note keep = rotate_keeps_writer [OF holds top rot [THEN conjunct1]]
  obtain d c where w3: "w3 = w2\<lparr>w_mem := fresh, w_l0 := level # w_l0 w, w_dir := d, w_closed := c\<rparr>"
      and c: "\<forall>n. fmlookup c n = (if n \<in> set (numbers (wal_files w)) then None else fmlookup (w_closed w2) n)"
    using remove_segments_Inr [OF r(5)] keep by (auto simp: lev(1))
  have "fmlookup c x = None" for x
    using c keep fmdom_notD [of x "w_closed w2"] by (cases "x |\<in>| fmdom (wal_files w)") simp_all
  then have "c = fmempty" by (intro fmap_ext) simp
  then have w': "w' = republish (Touched []) (w2\<lparr>w_mem := fresh, w_l0 := level # w_l0 w, w_dir := d, w_closed := fmempty\<rparr>)"
    by (simp add: r(6) w3)
  show "w_mem w' = fresh" "w_l0 w' = level # w_l0 w" "w_closed w' = fmempty" "w_cipher w' = w_cipher w"
    "pub_delta (w_published w') = published_snapshot fresh (level # w_l0 w)" "sink_ok env (\<lambda>_. []) w'"
    using keep ciph by (simp_all add: w' sink_ok_def batches_ok_def)
  have "w_levels w' = d3" using rot by (simp add: w')
  then show "\<exists>img. lf_files (w_levels w') = fmupd (ls_path level) img (lf_files (w_levels w)) \<and>
       l0_parse (e_crc env) (w_cipher w) (ls_path level) img = Inr level"
    "lf_faults (w_levels w) = [] \<longrightarrow> lf_durable (w_levels w') = lf_files (w_levels w')"
    using lev by simp_all
qed

lemma flush_keeps_writer:
  assumes holds: "writer_holds env resolve nc ec hist w" and top: "(- 1) |\<notin>| fmdom (lf_files (w_levels w))"
    and room: "m_base (w_mem w) \<le> m_base (w_mem w) + born_count (w_mem w)"
      "m_edge_base (w_mem w) \<le> m_edge_base (w_mem w) + born_edge_count (w_mem w)"
    and res: "w_mem w' = with_bases (m_base (w_mem w) + born_count (w_mem w)) (m_edge_base (w_mem w) + born_edge_count (w_mem w))"
      "w_l0 w' = \<lparr>ls_path = next_l0_number (w_levels w), ls_mem = w_mem w\<rparr> # w_l0 w" "w_closed w' = fmempty"
      "w_cipher w' = w_cipher w" "pub_delta (w_published w') = published_snapshot (w_mem w') (w_l0 w')" "sink_ok env (\<lambda>_. []) w'"
      "lf_files (w_levels w') = fmupd (next_l0_number (w_levels w)) img (lf_files (w_levels w))"
      "l0_parse (e_crc env) (w_cipher w) (next_l0_number (w_levels w)) img = Inr \<lparr>ls_path = next_l0_number (w_levels w), ls_mem = w_mem w\<rparr>"
  shows "writer_ok env resolve nc ec w'"
proof -
  let ?level = "\<lparr>ls_path = next_l0_number (w_levels w), ls_mem = w_mem w\<rparr>"
  note inv = holds [unfolded writer_holds_def]
  have nums: "numbers (wal_files w') = [segment (w_sink w')]"
    using numbers_wal_files [OF res(6)] by (simp add: res(3) numbers_def sorted_list_of_fset.rep_eq)
  have "log_ok (e_crc env) (w_cipher w') (wal_files w') (\<lambda>_. [])"
    by (rule log_ok_wal_files [OF res(6)]) (simp_all add: nums res(3))
  moreover have "levels_ok (e_crc env) (w_cipher w') (lf_files (w_levels w')) (w_l0 w')"
    using levels_ok_Cons [of "e_crc env" "w_cipher w" "w_levels w" "w_l0 w" ?level img] inv top res(8) by (simp add: res)
  moreover have folds: "log_folds env resolve nc ec (log_batches (wal_files w) hist) (w_l0 w) (w_mem w)" using inv by simp
  have "log_folds env resolve nc ec [] (w_l0 w') (w_mem w')"
    by (simp add: log_folds_def res(1,2) bases_over_Cons [OF folds room])
  ultimately show ?thesis
    using res(5,6) unfolding writer_ok_def by (intro exI [of _ "\<lambda>_. []"]) (simp add: writer_holds_def log_batches_def nums)
qed

text \<open>C7: A flush changes where the delta lives and nothing of what is read. When it reports success, the
  memtable is the newest level, every other level is as before, the log is empty, the files rebuild the
  new state (and also after a power loss, if no call on the level directory failed), and the published
  delta answers every node read, deletion test, identity and key lookup and relationship property read
  as before, and lists the same relationships of a node if there was a sealed level already.\<close>

theorem flush_keeps_reads:
  assumes ok: "writer_ok env resolve nc ec w" and top: "segment (w_sink w) \<noteq> - 1" "(- 1) |\<notin>| fmdom (lf_files (w_levels w))"
    and mem: "memtable_ok \<rho> \<sigma> (w_mem w)" "image_storable (w_mem w)" "length (serialise (w_mem w)) \<le> AEAD_MAX"
    and room: "m_base (w_mem w) \<le> m_base (w_mem w) + born_count (w_mem w)"
      "m_edge_base (w_mem w) \<le> m_edge_base (w_mem w) + born_edge_count (w_mem w)"
    and nonce: "length nonce = NONCE_LEN" and run: "flush_to_l0 env nonce nonces w = (Inr True, w')"
  defines "s \<equiv> pub_delta (w_published w)" and "s' \<equiv> pub_delta (w_published w')"
  shows "writer_ok env resolve nc ec w' \<and>
    w_l0 w' = \<lparr>ls_path = next_l0_number (w_levels w), ls_mem = w_mem w\<rparr> # w_l0 w \<and> mem_is_empty (w_mem w') \<and>
    w_closed w' = fmempty \<and> (lf_faults (w_levels w) = [] \<longrightarrow> lf_durable (w_levels w') = lf_files (w_levels w')) \<and>
    (\<forall>d. snap_node_patch s' d = snap_node_patch s d \<and> is_tombstoned s' d = is_tombstoned s d \<and>
       snap_node_identity_by_dense s' d = snap_node_identity_by_dense s d) \<and>
    effective_tombstoned_ids s' = effective_tombstoned_ids s \<and>
    (\<forall>k. snap_born_synthetic_for_identity s' k = snap_born_synthetic_for_identity s k) \<and>
    (\<forall>i p. edge_patch_value s' i p = edge_patch_value s i p \<and> snap_edge_delta s' i = snap_edge_delta s i) \<and>
    (w_l0 w \<noteq> [] \<longrightarrow> (\<forall>d. snap_out_edges s' d = snap_out_edges s d \<and> snap_in_edges s' d = snap_in_edges s d))"
proof -
  obtain hist where holds: "writer_holds env resolve nc ec hist w" using ok by (auto simp: writer_ok_def)
  note res = flush_result [OF holds top(1) mem nonce run]
  obtain img where "lf_files (w_levels w') = fmupd (next_l0_number (w_levels w)) img (lf_files (w_levels w))"
      "l0_parse (e_crc env) (w_cipher w) (next_l0_number (w_levels w)) img = Inr \<lparr>ls_path = next_l0_number (w_levels w), ls_mem = w_mem w\<rparr>"
    using res(7) by auto
  then have "writer_ok env resolve nc ec w'"
    using res by (intro flush_keeps_writer [OF holds top(2) room]) simp_all
  moreover have "s = published_snapshot (w_mem w) (w_l0 w)" using holds by (simp add: s_def writer_holds_def)
  moreover have "mem_is_empty (w_mem w')" unfolding res(1) by (simp add: mem_is_empty_def with_bases_def)
  ultimately show ?thesis using res(2,3,5,8) by (simp add: s'_def empty_top_reads)
qed

section \<open>Retiring a frozen delta\<close>

lemma remove_levels_Inr:
  "remove_levels ps d = (Inr (), d') \<Longrightarrow> fmlookup (lf_files d') n = (if n \<in> set ps then None else fmlookup (lf_files d) n)"
proof (induction ps arbitrary: d)
  case (Cons p ps)
  obtain d1 where 1: "remove_level p d = (Inr (), d1)" "remove_levels ps d1 = (Inr (), d')"
    using Cons.prems by (auto elim: sbind_InrE)
  have "lf_files d1 = fmdrop p (lf_files d)"
    using 1(1) by (auto simp: remove_level_def l0_step_def dest!: l0_call_files split: prod.splits io.splits)
  then show ?case using Cons.IH [OF 1(2)] by simp
qed simp

lemma resolve_over_Nil: "resolve_over resolve [] = resolve"
proof
  fix op
  show "resolve_over resolve [] op = resolve op"
    by (cases "wal_edge_keys op"; cases "wal_node_key op")
      (auto simp: resolve_over_def resolve_with_l0_def split: op_resolution.splits option.splits)
qed

lemma fmempty_numbers: "(\<And>n. fmlookup f n = None) \<Longrightarrow> f = fmempty"
  by (intro fmap_ext) simp

text \<open>What is left when every closed segment and every level is consumed.\<close>

lemma retire_replay:
  assumes holds: "writer_holds env resolve nc ec hist w" and consumed: "set consumed = fset (fmdom (w_closed w))"
    and rem: "remove_segments consumed w = (Inr (), w1)"
  shows "\<exists>d. w1 = w\<lparr>w_dir := d, w_closed := fmempty\<rparr>" "sink_ok env hist w1" "log_ok (e_crc env) (w_cipher w) (wal_files w1) hist"
    "log_batches (wal_files w1) hist = hist (segment (w_sink w))"
    "replay_dir (e_crc env) (w_cipher w) (Some (listing wf_data (wal_files w1))) =
       Inr (replay_onto (hist (segment (w_sink w))) replay_default)"
proof -
  obtain d c where w1: "w1 = w\<lparr>w_dir := d, w_closed := c\<rparr>"
      and "\<forall>n. fmlookup c n = (if n \<in> set consumed then None else fmlookup (w_closed w) n)"
    using remove_segments_Inr [OF rem] by blast
  then have "c = fmempty" using fmdom_notD [of _ "w_closed w"] by (intro fmempty_numbers) (simp add: consumed)
  then have w1': "w1 = w\<lparr>w_dir := d, w_closed := fmempty\<rparr>" by (simp add: w1)
  then show "\<exists>d. w1 = w\<lparr>w_dir := d, w_closed := fmempty\<rparr>" by blast
  show sink: "sink_ok env hist w1" using holds by (simp add: w1' writer_holds_def sink_ok_def)
  have nums: "numbers (wal_files w1) = [segment (w_sink w)]"
    using numbers_wal_files [OF sink] by (simp add: w1' numbers_def sorted_list_of_fset.rep_eq)
  show log: "log_ok (e_crc env) (w_cipher w) (wal_files w1) hist"
    using log_ok_wal_files [OF sink] by (simp add: nums) (simp add: w1')
  show batches: "log_batches (wal_files w1) hist = hist (segment (w_sink w))" by (simp add: log_batches_def nums)
  show "replay_dir (e_crc env) (w_cipher w) (Some (listing wf_data (wal_files w1))) =
      Inr (replay_onto (hist (segment (w_sink w))) replay_default)"
    using replay_dir_log [OF log] by (simp add: batches)
qed

lemma retire_holds:
  assumes holds: "writer_holds env resolve nc ec hist w"
    and consumed: "set consumed = fset (fmdom (w_closed w))" "set consumed_l0 = fset (fmdom (lf_files (w_levels w)))"
    and run: "retire env consumed consumed_l0 uuid nc' ec' resolve' w = (Inr (), w')"
  shows "writer_ok env resolve' nc' ec' w' \<and> w_l0 w' = [] \<and> w_core_uuid w' = uuid \<and>
    apply_all (e_layout env) resolve' (map rop (concat (map fst (hist (segment (w_sink w)))))) (with_bases nc' ec') = Some (w_mem w')"
proof -
  note inv = holds [unfolded writer_holds_def]
  let ?bs = "hist (segment (w_sink w))"
  obtain w1 d2 where 1: "remove_segments consumed w = (Inr (), w1)" "remove_levels consumed_l0 (w_levels w1) = (Inr (), d2)"
    and rest: "(case replay_dir (e_crc env) (w_cipher w1) (Some (listing wf_data (wal_files (w1\<lparr>w_levels := d2\<rparr>)))) of
         Inl e \<Rightarrow> (Inl (WError e), w1\<lparr>w_levels := d2\<rparr>)
       | Inr rp \<Rightarrow>
           (case apply_all (e_layout env) resolve' (map rop (records rp)) (with_bases nc' ec') of
              None \<Rightarrow> (Inl WPanic, w1\<lparr>w_levels := d2\<rparr>)
            | Some mem \<Rightarrow> (Inr (), (republish Rebased (w1\<lparr>w_levels := d2, w_l0 := [], w_seq := last_seq rp, w_mem := mem\<rparr>))
                \<lparr>w_core_uuid := uuid\<rparr>))) = (Inr (), w')"
    using run unfolding retire_def by (auto elim!: wbind_InrE dest!: on_levels_Inr)
  note rp = retire_replay [OF holds consumed(1) 1(1)]
  obtain d where w1': "w1 = w\<lparr>w_dir := d, w_closed := fmempty\<rparr>" using rp(1) by blast
  have levels: "lf_files d2 = fmempty"
    using remove_levels_Inr [OF 1(2)] fmdom_notD [of _ "lf_files (w_levels w)"]
    by (intro fmempty_numbers) (simp add: w1' consumed(2))
  have "w_cipher w1 = w_cipher w" by (simp add: w1')
  then obtain mem where mem: "apply_all (e_layout env) resolve' (map rop (concat (map fst ?bs))) (with_bases nc' ec') = Some mem"
      and w': "w' = (republish Rebased (w1\<lparr>w_levels := d2, w_l0 := [], w_seq := last_seq (replay_onto ?bs replay_default), w_mem := mem\<rparr>))
                \<lparr>w_core_uuid := uuid\<rparr>"
    using rest rp(5) by (auto simp: replay_default_def split: option.splits)
  have "wal_files w' = wal_files w1" by (simp add: w' wal_files_def)
  then have "writer_holds env resolve' nc' ec' hist w'"
    using rp(2,3) mem levels unfolding writer_holds_def
    by (simp add: rp(4)) (simp add: w' w1' sink_ok_def levels_ok_def numbers_def sorted_list_of_fset.rep_eq log_folds_def
        resolve_over_Nil node_base_over_def edge_base_over_def)
  then show ?thesis using mem by (auto simp: writer_ok_def w')
qed

lemma freeze_holds:
  assumes holds: "writer_holds env resolve nc ec hist w" and top: "segment (w_sink w) \<noteq> - 1"
    and run: "freeze env nonces w = (Inr fz, w')"
  shows "\<exists>hist'. writer_holds env resolve nc ec hist' w' \<and> hist' (segment (w_sink w')) = [] \<and>
    set (fz_consumed fz) = fset (fmdom (w_closed w')) \<and> set (fz_consumed_l0 fz) = fset (fmdom (lf_files (w_levels w')))"
proof -
  have rot: "rotate_log env nonces w = (Inr (), w')"
      and fz: "fz_consumed fz = wal_segment_paths w" "fz_consumed_l0 fz = map ls_path (w_l0 w)"
    using run by (auto simp: freeze_def Let_def elim!: wbind_InrE)
  note keep = rotate_keeps_writer [OF holds top rot]
  have "set (numbers (lf_files (w_levels w))) = set (map ls_path (w_l0 w))"
    using holds by (simp add: writer_holds_def levels_ok_def del: numbers_sorted(3))
  then show ?thesis
    using keep by (auto simp: fz wal_segment_paths_def map_fst_sorted_list_of_fmap)
qed

text \<open>C8: What is written between freezing a delta and retiring it survives the consolidation, and only
  that: after the frozen segments and levels are dropped, the memtable is the fold of exactly the
  acknowledged later operations, resolved against the new core, over no levels, and the files rebuild
  it. A refused batch leaves nothing.\<close>

theorem retire_keeps_later_writes:
  assumes "writer_ok env resolve nc ec w" "segment (w_sink w) \<noteq> - 1" and fz: "freeze env nonces w = (Inr fz, w1)"
    and ops: "faulty (w_sink w1) \<le> 1" "list_all (\<lambda>(op, res). res = resolve_over resolve (w_l0 w1) op) ops"
      "list_all item_ok (map Rec (number_records (w_seq w1) ops))" "ops \<noteq> []" and wr: "write_batch env ops w1 = (r, w2)"
    and ret: "retire env (fz_consumed fz) (fz_consumed_l0 fz) uuid nc' ec' resolve' w2 = (Inr (), w3)"
  shows "writer_ok env resolve' nc' ec' w3 \<and> w_l0 w3 = [] \<and> w_core_uuid w3 = uuid \<and>
    apply_all (e_layout env) resolve' (if isl r then [] else map fst ops) (with_bases nc' ec') = Some (w_mem w3)"
proof -
  obtain hist0 where "writer_holds env resolve nc ec hist0 w" using assms(1) by (auto simp: writer_ok_def)
  then obtain hist where h: "writer_holds env resolve nc ec hist w1" "hist (segment (w_sink w1)) = []"
      "set (fz_consumed fz) = fset (fmdom (w_closed w1))" "set (fz_consumed_l0 fz) = fset (fmdom (lf_files (w_levels w1)))"
    using freeze_holds [OF _ assms(2) fz] by blast
  obtain bs where b: "writer_holds env resolve nc ec (hist(segment (w_sink w1) := hist (segment (w_sink w1)) @ bs)) w2"
      "map rop (concat (map fst bs)) = (if isl r then [] else map fst ops)" "segment (w_sink w2) = segment (w_sink w1)"
      "w_closed w2 = w_closed w1" "w_levels w2 = w_levels w1"
    using write_batch_holds [OF h(1) ops wr] by blast
  show ?thesis using retire_holds [OF b(1) _ _ ret] h(2-4) b(2-5) by simp
qed

section \<open>Without failing calls\<close>

lemma create_quiet:
  assumes "dfaults d = []"
  shows "\<exists>s d'. create cap seg cph nonces d = (Inr s, d') \<and> faults s = [] \<and> dfaults d' = []"
  using assms
  by (auto simp: create_def dir_call_def create_file_def sbind_def buf_write_all_def write_all_cold_def direct_write_def
      fresh_sink_def flush_buf_def syscall_def os_write_def Let_def)

lemma rotate_quiet:
  assumes "dfaults (w_dir w) = []" "faults (w_sink w) = []"
  shows "\<exists>w'. rotate_log env nonces w = (Inr (), w') \<and> dfaults (w_dir w') = [] \<and> faults (w_sink w') = []"
proof -
  obtain s d where "create (e_cap env) (next_segment_number (wal_files w)) (w_cipher w) nonces (w_dir w) = (Inr s, d)"
      "faults s = []" "dfaults d = []"
    using create_quiet [OF assms(1)] by blast
  moreover have "\<exists>n s'. seal_segment (w_sink w) = (Inr n, s')"
    using assms(2) by (auto simp: seal_segment_def sbind_def flush_buf_def sync_data_def fsync_dir_def syscall_def os_write_def)
  ultimately show ?thesis by (auto simp: rotate_log_def wbind_def on_dir_def)
qed

lemma remove_segments_quiet:
  "dfaults (w_dir w) = [] \<Longrightarrow> \<exists>w'. remove_segments ps w = (Inr (), w') \<and> w_levels w' = w_levels w"
proof (induction ps arbitrary: w)
  case (Cons p ps)
  then show ?case using Cons.IH [of "w\<lparr>w_closed := fmdrop p (w_closed w)\<rparr>"] by (simp add: wbind_def on_dir_def dir_call_def)
qed simp

lemma remove_levels_quiet: "lf_faults d = [] \<Longrightarrow> \<exists>d'. remove_levels ps d = (Inr (), d')"
  by (induction ps arbitrary: d) (simp_all add: sbind_def remove_level_def l0_step_def l0_call_def)

lemma flush_succeeds:
  assumes mem: "memtable_ok \<rho> \<sigma> (w_mem w)" "image_storable (w_mem w)" "length (serialise (w_mem w)) \<le> AEAD_MAX"
    and "l0_cipher_ok (w_cipher w)" "length nonce = NONCE_LEN" "\<not> w_consolidating w" "\<not> mem_is_empty (w_mem w)"
    and quiet: "lf_faults (w_levels w) = []" "dfaults (w_dir w) = []" "faults (w_sink w) = []"
  shows "\<exists>w'. flush_to_l0 env nonce nonces w = (Inr True, w')"
proof -
  let ?n = "next_l0_number (w_levels w)"
  obtain img where img: "frame_segment (e_crc env) (w_cipher w) nonce ?n (w_mem w) = Inr img"
      "l0_parse (e_crc env) (w_cipher w) ?n img = Inr \<lparr>ls_path = ?n, ls_mem = w_mem w\<rparr>"
    using l0_parse_frame [OF mem assms(4,5)] by blast
  obtain d where d: "l0_write (e_crc env) (w_cipher w) nonce (w_mem w) ?n (w_levels w) = (Inr (), d)"
      "lf_faults d = []" "fmlookup (lf_files d) ?n = Some img"
    using quiet(1) by (simp add: l0_write_def img(1) sbind_def l0_step_def l0_call_def sync_l0_dir_def rename_tmp_def)
  have op: "l0_open (e_crc env) (w_cipher w) ?n d = (Inr \<lparr>ls_path = ?n, ls_mem = w_mem w\<rparr>, d)"
    using d(2,3) img(2) by (simp add: l0_open_def l0_call_def)
  obtain w1 where w1: "rotate_log env nonces (w\<lparr>w_levels := d\<rparr>) = (Inr (), w1)" "dfaults (w_dir w1) = []"
    using rotate_quiet [of "w\<lparr>w_levels := d\<rparr>"] quiet(2,3) by auto
  obtain w2 where "remove_segments (wal_segment_paths (w\<lparr>w_levels := d\<rparr>)) (w1\<lparr>w_mem := with_bases (m_base (w_mem w) + born_count (w_mem w))
      (m_edge_base (w_mem w) + born_edge_count (w_mem w)), w_l0 := \<lparr>ls_path = ?n, ls_mem = w_mem w\<rparr> # w_l0 w1\<rparr>) = (Inr (), w2)"
    using remove_segments_quiet [of "w1\<lparr>w_mem := with_bases (m_base (w_mem w) + born_count (w_mem w))
      (m_edge_base (w_mem w) + born_edge_count (w_mem w)), w_l0 := \<lparr>ls_path = ?n, ls_mem = w_mem w\<rparr> # w_l0 w1\<rparr>"] w1(2) by auto
  then show ?thesis
    using assms(6,7) quiet(1) d op w1(1) by (simp add: flush_to_l0_def wbind_def on_levels_def l0_step_def l0_call_def Let_def)
qed

lemma retire_succeeds:
  assumes holds: "writer_holds env resolve nc ec hist w" and consumed: "set consumed = fset (fmdom (w_closed w))"
    and fold: "apply_all (e_layout env) resolve' (map rop (concat (map fst (hist (segment (w_sink w)))))) (with_bases nc' ec') = Some mem"
    and quiet: "lf_faults (w_levels w) = []" "dfaults (w_dir w) = []"
  shows "\<exists>w'. retire env consumed consumed_l0 uuid nc' ec' resolve' w = (Inr (), w')"
proof -
  obtain w1 where w1: "remove_segments consumed w = (Inr (), w1)" "w_levels w1 = w_levels w"
    using remove_segments_quiet [OF quiet(2)] by blast
  obtain d where d: "remove_levels consumed_l0 (w_levels w1) = (Inr (), d)"
    using remove_levels_quiet [OF quiet(1)] w1(2) by auto
  note rp = retire_replay [OF holds consumed w1(1)]
  have "w_cipher w1 = w_cipher w" using rp(1) by auto
  then show ?thesis using w1(1) d rp(5) fold by (simp add: retire_def wbind_def on_levels_def replay_default_def)
qed

section \<open>Concrete instances\<close>

text \<open>A writer whose log holds one batch, which created a node.\<close>

definition ex_record :: wal_record where
  "ex_record = \<lparr>rseq = 1, rop = ex_op 2\<rparr>"

definition ex_absent :: "wal_op \<Rightarrow> op_resolution" where
  "ex_absent op = ResNode None"

definition logged_sink :: wal_sink where
  "logged_sink = (let img = WAL_MAGIC @ plain_stream (\<lambda>_. 7) (batch_items ([ex_record], 1)) in
     fresh_sink 3 None [] []\<lparr>fdata := img, synced := img, fpos := length img, committed_len := length img, cur_len := length img,
       committed_frames := 2, cur_frames := 2\<rparr>)"

definition ex_logged :: writer where
  "ex_logged = (ex_writer [])\<lparr>w_sink := logged_sink, w_mem := ex_mem, w_seq := 1,
     w_published := \<lparr>pub_delta = published_snapshot ex_mem [], pub_epoch = 2\<rparr>\<rparr>"

lemma ex_item_ok: "item_ok (Rec \<lparr>rseq = s, rop = ex_op 2\<rparr>)"
  using uvarint_len_le [of s] uvarint_len_le [of 1] uvarint_len_le [of 2] uvarint_len_le [of 6] uvarint_len_le [of 3] uvarint_len_le [of "zigzag 2"] uvarint_len_le [of "zigzag 40"]
  by (simp add: ex_op_def key3_ok_def str_ok_def utf8_valid_ascii_bytes ascii_def value_storable_def
      MAX_VALUE_DEPTH_def encode_payload_def write_key3_def write_str_def length_write_uvarint write_counted_def write_patch_def patches_ok_def)

lemma ex_record_ok: "item_ok (Rec ex_record)"
  unfolding ex_record_def by (rule ex_item_ok)

lemma logged_sink_ok: "at_rest (\<lambda>_. 7) [([ex_record], 1)] logged_sink" "cipher logged_sink = None" "faults logged_sink = []"
  "segment logged_sink = 3"
proof -
  show "at_rest (\<lambda>_. 7) [([ex_record], 1)] logged_sink"
    unfolding at_rest_def log_image_def
    by (rule exI [of _ "WAL_MAGIC @ plain_stream (\<lambda>_. 7) (batch_items ([ex_record], 1))"])
      (auto simp: logged_sink_def Let_def fresh_sink_def committed_def floor_ok_def log_frames_def batch_items_def magic_of_def
        faulty_def intro: stream_plain)
qed (simp_all add: logged_sink_def Let_def fresh_sink_def)

lemma ex_logged_holds: "writer_holds ex_env ex_absent 5 0 (\<lambda>_. [([ex_record], 1)]) ex_logged"
proof -
  let ?h = "\<lambda>_. [([ex_record], 1)]"
  have sink: "sink_ok ex_env ?h ex_logged"
    using logged_sink_ok ex_record_ok
    by (simp add: sink_ok_def ex_env_def ex_logged_def ex_writer_def batches_ok_def batch_items_def segment_cipher_def
        bind_cipher_def l0_cipher_ok_def)
  have nums: "numbers (wal_files ex_logged) = [3]"
    using numbers_wal_files [OF sink] by (simp add: ex_logged_def ex_writer_def logged_sink_ok numbers_def sorted_list_of_fset.rep_eq)
  have "log_ok (e_crc ex_env) (w_cipher ex_logged) (wal_files ex_logged) ?h"
    by (rule log_ok_wal_files [OF sink]) (simp_all add: nums, simp add: ex_logged_def ex_writer_def)
  moreover have "apply_all ex_layout ex_absent [ex_op 2] (with_bases 5 0) = Some ex_mem"
    by (simp add: ex_absent_def ex_op_def ex_mem_def)
  ultimately show ?thesis
    using sink
    by (simp add: writer_holds_def log_batches_def nums log_folds_def levels_ok_def)
      (simp add: ex_logged_def ex_writer_def ex_env_def ex_record_def numbers_def node_base_over_def edge_base_over_def
        sorted_list_of_fset.rep_eq resolve_over_Nil)
qed

theorem flush_keeps_reads_witness:
  "\<exists>w'. flush_to_l0 ex_env (replicate 24 0) [] ex_logged = (Inr True, w') \<and> writer_ok ex_env ex_absent 5 0 w' \<and>
     w_l0 w' = [\<lparr>ls_path = 0, ls_mem = ex_mem\<rparr>] \<and>
     snap_node_patch (pub_delta (w_published w')) 5 = node_patch ex_mem 5"
proof -
  have fields: "w_mem ex_logged = ex_mem" "lf_files (w_levels ex_logged) = fmempty" "lf_faults (w_levels ex_logged) = []"
    "w_l0 ex_logged = []" "pub_delta (w_published ex_logged) = published_snapshot ex_mem []" "segment (w_sink ex_logged) = 3"
    "w_cipher ex_logged = None" "\<not> w_consolidating ex_logged" "dfaults (w_dir ex_logged) = []" "faults (w_sink ex_logged) = []"
    by (simp_all add: ex_logged_def ex_writer_def ex_dir_def logged_sink_ok)
  have n: "next_l0_number (w_levels ex_logged) = 0" by (simp add: next_l0_number_numbers fields numbers_def sorted_list_of_fset.rep_eq)
  have "length (serialise ex_mem) < 1000" "m_base ex_mem = 5" "born_count ex_mem = 1" "m_edge_base ex_mem = 0" "born_edge_count ex_mem = 0"
    "mem_is_empty ex_mem \<longleftrightarrow> False"
    by code_simp+
  then have mem: "length (serialise ex_mem) \<le> AEAD_MAX" "m_base ex_mem \<le> m_base ex_mem + born_count ex_mem"
    "m_edge_base ex_mem \<le> m_edge_base ex_mem + born_edge_count ex_mem" "\<not> mem_is_empty ex_mem"
    by (simp_all add: AEAD_MAX_def)
  obtain w' where run: "flush_to_l0 ex_env (replicate 24 0) [] ex_logged = (Inr True, w')"
    using flush_succeeds [of ex_resolver "\<lambda>_. None" ex_logged "replicate 24 0" ex_env "[]"] ex_mem_memtable_ok ex_mem_storable mem fields
    by (auto simp: l0_cipher_ok_def NONCE_LEN_def)
  have "writer_ok ex_env ex_absent 5 0 ex_logged" using ex_logged_holds by (auto simp: writer_ok_def)
  from flush_keeps_reads [OF this _ _ _ _ _ _ _ _ run, of ex_resolver "\<lambda>_. None"] ex_mem_memtable_ok ex_mem_storable mem fields n
  have "writer_ok ex_env ex_absent 5 0 w'" "w_l0 w' = [\<lparr>ls_path = 0, ls_mem = ex_mem\<rparr>]"
    "snap_node_patch (pub_delta (w_published w')) 5 = snap_node_patch (published_snapshot ex_mem []) 5"
    by (simp_all add: NONCE_LEN_def)
  then show ?thesis using run by (auto simp: published_snapshot_def with_levels_def snap_node_patch_def)
qed

lemma write_succeeds:
  assumes holds: "writer_holds env resolve nc ec hist w" and "faults (w_sink w) = []"
    and "list_all item_ok (map Rec (number_records (w_seq w) ops))" "ops \<noteq> []"
    and fold: "apply_resolved (e_layout env) ops (w_mem w) = Some mem"
  shows "\<exists>q w'. write_batch env ops w = (Inr q, w') \<and> w_dir w' = w_dir w"
proof -
  let ?q = "w_seq w + of_nat (length ops)"
  have rest: "at_rest (e_crc env) (hist (segment (w_sink w))) (w_sink w)" "faulty (w_sink w) = 0" "cipher_ok (cipher (w_sink w))"
    using holds assms(2) by (simp_all add: writer_holds_def sink_ok_def wal_name_ok faulty_def)
  obtain s where "append_batch (e_crc env) (e_cap env) (number_records (w_seq w) ops) ?q (w_sink w) = (Inr (), s)"
    using append_batch_no_fault [OF rest assms(3)] by blast
  then show ?thesis using fold assms(4) by (simp add: write_batch_def wbind_def on_sink_def Let_def)
qed

theorem retire_keeps_later_writes_witness:
  "\<exists>fz w1 q w2 w3. freeze ex_env [] ex_logged = (Inr fz, w1) \<and>
     write_batch ex_env [(ex_op 2, ResNode None)] w1 = (Inr q, w2) \<and>
     retire ex_env (fz_consumed fz) (fz_consumed_l0 fz) 9 6 0 (\<lambda>_. ResNode (Some 5)) w2 = (Inr (), w3) \<and>
     writer_ok ex_env (\<lambda>_. ResNode (Some 5)) 6 0 w3 \<and>
     apply_op ex_layout (ex_op 2) (ResNode (Some 5)) (with_bases 6 0) = Some (w_mem w3)"
proof -
  have top: "segment (w_sink ex_logged) \<noteq> - 1" by (simp add: ex_logged_def logged_sink_ok)
  obtain w1 where rot: "rotate_log ex_env [] ex_logged = (Inr (), w1)" "dfaults (w_dir w1) = []" "faults (w_sink w1) = []"
    using rotate_quiet [of ex_logged] by (auto simp: ex_logged_def ex_writer_def ex_dir_def logged_sink_ok)
  then obtain fz where fz: "freeze ex_env [] ex_logged = (Inr fz, w1)" by (simp add: freeze_def wbind_def)
  obtain hist where h: "writer_holds ex_env ex_absent 5 0 hist w1" "hist (segment (w_sink w1)) = []"
      "set (fz_consumed fz) = fset (fmdom (w_closed w1))"
    using freeze_holds [OF ex_logged_holds top fz] by blast
  have old: "w_mem ex_logged = ex_mem" "w_l0 ex_logged = []" "lf_faults (w_levels ex_logged) = []"
    by (simp_all add: ex_logged_def ex_writer_def)
  have same: "w_mem w1 = ex_mem" "w_l0 w1 = []" "lf_faults (w_levels w1) = []"
    using rotate_keeps_writer [OF ex_logged_holds top rot(1)] old by simp_all
  let ?ops = "[(ex_op 2, ResNode None)]"
  have rec: "list_all item_ok (map Rec (number_records (w_seq w1) ?ops))"
    using ex_item_ok by (simp del: item_ok.simps)
  have res: "list_all (\<lambda>(op, res). res = resolve_over ex_absent (w_l0 w1) op) ?ops"
    by (simp add: same resolve_over_Nil ex_absent_def)
  have f: "faulty (w_sink w1) \<le> 1" by (simp add: faulty_def rot(3))
  obtain q w2 where wr: "write_batch ex_env ?ops w1 = (Inr q, w2)" "w_dir w2 = w_dir w1"
    using write_succeeds [OF h(1) rot(3) rec] by (auto simp: ex_op_def)
  obtain bs where b: "writer_holds ex_env ex_absent 5 0 (hist(segment (w_sink w1) := hist (segment (w_sink w1)) @ bs)) w2"
      "map rop (concat (map fst bs)) = [ex_op 2]" "segment (w_sink w2) = segment (w_sink w1)" "w_closed w2 = w_closed w1" "w_levels w2 = w_levels w1"
    using write_batch_holds [OF h(1) f res rec _ wr(1)] by auto
  obtain m where "apply_op ex_layout (ex_op 2) (ResNode (Some 5)) (with_bases 6 0) = Some m" by (simp add: ex_op_def)
  then obtain w3 where ret: "retire ex_env (fz_consumed fz) (fz_consumed_l0 fz) 9 6 0 (\<lambda>_. ResNode (Some 5)) w2 = (Inr (), w3)"
    using retire_succeeds [OF b(1), of "fz_consumed fz" "\<lambda>_. ResNode (Some 5)" 6 0 m "fz_consumed_l0 fz" 9] h(2,3) b(2-5) same(3) wr(2) rot(2)
    by (auto simp: ex_env_def)
  have "writer_ok ex_env ex_absent 5 0 ex_logged" using ex_logged_holds by (auto simp: writer_ok_def)
  note result = retire_keeps_later_writes [OF this top fz f res rec list.distinct(2) wr(1) ret]
  have "apply_all ex_layout (\<lambda>_. ResNode (Some 5)) [ex_op 2] (with_bases 6 0) = Some (w_mem w3)"
    using result by (simp add: ex_env_def del: apply_all.simps)
  then have "apply_op ex_layout (ex_op 2) (ResNode (Some 5)) (with_bases 6 0) = Some (w_mem w3)" by (simp add: bind_eq_Some_conv)
  then show ?thesis using fz wr(1) ret result by blast
qed

end
