(* ===== verification/Spec2Isabelle.thy ===== *)
theory Spec2Isabelle
  imports Merged_View Merge_Reads Delta_Flush
begin

text \<open>
  A verification development for the writable layer of Slater, a graph database whose stored graph (the
  core) is immutable. Paths are relative to \<^verbatim>\<open>src/crates/\<close>.

  \<^bold>\<open>The program.\<close> A write statement becomes an operation on a node or a relationship named by business
  keys. The delta writer resolves the keys to dense ids, appends the operation to a write-ahead log,
  folds it into an in-memory level (the memtable) and publishes the result with an epoch. A flush seals
  the memtable into an immutable level file and empties the log; a compaction merges neighbouring levels;
  a consolidation freezes the delta, builds a new core from it and retires it. A query reads the core
  with the published stack of levels overlaid, newest level first, and looks for neighbours of a vector
  in an index kept over the delta. Opening a graph reloads the levels and replays the log.

  \<^bold>\<open>Theories and sources.\<close>
  \<^item> \<open>Slater_Prelude\<close>: machine words, strings as byte lists, the error type, readers of byte lists, and the
    locale \<open>codec\<close> of an encoder and its decoder, which every format below interprets.
  \<^item> \<open>Wire\<close>: \<^verbatim>\<open>graph-format/src/wire.rs\<close> and \<^verbatim>\<open>Value\<close> of \<^verbatim>\<open>ids.rs\<close>, variable-length integers and values.
  \<^item> \<open>Value_Order\<close>: \<^verbatim>\<open>Value::cmp_key\<close> and the range test of the index overlay.
  \<^item> \<open>Identity\<close>: \<^verbatim>\<open>slater-delta/src/interner.rs\<close> and \<^verbatim>\<open>identity.rs\<close>.
  \<^item> \<open>Seal\<close>: associated data and framing of encrypted artifacts, \<^verbatim>\<open>slater-delta/src/seal.rs\<close> and the parts
    of \<^verbatim>\<open>graph-format/src/crypto.rs\<close> it uses.
  \<^item> \<open>Wal_Record\<close>, \<open>Wal_Log\<close>, \<open>Wal_Sink\<close>: \<^verbatim>\<open>slater-delta/src/wal.rs\<close>, that is the records, the replay of a
    segment and of a directory, and the sink with its rollback over a file whose calls may fail.
  \<^item> \<open>Node_Delta\<close>, \<open>Memtable\<close>: the deltas and the memtable of \<^verbatim>\<open>slater-delta/src/memtable.rs\<close>.
    \<open>Memtable_Nodes\<close> and \<open>Memtable_Edges\<close> hold its invariant and what the operations do to it.
  \<^item> \<open>Memtable_Replay\<close>: \<^verbatim>\<open>resolve_op\<close> of \<^verbatim>\<open>slater/src/server/write.rs\<close>, \<^verbatim>\<open>resolve_with_l0\<close> of
    \<^verbatim>\<open>slater/src/delta_writer.rs\<close> and the replay loop.
  \<^item> \<open>Memtable_Image\<close>, \<open>L0_Segment\<close>: the byte image of a memtable, and level files,
    \<^verbatim>\<open>slater-delta/src/l0.rs\<close>.
  \<^item> \<open>Compaction_Run\<close>, \<open>Merge_Levels\<close>, \<open>Merge_Reads\<close>: which levels a compaction merges
    (\<^verbatim>\<open>delta_writer.rs\<close>), \<^verbatim>\<open>Memtable::merge_levels\<close>, and what the merged level answers.
  \<^item> \<open>Delta_Snapshot\<close>: \<^verbatim>\<open>LevelRead\<close> and \<^verbatim>\<open>DeltaSnapshot\<close> of \<^verbatim>\<open>memtable.rs\<close>, the reads of a stack of levels.
    The locale \<open>level_reads\<close> states what a level answers; the memtable is its instance.
  \<^item> \<open>Merged_View\<close>: the overlay reads of \<^verbatim>\<open>slater/src/exec.rs\<close>, \<^verbatim>\<open>exec/access.rs\<close>, \<^verbatim>\<open>exec/scan.rs\<close> and
    \<^verbatim>\<open>read_view.rs\<close>.
  \<^item> \<open>Rw_Index\<close>: the journal of touched ids and the vector index over the delta, \<^verbatim>\<open>slater/src/rwindex.rs\<close>, with
    the rows of \<^verbatim>\<open>graph-format/src/rwvamana.rs\<close>.
  \<^item> \<open>Delta_Writer\<close>: \<^verbatim>\<open>slater/src/delta_writer.rs\<close>, every operation that changes the writer.
    \<open>Delta_Recovery\<close> and \<open>Delta_Flush\<close> hold what it promises.

  \<^bold>\<open>State and operations.\<close> Structs are records and enums datatypes, under the names of the source where
  they are free; hash maps are finite maps, and where the code collects from one in an unspecified order
  the model lists in ascending order. An operation takes the state and returns it changed, next to an
  error or a result; a panic is an error value of its own. A file or directory carries a script of the
  outcomes of its next calls, so a theorem over all scripts covers every pattern of failures; what a
  power loss leaves is kept beside what is visible. A method that runs under a lock is one step.

  \<^bold>\<open>What is shown.\<close>
  \<^item> Formats: values, log records, memtable images and framed blobs read back as written; canonical keys
    determine identities.
  \<^item> Log: a batch is atomic under any single failing call, an acknowledged batch is durable under every
    pattern for which stray bytes are counted, a torn segment replays to whole batches, and gaps and
    foreign frames are refused.
  \<^item> Memtable: every operation is one update of a map from business keys to deltas and keeps the whole
    invariant; replaying a log never fails and computes the fold of its operations; stacked levels give
    one id per key.
  \<^item> Levels: writing a level file is atomic; a compaction picks one tier and the merged level answers for
    nodes as the run did; folds over levels, deletion tests and relationship reads agree with each other.
  \<^item> Merged reads: index seeks of core nodes, property reads, adjacency streams and the live node count over
    core and delta are exact.
  \<^item> Vector index: an index serves a query only at the epoch of its snapshot and then holds exactly what
    that snapshot says.
  \<^item> Writer: writes are all or nothing, failing or not; freezing loses nothing; a flush changes no read
    and empties the log; a retire keeps exactly the later writes; and in every state so reached, opening
    the files restores what was published, also from what a power loss leaves of them as long as the
    level directory is synced.
  \<^item> Departures: several theorems exhibit inputs on which the code does not do what its comments say,
    such as a relationship lost after a deletion that matched nothing.

  \<^bold>\<open>Bounds.\<close> No definition uses fuel; every loop is a recursive function with a termination proof.
  Machine integers wrap as in the code. Theorems that need room say so: at most \<open>2 ^ 32\<close> interned names,
  ids below \<open>2 ^ 64\<close>, segment and level numbers below the highest, payloads within the length field of a
  frame and the limit of the cipher.

  \<^bold>\<open>Parameters.\<close> The checksum is an arbitrary function. The cipher is a pair of functions, of which it is
  assumed where needed that it opens what it sealed; nonces are a supplied list. The entry sizes of the
  memory estimate, the probes of the core indexes, the reads of the core and how a row is woven into the
  proximity graph are parameters of the definitions that use them.

  \<^bold>\<open>Not modelled.\<close>
  \<^item> Levels kept off the heap (\<^verbatim>\<open>slater-delta/src/l0_offheap.rs\<close>): directories of compressed block files read
    through a cache. The writer is modelled with resident levels.
  \<^item> The core: block files, columns, topology, indexes, segments and manifests of \<^verbatim>\<open>graph-format\<close>, built on
    third-party compression and on file input and output. The delta meets it through the parameters above.
  \<^item> Proximity graphs and quantisation: floating-point heuristics whose result is approximate by design.
  \<^item> Query language, planner, expression evaluation, server, protocol, access control and the offline
    builder: they use the layer modelled here but are not part of it.
  \<^item> Interleavings inside an operation of the writer: all of them run under one lock. The removal of a log
    segment counts as durable at once, and a file left by a failing creation of a segment is not tracked.
  \<^item> For \<^verbatim>\<open>compact_l0\<close> as a whole only its parts are proved: the choice of the run, the merge, and the
    writing of a level file. Merged relationships are covered by the definitions, not by a theorem.
\<close>

end
